(* ===== verification/Prelude.thy ===== *)
theory Prelude imports Main "HOL-Library.Word" "HOL-Library.Sublist" begin

text \<open>
  Shared vocabulary of the development: the collections of facts, the operations of
  \<^verbatim>\<open>std::string_view\<close> the program uses, decimal conversion, truncating division, and
  the interfaces through which the stateful components are verified: machines and step
  relations with an invariant, and those that simulate a more abstract one.

  Strings are byte lists (type \<^typ>\<open>string\<close>), as \<^verbatim>\<open>std::string\<close> is.
  \<^verbatim>\<open>npos\<close> is the value \<open>None\<close> of a search result.
\<close>

section \<open>Collections\<close>

named_theorems step_defs \<open>definitions of the operations of a stateful component\<close>
named_theorems inv_defs \<open>definitions of invariants\<close>

type_synonym time_ns = int
  \<comment> \<open>a reading of \<^verbatim>\<open>steady_clock\<close>, in nanoseconds since its epoch\<close>

section \<open>Operations of string views\<close>

definition str_find :: "char \<Rightarrow> string \<Rightarrow> nat \<Rightarrow> nat option" where
  "str_find c s pos =
     (let n = pos + length (takeWhile (\<lambda>x. x \<noteq> c) (drop pos s))
      in if n < length s then Some n else None)"

definition str_rfind :: "char \<Rightarrow> string \<Rightarrow> nat option" where
  "str_rfind c s = map_option (\<lambda>i. length s - 1 - i) (str_find c (rev s) 0)"

text \<open>\<^verbatim>\<open>s.substr(0, n)\<close>: a count past the end, \<^verbatim>\<open>npos\<close> included, gives the whole view.\<close>

definition str_upto :: "string \<Rightarrow> nat option \<Rightarrow> string" where
  "str_upto s n = (case n of None \<Rightarrow> s | Some k \<Rightarrow> take k s)"

definition str_sub :: "string \<Rightarrow> nat \<Rightarrow> nat \<Rightarrow> string" where
  "str_sub s pos n = take n (drop pos s)"

abbreviation str_starts_with :: "string \<Rightarrow> string \<Rightarrow> bool" where
  "str_starts_with s p \<equiv> prefix p s"

abbreviation str_ends_with :: "string \<Rightarrow> string \<Rightarrow> bool" where
  "str_ends_with s p \<equiv> suffix p s"

lemma takeWhile_free_append [simp]:
  "c \<notin> set xs \<Longrightarrow> takeWhile (\<lambda>x. x \<noteq> c) (xs @ ys) = xs @ takeWhile (\<lambda>x. x \<noteq> c) ys"
  by (induction xs) auto

lemma dropWhile_free_append [simp]:
  "c \<notin> set xs \<Longrightarrow> dropWhile (\<lambda>x. x \<noteq> c) (xs @ ys) = dropWhile (\<lambda>x. x \<noteq> c) ys"
  by (induction xs) auto

lemma takeWhile_free: "c \<notin> set xs \<Longrightarrow> takeWhile (\<lambda>x. x \<noteq> c) xs = xs"
  by (induction xs) auto

lemma dropWhile_free: "c \<notin> set xs \<Longrightarrow> dropWhile (\<lambda>x. x \<noteq> c) xs = []"
  by (induction xs) auto

lemma str_find_Some_bounds:
  "str_find c s pos = Some n \<Longrightarrow> pos \<le> n \<and> n < length s"
  by (auto simp: str_find_def Let_def split: if_splits)

lemma str_find_Some_nth: "str_find c s pos = Some n \<Longrightarrow> s ! n = c"
proof -
  assume a: "str_find c s pos = Some n"
  let ?w = "takeWhile (\<lambda>x. x \<noteq> c) (drop pos s)"
  from a have n: "n = pos + length ?w" and l: "n < length s"
    by (auto simp: str_find_def Let_def split: if_splits)
  then have "length ?w < length (drop pos s)" by simp
  then have "drop pos s ! length ?w = c"
    using nth_length_takeWhile by fastforce
  with n l show "s ! n = c" by simp
qed

lemma str_find_0:
  "str_find c s 0 = (if c \<in> set s then Some (length (takeWhile (\<lambda>x. x \<noteq> c) s)) else None)"
proof (cases "c \<in> set s")
  case True
  then have "length (takeWhile (\<lambda>x. x \<noteq> c) s) < length s"
    by (induction s) auto
  with True show ?thesis by (simp add: str_find_def Let_def)
next
  case False
  then have "takeWhile (\<lambda>x. x \<noteq> c) s = s"
    by auto
  with False show ?thesis
    by (simp add: str_find_def Let_def del: takeWhile_eq_all_conv)
qed

lemma str_upto_find_0: "str_upto s (str_find c s 0) = takeWhile (\<lambda>x. x \<noteq> c) s"
proof (cases "c \<in> set s")
  case True
  then show ?thesis
    by (simp add: str_find_0 str_upto_def) (metis takeWhile_eq_take)
next
  case False
  then have "takeWhile (\<lambda>x. x \<noteq> c) s = s"
    by auto
  with False show ?thesis
    by (simp add: str_find_0 str_upto_def del: takeWhile_eq_all_conv)
qed

lemma all_list_Nil_or_not: "(\<forall>k. Q k) \<longleftrightarrow> Q [] \<and> (\<forall>k. k \<noteq> [] \<longrightarrow> Q k)"
  by metis

lemma take_eq_iff_prefix: "take (length p) s = p \<longleftrightarrow> prefix p s"
  by (auto simp: prefix_def) (metis append_take_drop_id)

lemma str_upto_rfind:
  "c \<notin> set ys \<Longrightarrow> str_upto (xs @ c # ys) (str_rfind c (xs @ c # ys)) = xs"
proof -
  assume "c \<notin> set ys"
  then have "str_find c (rev (xs @ c # ys)) 0 = Some (length ys)"
    by (simp add: str_find_0)
  then show ?thesis by (simp add: str_rfind_def str_upto_def)
qed

lemma take_takeWhile_upto:
  "str_sub s pos (pos + length (takeWhile P (drop pos s)) - pos) = takeWhile P (drop pos s)"
  by (simp add: str_sub_def) (metis takeWhile_eq_take)

section \<open>Decimal conversion\<close>

text \<open>
  \<^verbatim>\<open>std::to_string\<close> of an unsigned value, which is also what \<^verbatim>\<open>operator<<\<close> prints
  for one in the classic locale: the decimal digits without leading zeros.
\<close>

definition digit_char :: "nat \<Rightarrow> char" where
  "digit_char d = char_of (48 + d)"

definition is_digit :: "char \<Rightarrow> bool" where
  "is_digit c \<longleftrightarrow> (48::nat) \<le> of_char c \<and> of_char c \<le> (57::nat)"

definition digit_val :: "char \<Rightarrow> nat" where
  "digit_val c = of_char c - 48"

fun to_dec :: "nat \<Rightarrow> string" where
  "to_dec n = (if n < 10 then [digit_char n] else to_dec (n div 10) @ [digit_char (n mod 10)])"

declare to_dec.simps [simp del]

definition dec_val :: "string \<Rightarrow> nat" where
  "dec_val s = foldl (\<lambda>a c. 10 * a + digit_val c) 0 s"

lemma of_char_digit_char: "d < 10 \<Longrightarrow> (of_char (digit_char d) :: nat) = 48 + d"
  by (simp add: digit_char_def)

lemma is_digit_digit_char: "d < 10 \<Longrightarrow> is_digit (digit_char d)"
  by (simp add: is_digit_def of_char_digit_char)

lemma digit_val_digit_char: "d < 10 \<Longrightarrow> digit_val (digit_char d) = d"
  by (simp add: digit_val_def of_char_digit_char)

lemma to_dec_digits: "c \<in> set (to_dec n) \<Longrightarrow> is_digit c"
proof (induction n rule: to_dec.induct)
  case (1 n)
  then show ?case
    by (cases "n < 10") (auto simp: to_dec.simps [of n] is_digit_digit_char)
qed

lemma to_dec_not_Nil [simp]: "to_dec n \<noteq> []"
  by (subst to_dec.simps) simp

lemma dec_val_to_dec [simp]: "dec_val (to_dec n) = n"
proof (induction n rule: to_dec.induct)
  case (1 n)
  then show ?case
    by (cases "n < 10")
       (simp_all add: to_dec.simps [of n] dec_val_def digit_val_digit_char)
qed

lemma to_dec_inject [simp]: "to_dec m = to_dec n \<longleftrightarrow> m = n"
  by (metis dec_val_to_dec)

section \<open>Durations\<close>

text \<open>
  \<^verbatim>\<open>std::chrono::duration_cast\<close> to a coarser unit divides the signed tick count, and C++
  division rounds towards zero.
\<close>

definition cast_ticks :: "int \<Rightarrow> int \<Rightarrow> int" where
  "cast_ticks ticks unit_ticks =
     (if ticks < 0 then - ((- ticks) div unit_ticks) else ticks div unit_ticks)"

lemma cast_ticks_past: "0 \<le> ticks \<Longrightarrow> cast_ticks ticks u = ticks div u"
  by (simp add: cast_ticks_def)

lemma cast_ticks_future: "ticks < 0 \<Longrightarrow> 0 < u \<Longrightarrow> cast_ticks ticks u \<le> 0"
  by (simp add: cast_ticks_def pos_imp_zdiv_nonneg_iff)

lemma int_le_div_iff:
  assumes "(0::int) < b"
  shows "n \<le> a div b \<longleftrightarrow> n * b \<le> a"
proof
  assume "n \<le> a div b"
  then have "n * b \<le> a div b * b" using assms by (simp add: mult_right_mono)
  also have "\<dots> \<le> a"
    using pos_mod_sign [OF assms, of a] minus_mod_eq_div_mult [of a b] by linarith
  finally show "n * b \<le> a" .
next
  assume "n * b \<le> a"
  then have "n * b div b \<le> a div b" using assms by (rule zdiv_mono1)
  then show "n \<le> a div b" using assms by simp
qed

lemma cast_ticks_ge_iff:
  assumes "0 < b" "0 < n"
  shows "n \<le> cast_ticks a b \<longleftrightarrow> n * b \<le> a"
proof (cases "0 \<le> a")
  case True
  with assms show ?thesis
    by (simp add: cast_ticks_past int_le_div_iff)
next
  case False
  with assms have "cast_ticks a b \<le> 0" "0 < n * b"
    by (simp_all add: cast_ticks_future)
  with False assms show ?thesis by linarith
qed

section \<open>Machines\<close>

text \<open>
  A stateful component is a step function over the operations of its interface. The
  locale \<open>machine\<close> is the contract every operation keeps: the component's
  invariant. \<open>simulation\<close> extends it with an abstraction function under which every
  operation is an operation of the abstract machine. The run of a list of operations
  is a left fold, and the facts about runs are proved here once.
\<close>

locale machine =
  fixes step :: "'s \<Rightarrow> 'e \<Rightarrow> 's"
    and inv :: "'s \<Rightarrow> bool"
  assumes inv_step: "inv s \<Longrightarrow> inv (step s e)"
begin

lemma inv_run: "inv s \<Longrightarrow> inv (foldl step s es)"
  by (induction es arbitrary: s) (simp_all add: inv_step)

text \<open>What every step keeps below a preorder along the invariant, a run keeps.\<close>

lemma run_mono:
  assumes step: "\<And>s e. inv s \<Longrightarrow> r s (step s e)"
    and refl: "\<And>s. r s s" and trans: "\<And>a b c. r a b \<Longrightarrow> r b c \<Longrightarrow> r a c"
  shows "inv s \<Longrightarrow> r s (foldl step s es)"
proof (induction es arbitrary: s)
  case Nil
  show ?case by (simp add: refl)
next
  case (Cons e es)
  from Cons.IH [OF inv_step [OF Cons.prems]] step [OF Cons.prems]
  show ?case by (auto intro: trans)
qed

end

locale simulation = machine step inv
  for step :: "'s \<Rightarrow> 'e \<Rightarrow> 's" and inv :: "'s \<Rightarrow> bool" +
  fixes abs :: "'s \<Rightarrow> 'a"
    and aev :: "'e \<Rightarrow> 'b"
    and astep :: "'a \<Rightarrow> 'b \<Rightarrow> 'a"
  assumes abs_step: "inv s \<Longrightarrow> abs (step s e) = astep (abs s) (aev e)"
begin

lemma abs_run: "inv s \<Longrightarrow> abs (foldl step s es) = foldl astep (abs s) (map aev es)"
  by (induction es arbitrary: s) (simp_all add: abs_step inv_step)

end

text \<open>
  A component whose operations can go wrong: \<open>step\<close> is \<open>None\<close> on undefined behaviour, and the
  contract holds for the runs whose events meet a guard, such as the ownership its clients
  observe. Such runs are defined throughout.
\<close>

fun run_option :: "('s \<Rightarrow> 'e \<Rightarrow> 's option) \<Rightarrow> 's \<Rightarrow> 'e list \<Rightarrow> 's option" where
  "run_option step s [] = Some s"
| "run_option step s (e # es) = Option.bind (step s e) (\<lambda>s'. run_option step s' es)"

fun guarded_run :: "('s \<Rightarrow> 'e \<Rightarrow> 's option) \<Rightarrow> ('s \<Rightarrow> 'e \<Rightarrow> bool) \<Rightarrow> 's \<Rightarrow> 'e list \<Rightarrow> bool" where
  "guarded_run step guard s [] = True"
| "guarded_run step guard s (e # es) =
     (guard s e \<and> (case step s e of None \<Rightarrow> True | Some s' \<Rightarrow> guarded_run step guard s' es))"

lemma run_option_append:
  "run_option step s (es @ fs) = Option.bind (run_option step s es) (\<lambda>s'. run_option step s' fs)"
  by (induction es arbitrary: s) (simp_all split: Option.bind_splits)

lemma guarded_run_snoc:
  "guarded_run step guard s es \<Longrightarrow> run_option step s es = Some s' \<Longrightarrow> guard s' e \<Longrightarrow>
   guarded_run step guard s (es @ [e])"
  by (induction es arbitrary: s) (auto simp: bind_eq_Some_conv split: option.split)

lemma guarded_run_static: "(\<And>s e. e \<in> set es \<Longrightarrow> guard s e) \<Longrightarrow> guarded_run step guard s es"
  by (induction es arbitrary: s) (simp_all split: option.split)

locale guarded_machine =
  fixes step :: "'s \<Rightarrow> 'e \<Rightarrow> 's option"
    and guard :: "'s \<Rightarrow> 'e \<Rightarrow> bool"
    and inv :: "'s \<Rightarrow> bool"
  assumes defined_step: "inv s \<Longrightarrow> guard s e \<Longrightarrow> \<exists>s'. step s e = Some s' \<and> inv s'"
begin

lemma run_defined:
  "inv s \<Longrightarrow> guarded_run step guard s es \<Longrightarrow> \<exists>s'. run_option step s es = Some s' \<and> inv s'"
proof (induction es arbitrary: s)
  case (Cons e es)
  with defined_step [of s e] obtain s' where "step s e = Some s'" "inv s'" by auto
  with Cons show ?case by simp
qed simp

lemma inv_run: "inv s \<Longrightarrow> guarded_run step guard s es \<Longrightarrow> run_option step s es = Some s' \<Longrightarrow> inv s'"
  using run_defined by fastforce

end

text \<open>
  Where operations interleave, a component is a step relation; the contract is the same, an
  invariant of the initial state that every step keeps, and holds of every reachable state.
\<close>

locale step_preserved =
  fixes step :: "'s \<Rightarrow> 's \<Rightarrow> bool"
    and inv :: "'s \<Rightarrow> bool"
  assumes inv_step: "step s s' \<Longrightarrow> inv s \<Longrightarrow> inv s'"
begin

lemma inv_steps: "step\<^sup>*\<^sup>* s s' \<Longrightarrow> inv s \<Longrightarrow> inv s'"
  by (induction rule: rtranclp_induct) (auto intro: inv_step)

end

locale step_invariant = step_preserved step inv
  for step :: "'s \<Rightarrow> 's \<Rightarrow> bool" and inv :: "'s \<Rightarrow> bool" +
  fixes init :: 's
  assumes inv_init: "inv init"
begin

lemma inv_reachable: "step\<^sup>*\<^sup>* init s \<Longrightarrow> inv s"
  using inv_steps inv_init by blast

end

text \<open>
  A step relation refines an abstract one when every step is a sequence of abstract steps
  between the abstractions, empty when the abstraction does not see it; then so is every run.
\<close>

locale step_refinement = step_preserved step inv
  for step :: "'s \<Rightarrow> 's \<Rightarrow> bool" and inv :: "'s \<Rightarrow> bool" +
  fixes abs :: "'s \<Rightarrow> 'a"
    and astep :: "'a \<Rightarrow> 'a \<Rightarrow> bool"
  assumes abs_step: "step s s' \<Longrightarrow> inv s \<Longrightarrow> astep\<^sup>*\<^sup>* (abs s) (abs s')"
begin

lemma abs_steps: "step\<^sup>*\<^sup>* s s' \<Longrightarrow> inv s \<Longrightarrow> astep\<^sup>*\<^sup>* (abs s) (abs s')"
proof (induction rule: rtranclp_induct)
  case (step y z)
  with abs_step [OF step.hyps(2)] inv_steps [OF step.hyps(1)] show ?case
    by (meson rtranclp_trans)
qed simp

end

text \<open>
  An infinite run, in which nothing may happen for a while, is weakly fair to some steps if these
  are, again and again, taken or impossible.
\<close>

definition fair_run :: "('s \<Rightarrow> 's \<Rightarrow> bool) \<Rightarrow> ('s \<Rightarrow> 's \<Rightarrow> bool) \<Rightarrow> (nat \<Rightarrow> 's) \<Rightarrow> bool" where
  "fair_run step progress run \<longleftrightarrow>
     (\<forall>n. run (Suc n) = run n \<or> step (run n) (run (Suc n)))
     \<and> (\<forall>n. \<exists>m\<ge>n. (\<exists>s. progress (run m) s) \<longrightarrow> progress (run m) (run (Suc m)))"

text \<open>From every state there is such a run: take a fair step whenever there is one.\<close>

lemma fair_run_exists:
  assumes "\<And>s s'. progress s s' \<Longrightarrow> step s s'"
  shows "\<exists>run. run 0 = s \<and> fair_run step progress run"
proof -
  define run where "run = rec_nat s (\<lambda>_ x. if \<exists>x'. progress x x' then SOME x'. progress x x' else x)"
  have next_run: "run (Suc n) = (if \<exists>x'. progress (run n) x' then SOME x'. progress (run n) x' else run n)" for n
    unfolding run_def nat.rec by (rule refl)
  have "progress (run n) (run (Suc n))" if "\<exists>x'. progress (run n) x'" for n
    unfolding next_run if_P [OF that] using that by (rule someI_ex)
  with next_run have "fair_run step progress run"
    unfolding fair_run_def using assms by (metis order_refl)
  moreover have "run 0 = s" by (simp add: run_def)
  ultimately show ?thesis by blast
qed

text \<open>Something pending is done at last when fair steps towards it are always possible.\<close>

locale fair_progress = step_preserved step inv
  for step :: "'s \<Rightarrow> 's \<Rightarrow> bool" and inv :: "'s \<Rightarrow> bool" +
  fixes progress :: "'s \<Rightarrow> 's \<Rightarrow> bool"
    and pending :: "'s \<Rightarrow> bool"
    and rank :: "'s \<Rightarrow> nat"
  assumes progress_enabled: "inv s \<Longrightarrow> pending s \<Longrightarrow> \<exists>s'. progress s s'"
    and progress_rank: "inv s \<Longrightarrow> pending s \<Longrightarrow> progress s s' \<Longrightarrow> rank s' < rank s"
    and step_rank: "inv s \<Longrightarrow> pending s \<Longrightarrow> step s s' \<Longrightarrow> rank s' \<le> rank s"
begin

lemma inv_run: "fair_run step progress run \<Longrightarrow> inv (run 0) \<Longrightarrow> inv (run n)"
  by (induction n) (use inv_step in \<open>auto simp: fair_run_def\<close>, metis)

lemma eventually_done:
  assumes "fair_run step progress run" "inv (run 0)"
  shows "\<exists>n. \<not> pending (run n)"
proof (rule ccontr)
  assume "\<nexists>n. \<not> pending (run n)"
  then have pending: "pending (run n)" for n by blast
  note inv = inv_run [OF assms]
  have "rank (run (Suc n)) \<le> rank (run n)" for n
    using assms(1) step_rank [OF inv pending] unfolding fair_run_def by (metis order_refl)
  then have le: "rank (run m) \<le> rank (run n)" if "n \<le> m" for n m
    using that by (rule lift_Suc_antimono_le)
  have "False" if "rank (run n) = k" for k n
    using that
  proof (induction k arbitrary: n rule: less_induct)
    case (less k)
    from assms(1) obtain m where "n \<le> m" "progress (run m) (run (Suc m))"
      using progress_enabled [OF inv pending] unfolding fair_run_def by metis
    with progress_rank [OF inv pending] le [of n m] less.prems have "rank (run (Suc m)) < k" by fastforce
    with less.IH show ?case by blast
  qed
  then show False by blast
qed

lemma first_done:
  assumes "fair_run step progress run" "inv (run 0)" "pending (run 0)"
  shows "\<exists>n. inv (run n) \<and> step (run n) (run (Suc n)) \<and> pending (run n) \<and> \<not> pending (run (Suc n))"
proof -
  from eventually_done [OF assms(1,2)] obtain n where n: "\<not> pending (run n)" "\<forall>m<n. pending (run m)"
    using exists_least_iff [of "\<lambda>n. \<not> pending (run n)"] by blast
  then obtain m where m: "n = Suc m" using assms(3) by (cases n) auto
  with n have "pending (run m)" "\<not> pending (run (Suc m))" by simp_all
  moreover from this have "step (run m) (run (Suc m))" using assms(1) unfolding fair_run_def by metis
  ultimately show ?thesis using inv_run [OF assms(1,2)] by blast
qed

end

end
