(* ===== verification/Circuit_Breaker.thy ===== *)
theory Circuit_Breaker imports Prelude begin

text \<open>
  \<^verbatim>\<open>src/resilience/circuit_breaker.cpp\<close>: the circuit breaker one worker keeps. The reading
  of the steady clock an operation makes is an argument of the operation, in nanoseconds;
  the counters are 32-bit words. The abstract automaton \<open>abs_breaker\<close> counts with natural
  numbers; the breaker is shown to simulate it, so its counters never wrap.
\<close>

section \<open>State and operations\<close>

datatype circuit_state = kClosed | kOpen | kHalfOpen

record circuit_breaker_config =
  failure_threshold :: "32 word"
  success_threshold :: "32 word"
  open_timeout :: int

definition default_breaker_config :: circuit_breaker_config where
  "default_breaker_config = \<lparr>failure_threshold = 5, success_threshold = 2, open_timeout = 30\<rparr>"

record circuit_breaker =
  breaker_config :: circuit_breaker_config
  breaker_state :: circuit_state
  consecutive_failures :: "32 word"
  consecutive_successes :: "32 word"
  open_start_time :: time_ns

definition new_breaker :: "circuit_breaker_config \<Rightarrow> circuit_breaker" where
  "new_breaker cfg = \<lparr>breaker_config = cfg, breaker_state = kClosed, consecutive_failures = 0,
     consecutive_successes = 0, open_start_time = 0\<rparr>"

definition transition_to_open :: "time_ns \<Rightarrow> circuit_breaker \<Rightarrow> circuit_breaker" where
  [step_defs]: "transition_to_open now b = b\<lparr>breaker_state := kOpen, open_start_time := now,
     consecutive_failures := 0, consecutive_successes := 0\<rparr>"

definition transition_to_half_open :: "circuit_breaker \<Rightarrow> circuit_breaker" where
  [step_defs]: "transition_to_half_open b = b\<lparr>breaker_state := kHalfOpen,
     consecutive_failures := 0, consecutive_successes := 0\<rparr>"

definition transition_to_closed :: "circuit_breaker \<Rightarrow> circuit_breaker" where
  [step_defs]: "transition_to_closed b = b\<lparr>breaker_state := kClosed,
     consecutive_failures := 0, consecutive_successes := 0\<rparr>"

definition reset_breaker :: "circuit_breaker \<Rightarrow> circuit_breaker" where
  [step_defs]: "reset_breaker b = b\<lparr>breaker_state := kClosed,
     consecutive_failures := 0, consecutive_successes := 0\<rparr>"

text \<open>\<^verbatim>\<open>duration_cast\<close> to seconds truncates toward zero.\<close>

definition allow_request :: "time_ns \<Rightarrow> circuit_breaker \<Rightarrow> bool \<times> circuit_breaker" where
  [step_defs]: "allow_request now b =
     (if breaker_state b = kClosed then (True, b)
      else if breaker_state b = kOpen then
        (let elapsed = cast_ticks (now - open_start_time b) 1000000000
         in if elapsed \<ge> open_timeout (breaker_config b) then (True, transition_to_half_open b)
            else (False, b))
      else (True, b))"

definition record_success :: "circuit_breaker \<Rightarrow> circuit_breaker" where
  [step_defs]: "record_success b =
     (if breaker_state b = kClosed then b\<lparr>consecutive_failures := 0\<rparr>
      else if breaker_state b = kHalfOpen then
        (let b1 = b\<lparr>consecutive_successes := consecutive_successes b + 1\<rparr>
         in if consecutive_successes b1 \<ge> success_threshold (breaker_config b1)
            then transition_to_closed b1 else b1)
      else b)"

definition record_failure :: "time_ns \<Rightarrow> circuit_breaker \<Rightarrow> circuit_breaker" where
  [step_defs]: "record_failure now b =
     (if breaker_state b = kOpen then b
      else if breaker_state b = kClosed then
        (let b1 = b\<lparr>consecutive_failures := consecutive_failures b + 1\<rparr>
         in if consecutive_failures b1 \<ge> failure_threshold (breaker_config b1)
            then transition_to_open now b1 else b1)
      else if breaker_state b = kHalfOpen then transition_to_open now b
      else b)"

datatype breaker_op =
  AllowRequest time_ns | RecordSuccess | RecordFailure time_ns | ResetBreaker

fun breaker_step :: "circuit_breaker \<Rightarrow> breaker_op \<Rightarrow> circuit_breaker" where
  "breaker_step b (AllowRequest now) = snd (allow_request now b)"
| "breaker_step b RecordSuccess = record_success b"
| "breaker_step b (RecordFailure now) = record_failure now b"
| "breaker_step b ResetBreaker = reset_breaker b"

text \<open>The answers of the requests among a sequence of operations.\<close>

fun breaker_answers :: "circuit_breaker \<Rightarrow> breaker_op list \<Rightarrow> bool list" where
  "breaker_answers b [] = []"
| "breaker_answers b (AllowRequest now # ops) =
     fst (allow_request now b) # breaker_answers (snd (allow_request now b)) ops"
| "breaker_answers b (op # ops) = breaker_answers (breaker_step b op) ops"

section \<open>The abstract automaton\<close>

text \<open>
  Closed with a number of failures in a row, open since an instant, or half open with a
  number of successes in a row.
\<close>

datatype abs_breaker = AClosed nat | AOpen time_ns | AHalfOpen nat

fun abs_breaker_step :: "circuit_breaker_config \<Rightarrow> abs_breaker \<Rightarrow> breaker_op \<Rightarrow> abs_breaker" where
  "abs_breaker_step cfg (AClosed n) (RecordFailure now) =
     (if Suc n \<ge> unat (failure_threshold cfg) then AOpen now else AClosed (Suc n))"
| "abs_breaker_step cfg (AClosed n) (AllowRequest now) = AClosed n"
| "abs_breaker_step cfg (AClosed n) RecordSuccess = AClosed 0"
| "abs_breaker_step cfg (AClosed n) ResetBreaker = AClosed 0"
| "abs_breaker_step cfg (AOpen t) (AllowRequest now) =
     (if open_timeout cfg * 1000000000 \<le> now - t then AHalfOpen 0 else AOpen t)"
| "abs_breaker_step cfg (AOpen t) ResetBreaker = AClosed 0"
| "abs_breaker_step cfg (AOpen t) _ = AOpen t"
| "abs_breaker_step cfg (AHalfOpen n) RecordSuccess =
     (if Suc n \<ge> unat (success_threshold cfg) then AClosed 0 else AHalfOpen (Suc n))"
| "abs_breaker_step cfg (AHalfOpen n) (RecordFailure now) = AOpen now"
| "abs_breaker_step cfg (AHalfOpen n) ResetBreaker = AClosed 0"
| "abs_breaker_step cfg (AHalfOpen n) (AllowRequest now) = AHalfOpen n"

definition abs_of_breaker :: "circuit_breaker \<Rightarrow> abs_breaker" where
  "abs_of_breaker b =
     (case breaker_state b of
        kClosed \<Rightarrow> AClosed (unat (consecutive_failures b))
      | kOpen \<Rightarrow> AOpen (open_start_time b)
      | kHalfOpen \<Rightarrow> AHalfOpen (unat (consecutive_successes b)))"

text \<open>
  The invariant: a counter is below its threshold (or zero, when the threshold is zero), and
  only the counter of the current state can be non-zero.
\<close>

definition below_threshold :: "32 word \<Rightarrow> 32 word \<Rightarrow> bool" where
  "below_threshold w t \<longleftrightarrow> unat w < max 1 (unat t)"

definition breaker_ok :: "circuit_breaker \<Rightarrow> bool" where
  [inv_defs]: "breaker_ok b \<longleftrightarrow>
     (case breaker_state b of
        kClosed \<Rightarrow> below_threshold (consecutive_failures b) (failure_threshold (breaker_config b))
                    \<and> consecutive_successes b = 0
      | kOpen \<Rightarrow> consecutive_failures b = 0 \<and> consecutive_successes b = 0
      | kHalfOpen \<Rightarrow> consecutive_failures b = 0
          \<and> below_threshold (consecutive_successes b) (success_threshold (breaker_config b)))"

definition breaker_inv :: "circuit_breaker_config \<Rightarrow> circuit_breaker \<Rightarrow> bool" where
  "breaker_inv cfg b \<longleftrightarrow> breaker_config b = cfg \<and> breaker_ok b"

lemma below_0 [simp]: "below_threshold 0 t"
  by (simp add: below_threshold_def)

lemma below_next: "w + 1 < t \<Longrightarrow> below_threshold (w + 1) t"
  by (simp add: below_threshold_def word_less_nat_alt)

lemma below_incr:
  assumes "below_threshold w t"
  shows "unat (w + 1) = Suc (unat w)"
proof -
  have "unat t < 2 ^ LENGTH(32)" by (rule unsigned_less)
  with assms have "Suc (unat w) < 2 ^ LENGTH(32)" by (simp add: below_threshold_def)
  then have "unat (w + 1) = unat w + unat (1 :: 32 word)"
    by (intro unat_add_lem [THEN iffD1]) simp
  then show ?thesis by simp
qed

lemma below_reached: "below_threshold w t \<Longrightarrow> t \<le> w + 1 \<longleftrightarrow> unat t \<le> Suc (unat w)"
  by (simp add: word_le_nat_alt below_incr)

lemma elapsed_reached:
  "0 < n \<Longrightarrow> n \<le> cast_ticks a 1000000000 \<longleftrightarrow> n * 1000000000 \<le> a"
  by (rule cast_ticks_ge_iff) simp_all

lemma breaker_config_step [simp]: "breaker_config (breaker_step b op) = breaker_config b"
  by (cases op) (simp_all add: step_defs Let_def)

lemma breaker_ok_step: "breaker_ok b \<Longrightarrow> breaker_ok (breaker_step b op)"
  by (cases op; cases "breaker_state b")
     (auto simp: step_defs inv_defs Let_def not_le below_next)

lemma abs_of_breaker_step:
  assumes "breaker_ok b" "0 < open_timeout (breaker_config b)"
  shows "abs_of_breaker (breaker_step b op) = abs_breaker_step (breaker_config b) (abs_of_breaker b) op"
  using assms
  by (cases op; cases "breaker_state b")
     (auto simp: step_defs inv_defs Let_def below_incr below_reached
           abs_of_breaker_def elapsed_reached)

lemma new_breaker_ok: "breaker_inv cfg (new_breaker cfg)"
  by (simp add: breaker_inv_def breaker_ok_def new_breaker_def)

interpretation breaker: machine breaker_step "breaker_inv cfg" for cfg
  by unfold_locales (simp add: breaker_inv_def breaker_ok_step)

interpretation breaker_spec:
  simulation breaker_step "\<lambda>b. breaker_inv cfg b \<and> 0 < open_timeout cfg" abs_of_breaker id
    "abs_breaker_step cfg" for cfg
  by unfold_locales (auto simp: breaker_inv_def breaker_ok_step abs_of_breaker_step)

text \<open>The legal edges of the state diagram.\<close>

inductive state_edge :: "circuit_state \<Rightarrow> circuit_state \<Rightarrow> bool" where
  stay: "state_edge s s"
| trip: "state_edge kClosed kOpen"
| probe: "state_edge kOpen kHalfOpen"
| recover: "state_edge kHalfOpen kClosed"
| relapse: "state_edge kHalfOpen kOpen"

inductive_simps edge_from_closed: "state_edge kClosed s"
inductive_simps edge_from_open: "state_edge kOpen s"
inductive_simps edge_from_half_open: "state_edge kHalfOpen s"

lemma step_edge: "op \<noteq> ResetBreaker \<Longrightarrow> state_edge (breaker_state b) (breaker_state (breaker_step b op))"
  by (cases op; cases "breaker_state b")
     (auto simp: step_defs Let_def intro: state_edge.intros)

section \<open>What the breaker promises\<close>

lemma breaker_refines_aux:
  assumes "0 < open_timeout cfg"
  shows "abs_of_breaker (foldl breaker_step (new_breaker cfg) ops) = foldl (abs_breaker_step cfg) (AClosed 0) ops"
proof -
  have "abs_of_breaker (new_breaker cfg) = AClosed 0" by (simp add: abs_of_breaker_def new_breaker_def)
  with breaker_spec.abs_run [of cfg "new_breaker cfg" ops] assms new_breaker_ok show ?thesis by simp
qed

text \<open>
  C11 (refinement): after any sequence of operations, at any clock readings, the breaker is
  in the state the abstract automaton reaches on that sequence: the 32-bit counters count
  without wrapping, whatever the thresholds.
\<close>

theorem breaker_refines:
  assumes "0 < open_timeout cfg"
  shows "abs_of_breaker (foldl breaker_step (new_breaker cfg) ops) =
    foldl (abs_breaker_step cfg) (AClosed 0) ops"
  using assms by (rule breaker_refines_aux)

theorem breaker_refines_witness:
  "abs_of_breaker (foldl breaker_step (new_breaker default_breaker_config)
     [RecordFailure 1, RecordFailure 2, RecordSuccess, RecordFailure 3]) = AClosed 1"
  using breaker_refines [of default_breaker_config "[RecordFailure 1, RecordFailure 2, RecordSuccess, RecordFailure 3]"]
  by (simp add: default_breaker_config_def)

lemma failures_from_closed:
  assumes "breaker_inv cfg b" "breaker_state b = kClosed"
  shows "breaker_state (foldl breaker_step b (map RecordFailure ts)) =
     (if unat (consecutive_failures b) + length ts < max 1 (unat (failure_threshold cfg))
      then kClosed else kOpen)"
  using assms
proof (induction ts arbitrary: b)
  case Nil
  then show ?case by (auto simp: breaker_inv_def breaker_ok_def below_threshold_def)
next
  case (Cons now ts)
  let ?b = "breaker_step b (RecordFailure now)"
  have inv: "breaker_inv cfg ?b" by (rule breaker.inv_step [OF Cons.prems(1)])
  have below: "below_threshold (consecutive_failures b) (failure_threshold cfg)"
    and cfg: "breaker_config b = cfg"
    using Cons.prems by (auto simp: breaker_inv_def breaker_ok_def)
  show ?case
  proof (cases "unat (failure_threshold cfg) \<le> Suc (unat (consecutive_failures b))")
    case True
    then have o: "breaker_state ?b = kOpen"
      using Cons.prems(2) below cfg by (simp add: step_defs Let_def below_reached)
    then have "foldl breaker_step ?b (map RecordFailure ts) = ?b"
      by (induction ts) (simp_all add: record_failure_def)
    with True o show ?thesis by simp
  next
    case False
    then have "breaker_state ?b = kClosed" "unat (consecutive_failures ?b) = Suc (unat (consecutive_failures b))"
      using Cons.prems(2) below cfg by (simp_all add: step_defs Let_def below_reached below_incr)
    with Cons.IH [OF inv] show ?thesis by simp
  qed
qed

text \<open>
  A closed breaker that has counted \<open>k\<close> failures opens on exactly the
  failure that makes them the threshold, and stays open under the failures after it.
\<close>

theorem breaker_opens_at_threshold:
  assumes "breaker_inv cfg b" "breaker_state b = kClosed"
  shows "breaker_state (foldl breaker_step b (map RecordFailure ts)) =
     (if unat (consecutive_failures b) + length ts < max 1 (unat (failure_threshold cfg))
      then kClosed else kOpen)"
  using assms by (rule failures_from_closed)

theorem breaker_opens_at_threshold_witness:
  "breaker_state (foldl breaker_step (new_breaker default_breaker_config)
     (map RecordFailure [1, 2, 3, 4, 5])) = kOpen"
  using breaker_opens_at_threshold [OF new_breaker_ok, of default_breaker_config "[1, 2, 3, 4, 5]"]
  by (simp add: new_breaker_def default_breaker_config_def)

lemma allow_open:
  assumes "breaker_inv cfg b" "breaker_state b = kOpen" "0 < open_timeout cfg"
  shows "allow_request now b =
     (if open_timeout cfg * 1000000000 \<le> now - open_start_time b
      then (True, b\<lparr>breaker_state := kHalfOpen\<rparr>) else (False, b))"
  using assms by (simp add: step_defs Let_def breaker_inv_def breaker_ok_def elapsed_reached)

fun within_window :: "circuit_breaker \<Rightarrow> breaker_op \<Rightarrow> bool" where
  "within_window b (AllowRequest now) \<longleftrightarrow>
     now - open_start_time b < open_timeout (breaker_config b) * 1000000000"
| "within_window b ResetBreaker \<longleftrightarrow> False"
| "within_window b _ \<longleftrightarrow> True"

text \<open>
  While an open breaker's timeout has not elapsed, every request is refused
  and nothing changes it, late successes and failures of requests in flight included.
\<close>

theorem open_window_rejects:
  assumes "breaker_inv cfg b" "breaker_state b = kOpen" "0 < open_timeout cfg"
    and "\<forall>op\<in>set ops. within_window b op"
  shows "foldl breaker_step b ops = b \<and> True \<notin> set (breaker_answers b ops)"
  using assms(4)
proof (induction ops)
  case (Cons op ops)
  from Cons.prems have ops: "within_window b op" "\<forall>op\<in>set ops. within_window b op" by simp_all
  have cfg: "breaker_config b = cfg" using assms(1) by (simp add: breaker_inv_def)
  have IH: "foldl breaker_step b ops = b" "True \<notin> set (breaker_answers b ops)"
    using Cons.IH [OF ops(2)] by simp_all
  show ?case
  proof (cases op)
    case (AllowRequest now)
    with ops(1) cfg allow_open [OF assms(1-3), of now] have "allow_request now b = (False, b)" by simp
    with AllowRequest IH show ?thesis by simp
  qed (use ops(1) IH assms(2) in \<open>simp_all add: record_success_def record_failure_def\<close>)
qed simp

text \<open>A breaker that has just opened, five nanoseconds after the epoch of the clock.\<close>

definition demo_open :: circuit_breaker where
  "demo_open = (new_breaker default_breaker_config)\<lparr>breaker_state := kOpen, open_start_time := 5\<rparr>"

lemma demo_open_inv: "breaker_inv default_breaker_config demo_open"
  by (simp add: demo_open_def breaker_inv_def breaker_ok_def new_breaker_def)

theorem open_window_rejects_witness:
  "breaker_answers demo_open [AllowRequest 6, RecordSuccess, AllowRequest 30000000004] = [False, False]"
proof -
  have "True \<notin> set (breaker_answers demo_open [AllowRequest 6, RecordSuccess, AllowRequest 30000000004])"
    by (rule open_window_rejects [THEN conjunct2, OF demo_open_inv])
       (simp_all add: demo_open_def new_breaker_def default_breaker_config_def)
  then show ?thesis by simp
qed

lemma half_open_successes:
  assumes "breaker_inv cfg b" "breaker_state b = kHalfOpen"
  shows "breaker_state (foldl breaker_step b (replicate n RecordSuccess)) =
     (if unat (consecutive_successes b) + n < max 1 (unat (success_threshold cfg))
      then kHalfOpen else kClosed)"
  using assms
proof (induction n arbitrary: b)
  case 0
  then show ?case by (auto simp: breaker_inv_def breaker_ok_def below_threshold_def)
next
  case (Suc n)
  let ?b = "breaker_step b RecordSuccess"
  have inv: "breaker_inv cfg ?b" by (rule breaker.inv_step [OF Suc.prems(1)])
  have below: "below_threshold (consecutive_successes b) (success_threshold cfg)"
    and cfg: "breaker_config b = cfg"
    using Suc.prems by (auto simp: breaker_inv_def breaker_ok_def)
  show ?case
  proof (cases "unat (success_threshold cfg) \<le> Suc (unat (consecutive_successes b))")
    case True
    then have c: "breaker_state ?b = kClosed"
      using Suc.prems(2) below cfg by (simp add: step_defs Let_def below_reached)
    have "breaker_state (foldl breaker_step s (replicate n RecordSuccess)) = kClosed"
      if "breaker_state s = kClosed" for s
      using that by (induction n arbitrary: s) (simp_all add: record_success_def)
    with True c show ?thesis by simp
  next
    case False
    then have "breaker_state ?b = kHalfOpen" "unat (consecutive_successes ?b) = Suc (unat (consecutive_successes b))"
      using Suc.prems(2) below cfg by (simp_all add: step_defs Let_def below_reached below_incr)
    with Suc.IH [OF inv] show ?thesis by simp
  qed
qed

text \<open>
  C34 (liveness): an open breaker admits the first request after its timeout and from there
  closes on exactly the configured number of successes in a row.
\<close>

theorem breaker_recovers:
  assumes "breaker_inv cfg b" "breaker_state b = kOpen" "0 < open_timeout cfg"
    and "open_start_time b + open_timeout cfg * 1000000000 \<le> now"
  shows "fst (allow_request now b)
    \<and> breaker_state (foldl breaker_step b (AllowRequest now # replicate n RecordSuccess)) =
        (if n < max 1 (unat (success_threshold cfg)) then kHalfOpen else kClosed)"
proof -
  let ?b = "breaker_step b (AllowRequest now)"
  from allow_open [OF assms(1-3), of now] assms(4)
  have a: "allow_request now b = (True, b\<lparr>breaker_state := kHalfOpen\<rparr>)" by simp
  have "consecutive_successes b = 0" using assms(1,2) by (simp add: breaker_inv_def breaker_ok_def)
  with a half_open_successes [OF breaker.inv_step [OF assms(1), of "AllowRequest now"], of n]
  show ?thesis by simp
qed

theorem breaker_recovers_witness:
  "breaker_state (foldl breaker_step demo_open (AllowRequest 30000000005 # replicate 2 RecordSuccess)) = kClosed"
proof -
  have "breaker_state (foldl breaker_step demo_open (AllowRequest 30000000005 # replicate 2 RecordSuccess)) =
      (if 2 < max 1 (unat (success_threshold default_breaker_config)) then kHalfOpen else kClosed)"
    by (rule breaker_recovers [THEN conjunct2, OF demo_open_inv])
       (simp_all add: demo_open_def new_breaker_def default_breaker_config_def)
  then show ?thesis by (simp add: default_breaker_config_def)
qed

text \<open>
  Half open is not a limited probe: any number of requests is admitted before
  the outcome of one is recorded.
\<close>

theorem half_open_admits_all:
  assumes "breaker_state b = kHalfOpen"
  shows "breaker_answers b (map AllowRequest nows) = replicate (length nows) True
    \<and> foldl breaker_step b (map AllowRequest nows) = b"
  using assms by (induction nows) (simp_all add: allow_request_def)

theorem half_open_admits_all_witness:
  "breaker_answers (transition_to_half_open demo_open) (map AllowRequest [7, 8, 9]) = [True, True, True]"
  using half_open_admits_all [of "transition_to_half_open demo_open" "[7, 8, 9]"]
  by (simp add: transition_to_half_open_def)

end
