(* ===== verification/Float64.thy ===== *)
theory Float64 imports Complex_Main begin

text \<open>
  Double-precision arithmetic. A C++ \<^verbatim>\<open>double\<close> expression is modelled as the real operation
  followed by \<open>fl64\<close>, rounding to 53 significant bits, to nearest, ties to even. The
  exponent is unbounded: the values the program computes with doubles are zero or between
  \<open>10 ^ -9\<close> and \<open>2 ^ 96\<close>, far from underflow and overflow. What the clients use of rounding
  is the locale \<open>rounding\<close>, which \<open>fl64\<close> satisfies.
\<close>

section \<open>The contract\<close>

locale rounding =
  fixes fl :: "real \<Rightarrow> real" and u :: real
  assumes fl_mono: "x \<le> y \<Longrightarrow> fl x \<le> fl y"
    and fl_nat: "n \<le> 2 ^ 53 \<Longrightarrow> fl (of_nat n) = of_nat n"
    and fl_le: "0 \<le> x \<Longrightarrow> fl x \<le> x + u * x"
    and u_nonneg: "0 \<le> u"
begin

lemma fl_0: "fl 0 = 0"
  using fl_nat [of 0] by simp

lemma fl_1: "fl 1 = 1"
  using fl_nat [of 1] by simp

lemma fl_nonneg: "0 \<le> x \<Longrightarrow> 0 \<le> fl x"
  using fl_mono [of 0 x] by (simp add: fl_0)

lemma fl_ge_1: "1 \<le> x \<Longrightarrow> 1 \<le> fl x"
  using fl_mono [of 1 x] by (simp add: fl_1)

lemma fl_le_nat: "x \<le> of_nat n \<Longrightarrow> n \<le> 2 ^ 53 \<Longrightarrow> fl x \<le> of_nat n"
  using fl_mono [of x "of_nat n"] by (simp add: fl_nat)

lemma fl_add_error: "0 \<le> x \<Longrightarrow> x \<le> b \<Longrightarrow> fl x \<le> x + u * b"
  using fl_le [of x] mult_left_mono [of x b u] u_nonneg by linarith

end

section \<open>Rounding to 53 bits\<close>

definition binade_measure :: "real \<Rightarrow> nat" where
  "binade_measure x = (if 1 \<le> x then nat \<lfloor>x\<rfloor> else nat \<lceil>1 / x\<rceil>)"

lemma binade_measure_halve: "2 \<le> x \<Longrightarrow> binade_measure (x / 2) < binade_measure x"
  by (simp add: binade_measure_def) linarith

lemma binade_measure_double:
  assumes "0 < x" "x < 1"
  shows "binade_measure (x * 2) < binade_measure x"
proof (cases "1 \<le> x * 2")
  case True
  with assms have "\<lfloor>x * 2\<rfloor> = 1" by linarith
  moreover have "1 < \<lceil>1 / x\<rceil>" using assms by simp
  ultimately show ?thesis using True assms by (simp add: binade_measure_def)
next
  case False
  have "1 < 1 / (x * 2)" using False assms by simp
  moreover have "1 / x = 2 * (1 / (x * 2))" by simp
  ultimately have "\<lceil>1 / (x * 2)\<rceil> < \<lceil>1 / x\<rceil>" by linarith
  moreover have "0 < \<lceil>1 / x\<rceil>" using assms by simp
  ultimately show ?thesis using False assms by (simp add: binade_measure_def)
qed

text \<open>The exponent of a positive real: \<open>2 powi binade x \<le> x < 2 powi (binade x + 1)\<close>.\<close>

function binade :: "real \<Rightarrow> int" where
  "binade x =
     (if x \<le> 0 then 0
      else if 2 \<le> x then binade (x / 2) + 1
      else if x < 1 then binade (x * 2) - 1
      else 0)"
  by pat_completeness auto

termination
  by (relation "measure binade_measure")
     (simp_all add: binade_measure_halve binade_measure_double)

declare binade.simps [simp del]

lemma binade_bounds:
  "0 < x \<Longrightarrow> 2 powi binade x \<le> x \<and> x < 2 powi (binade x + 1)"
proof (induction x rule: binade.induct)
  case (1 x)
  consider "2 \<le> x" | "x < 1" | "1 \<le> x" "x < 2" by linarith
  then show ?case
  proof cases
    case 1
    then have b: "binade x = binade (x / 2) + 1" by (subst binade.simps) simp
    from 1 "1.IH"(1) "1.prems" have "2 powi binade (x / 2) \<le> x / 2 \<and> x / 2 < 2 powi (binade (x / 2) + 1)"
      by simp
    then show ?thesis by (simp add: b power_int_add)
  next
    case 2
    then have b: "binade (x * 2) = binade x + 1" using "1.prems" by (subst (2) binade.simps) simp
    from 2 "1.IH"(2) "1.prems" have "2 powi binade (x * 2) \<le> x * 2 \<and> x * 2 < 2 powi (binade (x * 2) + 1)"
      by simp
    then show ?thesis by (simp add: b power_int_add)
  next
    case 3
    then have "binade x = 0" by (subst binade.simps) simp
    with 3 show ?thesis by simp
  qed
qed

lemma binade_mono:
  assumes "0 < x" "x \<le> y"
  shows "binade x \<le> binade y"
proof (rule ccontr)
  assume "\<not> binade x \<le> binade y"
  then have "(2 :: real) powi (binade y + 1) \<le> 2 powi binade x"
    by (intro power_int_increasing) simp_all
  with binade_bounds [of x] binade_bounds [of y] assms show False by simp
qed

text \<open>The nearest integer, ties to even.\<close>

definition round_even :: "real \<Rightarrow> int" where
  "round_even y =
     (let n = \<lfloor>y\<rfloor>; d = y - of_int n
      in if d < 1 / 2 then n else if 1 / 2 < d then n + 1 else if even n then n else n + 1)"

lemma round_even_int [simp]: "round_even (of_int n) = n"
  by (simp add: round_even_def)

lemma round_even_error: "\<bar>of_int (round_even y) - y\<bar> \<le> 1 / 2"
  using floor_correct [of y] by (auto simp: round_even_def Let_def abs_le_iff)

lemma round_even_mono: "x \<le> y \<Longrightarrow> round_even x \<le> round_even y"
proof -
  assume xy: "x \<le> y"
  then consider "\<lfloor>x\<rfloor> = \<lfloor>y\<rfloor>" | "\<lfloor>x\<rfloor> < \<lfloor>y\<rfloor>" using floor_mono [OF xy] by linarith
  then show ?thesis
  proof cases
    case 1
    with xy show ?thesis by (auto simp: round_even_def Let_def)
  next
    case 2
    have "round_even x \<le> \<lfloor>x\<rfloor> + 1" "\<lfloor>y\<rfloor> \<le> round_even y" by (simp_all add: round_even_def Let_def)
    with 2 show ?thesis by linarith
  qed
qed

text \<open>The spacing of the doubles around a positive real, and rounding to them.\<close>

definition ulp64 :: "real \<Rightarrow> real" where
  "ulp64 x = 2 powi (binade x - 52)"

definition fl64 :: "real \<Rightarrow> real" where
  "fl64 x =
     (if x = 0 then 0
      else if 0 < x then of_int (round_even (x / ulp64 x)) * ulp64 x
      else - (of_int (round_even (- x / ulp64 (- x))) * ulp64 (- x)))"

lemma ulp64_pos [simp]: "0 < ulp64 x"
  by (simp add: ulp64_def)

lemma ulp64_neq_0 [simp]: "ulp64 x \<noteq> 0"
  using ulp64_pos [of x] by linarith

lemma ulp64_scale: "ulp64 x * 2 ^ 52 = 2 powi binade x" "ulp64 x * 2 ^ 53 = 2 powi (binade x + 1)"
proof -
  have "(2 :: real) powi (binade x - 52 + 52) = 2 powi (binade x - 52) * 2 ^ 52"
    by (subst power_int_add) simp_all
  then show *: "ulp64 x * 2 ^ 52 = 2 powi binade x" by (simp add: ulp64_def)
  have "(2 :: real) powi (binade x + 1) = 2 powi binade x * 2"
    by (subst power_int_add) simp_all
  with * show "ulp64 x * 2 ^ 53 = 2 powi (binade x + 1)" by simp
qed

lemma fl64_pos: "0 < x \<Longrightarrow> fl64 x = of_int (round_even (x / ulp64 x)) * ulp64 x"
  by (simp add: fl64_def)

lemma fl64_minus: "fl64 (- x) = - fl64 x"
  by (simp add: fl64_def)

lemma significand_bounds:
  assumes "0 < x"
  shows "2 ^ 52 \<le> round_even (x / ulp64 x) \<and> round_even (x / ulp64 x) \<le> 2 ^ 53"
proof -
  have lo: "2 ^ 52 \<le> x / ulp64 x" "x / ulp64 x \<le> 2 ^ 53"
    using binade_bounds [OF assms] ulp64_scale [of x]
    by (simp_all add: pos_le_divide_eq pos_divide_le_eq mult.commute)
  have "round_even (of_int (2 ^ 52)) \<le> round_even (x / ulp64 x)"
    "round_even (x / ulp64 x) \<le> round_even (of_int (2 ^ 53))"
    using lo by (auto intro!: round_even_mono)
  then show ?thesis unfolding round_even_int by simp
qed

lemma fl64_binade:
  assumes "0 < x"
  shows "2 powi binade x \<le> fl64 x \<and> fl64 x \<le> 2 powi (binade x + 1)"
proof -
  have "of_int (2 ^ 52) \<le> (of_int (round_even (x / ulp64 x)) :: real)"
    "(of_int (round_even (x / ulp64 x)) :: real) \<le> of_int (2 ^ 53)"
    using significand_bounds [OF assms] by (simp_all only: of_int_le_iff)
  then have "2 ^ 52 * ulp64 x \<le> of_int (round_even (x / ulp64 x)) * ulp64 x"
    "of_int (round_even (x / ulp64 x)) * ulp64 x \<le> 2 ^ 53 * ulp64 x"
    by (auto intro!: mult_right_mono simp: less_imp_le)
  then show ?thesis
    using assms by (simp add: fl64_pos mult.commute flip: ulp64_scale)
qed

lemma fl64_mono_pos:
  assumes "0 < x" "x \<le> y"
  shows "fl64 x \<le> fl64 y"
proof (cases "binade x = binade y")
  case True
  then have "ulp64 x = ulp64 y" by (simp add: ulp64_def)
  moreover have "round_even (x / ulp64 y) \<le> round_even (y / ulp64 y)"
    using assms by (intro round_even_mono divide_right_mono) (simp_all add: less_imp_le)
  ultimately show ?thesis
    using assms by (simp add: fl64_pos)
next
  case False
  with binade_mono [OF assms] have "(2 :: real) powi (binade x + 1) \<le> 2 powi binade y"
    by (intro power_int_increasing) simp_all
  with fl64_binade [of x] fl64_binade [of y] assms show ?thesis by linarith
qed

lemma fl64_mono:
  assumes "x \<le> y"
  shows "fl64 x \<le> fl64 y"
proof -
  have zero: "fl64 0 = 0" by (simp add: fl64_def)
  have sign: "0 \<le> fl64 z" if "0 \<le> z" for z
  proof (cases "z = 0")
    case False
    have "(0 :: real) \<le> 2 powi binade z" by simp
    with False that fl64_binade [of z] show ?thesis by linarith
  qed (simp add: zero)
  consider "0 < x" | "x \<le> 0" "0 \<le> y" | "y < 0" by linarith
  then show ?thesis
  proof cases
    case 1
    then show ?thesis using assms by (rule fl64_mono_pos)
  next
    case 2
    then show ?thesis using sign [of y] sign [of "- x"] by (simp add: fl64_minus)
  next
    case 3
    then show ?thesis using assms fl64_mono_pos [of "- y" "- x"] by (simp add: fl64_minus)
  qed
qed

lemma fl64_exact: "0 < x \<Longrightarrow> x = of_int k * ulp64 x \<Longrightarrow> fl64 x = x"
proof -
  assume x: "0 < x" "x = of_int k * ulp64 x"
  have "x / ulp64 x = of_int k"
    using x(2) ulp64_pos [of x] by (simp add: divide_eq_eq)
  with x show ?thesis by (simp add: fl64_pos)
qed

lemma fl64_error:
  assumes "0 \<le> x"
  shows "fl64 x \<le> x + x / 2 ^ 53"
proof (cases "x = 0")
  case False
  with assms have x: "0 < x" by simp
  have "of_int (round_even (x / ulp64 x)) \<le> x / ulp64 x + 1 / 2"
    using round_even_error [of "x / ulp64 x"] by linarith
  then have "of_int (round_even (x / ulp64 x)) * ulp64 x \<le> (x / ulp64 x + 1 / 2) * ulp64 x"
    by (rule mult_right_mono) (simp add: less_imp_le)
  also have "\<dots> = x + ulp64 x / 2" using ulp64_pos [of x] by (simp add: algebra_simps)
  also have "ulp64 x \<le> x / 2 ^ 52"
    using binade_bounds [OF x] ulp64_scale(1) [of x] by (simp add: pos_le_divide_eq)
  then have "x + ulp64 x / 2 \<le> x + x / 2 ^ 53" by simp
  finally show ?thesis using x by (simp add: fl64_pos)
qed (simp add: fl64_def)

lemma binade_le: "0 < x \<Longrightarrow> x < 2 powi (n + 1) \<Longrightarrow> binade x \<le> n"
proof (rule ccontr)
  assume x: "0 < x" "x < 2 powi (n + 1)" and "\<not> binade x \<le> n"
  then have "(2 :: real) powi (n + 1) \<le> 2 powi binade x"
    by (intro power_int_increasing) simp_all
  with x binade_bounds [of x] show False by simp
qed

lemma fl64_multiple:
  assumes "0 < n" "binade (of_nat n) \<le> 52"
  shows "fl64 (of_nat n) = of_nat n"
proof -
  let ?x = "of_nat n :: real"
  let ?k = "int n * 2 ^ nat (52 - binade ?x)"
  have "(2 :: real) powi (52 - binade ?x) * 2 powi (binade ?x - 52) = 1"
    by (simp flip: power_int_add)
  moreover have "(2 :: real) powi (52 - binade ?x) = 2 ^ nat (52 - binade ?x)"
    using assms(2) by (simp add: power_int_def)
  ultimately have "of_int ?k * ulp64 ?x = ?x" by (simp add: ulp64_def)
  then show ?thesis using assms(1) fl64_exact [of ?x ?k] by simp
qed

lemma fl64_nat:
  assumes "n \<le> 2 ^ 53"
  shows "fl64 (of_nat n) = of_nat n"
proof -
  consider "n = 0" | "0 < n" "n < 2 ^ 53" | "n = 2 ^ 53" using assms by linarith
  then show ?thesis
  proof cases
    case 1
    then show ?thesis by (simp add: fl64_def)
  next
    case 2
    have "real n < 2 ^ 53" using 2 by (metis of_nat_less_iff of_nat_numeral of_nat_power)
    then have "binade (of_nat n) \<le> 52" using 2 by (intro binade_le) simp_all
    with 2 show ?thesis by (simp add: fl64_multiple)
  next
    case 3
    let ?x = "(2 :: real) ^ 53"
    have "binade ?x = 53"
    proof (rule antisym)
      show "binade ?x \<le> 53" by (rule binade_le) simp_all
      show "53 \<le> binade ?x"
      proof (rule ccontr)
        assume "\<not> 53 \<le> binade ?x"
        then have "(2 :: real) powi (binade ?x + 1) \<le> 2 powi 53"
          by (intro power_int_increasing) simp_all
        with binade_bounds [of ?x] show False by simp
      qed
    qed
    then have "?x = of_int (2 ^ 52) * ulp64 ?x" by (simp add: ulp64_def)
    then have "fl64 ?x = ?x" by (intro fl64_exact [of ?x "2 ^ 52"]) simp_all
    with 3 show ?thesis by simp
  qed
qed

definition unit_roundoff :: real where
  "unit_roundoff = 1 / 2 ^ 53"

lemma fl64_relative: "0 \<le> x \<Longrightarrow> fl64 x \<le> x + unit_roundoff * x"
  using fl64_error [of x] by (simp add: unit_roundoff_def)

interpretation double: rounding fl64 unit_roundoff
proof unfold_locales
  show "0 \<le> unit_roundoff" by (simp add: unit_roundoff_def)
qed (simp_all add: fl64_mono fl64_nat fl64_relative)

end
