(* ===== verification/Rate_Limiter.thy ===== *)
theory Rate_Limiter imports Prelude Float64 "HOL-Library.Word" begin

text \<open>
  \<^verbatim>\<open>src/resilience/rate_limiter.cpp\<close>: the token bucket one worker keeps. Every
  double-precision operation is the real operation rounded by \<open>fl64\<close>; the reading of the
  steady clock is an argument, in nanoseconds.
\<close>

section \<open>State and operations\<close>

datatype rate_limit_decision = kAllow | kReject

record rate_limit_config =
  requests_per_second :: "32 word"
  burst_size :: "32 word"

definition default_limit_config :: rate_limit_config where
  "default_limit_config = \<lparr>requests_per_second = 1000, burst_size = 100\<rparr>"

record rate_limiter =
  limit_config :: rate_limit_config
  tokens :: real
  last_refill_time :: time_ns

definition new_limiter :: "time_ns \<Rightarrow> rate_limit_config \<Rightarrow> rate_limiter" where
  "new_limiter now cfg =
     \<lparr>limit_config = cfg, tokens = real (unat (burst_size cfg)), last_refill_time = now\<rparr>"

text \<open>\<^verbatim>\<open>duration_cast\<close> to a duration of double seconds: the count over \<open>10 ^ 9\<close>, in doubles.\<close>

definition seconds_count :: "int \<Rightarrow> real" where
  "seconds_count ns = fl64 (fl64 (of_int ns) / 1000000000)"

definition tokens_to_add :: "rate_limit_config \<Rightarrow> int \<Rightarrow> real" where
  "tokens_to_add cfg elapsed = fl64 (seconds_count elapsed * real (unat (requests_per_second cfg)))"

definition check_allow ::
  "time_ns \<Rightarrow> string \<Rightarrow> rate_limiter \<Rightarrow> rate_limit_decision \<times> rate_limiter"
where
  "check_allow now route_key l =
     (let add = tokens_to_add (limit_config l) (now - last_refill_time l);
          l1 = l\<lparr>tokens := min (fl64 (tokens l + add)) (real (unat (burst_size (limit_config l)))),
                 last_refill_time := now\<rparr>
      in if tokens l1 \<ge> 1 then (kAllow, l1\<lparr>tokens := fl64 (tokens l1 - 1)\<rparr>) else (kReject, l1))"

definition reset_limiter :: "time_ns \<Rightarrow> rate_limiter \<Rightarrow> rate_limiter" where
  "reset_limiter now l =
     l\<lparr>tokens := real (unat (burst_size (limit_config l))), last_refill_time := now\<rparr>"

text \<open>
  The operations of a run, each some nanoseconds after the one before: the steady clock never
  goes back. The clock is threaded beside the limiter.
\<close>

datatype limiter_op = CheckAllow nat string | ResetLimiter nat

fun limiter_step :: "time_ns \<times> rate_limiter \<Rightarrow> limiter_op \<Rightarrow> time_ns \<times> rate_limiter" where
  "limiter_step (clock, l) (CheckAllow d route_key) =
     (clock + int d, snd (check_allow (clock + int d) route_key l))"
| "limiter_step (clock, l) (ResetLimiter d) = (clock + int d, reset_limiter (clock + int d) l)"

text \<open>The decisions of a sequence of calls, each with its delay and its route key.\<close>

fun limiter_decisions ::
  "time_ns \<Rightarrow> rate_limiter \<Rightarrow> (nat \<times> string) list \<Rightarrow> rate_limit_decision list"
where
  "limiter_decisions clock l [] = []"
| "limiter_decisions clock l ((d, route_key) # calls) =
     (case check_allow (clock + int d) route_key l of
        (decision, l1) \<Rightarrow> decision # limiter_decisions (clock + int d) l1 calls)"

section \<open>Invariant\<close>

declare of_nat_unat [simp del]

definition bucket_size :: "rate_limiter \<Rightarrow> real" where
  "bucket_size l = real (unat (burst_size (limit_config l)))"

definition limiter_ok :: "rate_limiter \<Rightarrow> bool" where
  [inv_defs]: "limiter_ok l \<longleftrightarrow> 0 \<le> tokens l \<and> tokens l \<le> bucket_size l"

lemma unat32_le: "unat (w :: 32 word) \<le> 2 ^ 53"
proof -
  have "unat w < 2 ^ LENGTH(32)" by (rule unsigned_less)
  then show ?thesis by simp
qed

lemma tokens_to_add_nonneg: "0 \<le> d \<Longrightarrow> 0 \<le> tokens_to_add cfg d"
  by (auto simp: tokens_to_add_def seconds_count_def intro!: double.fl_nonneg mult_nonneg_nonneg)

text \<open>The bucket after the refill, before the token of an allowed call is taken.\<close>

definition refilled :: "rate_limiter \<Rightarrow> nat \<Rightarrow> real" where
  "refilled l d = min (fl64 (tokens l + tokens_to_add (limit_config l) (int d))) (bucket_size l)"

lemma check_allow_refilled:
  "check_allow (last_refill_time l + int d) route_key l =
     (if 1 \<le> refilled l d
      then (kAllow, l\<lparr>tokens := fl64 (refilled l d - 1), last_refill_time := last_refill_time l + int d\<rparr>)
      else (kReject, l\<lparr>tokens := refilled l d, last_refill_time := last_refill_time l + int d\<rparr>))"
  by (simp add: check_allow_def refilled_def bucket_size_def Let_def)

lemma refilled_bounds: "limiter_ok l \<Longrightarrow> 0 \<le> refilled l d \<and> refilled l d \<le> bucket_size l"
  by (simp add: refilled_def limiter_ok_def bucket_size_def double.fl_nonneg tokens_to_add_nonneg)

text \<open>The clock of a run is the time of the last refill.\<close>

definition limiter_inv :: "rate_limit_config \<Rightarrow> time_ns \<times> rate_limiter \<Rightarrow> bool" where
  "limiter_inv cfg s \<longleftrightarrow>
     limit_config (snd s) = cfg \<and> limiter_ok (snd s) \<and> last_refill_time (snd s) = fst s"

lemma limiter_ok_step: "limiter_ok l \<Longrightarrow> limiter_ok (snd (limiter_step (last_refill_time l, l) op))"
proof (cases op)
  case (CheckAllow d route_key)
  assume ok: "limiter_ok l"
  have "fl64 (refilled l d - 1) \<le> real (unat (burst_size (limit_config l)))"
    using refilled_bounds [OF ok, of d]
    by (intro double.fl_le_nat unat32_le) (simp add: bucket_size_def)
  with refilled_bounds [OF ok, of d] show ?thesis
    by (auto simp: CheckAllow check_allow_refilled limiter_ok_def bucket_size_def double.fl_nonneg)
next
  case (ResetLimiter d)
  then show ?thesis by (simp add: reset_limiter_def limiter_ok_def bucket_size_def)
qed

lemma limiter_step_fields:
  "limit_config (snd (limiter_step (last_refill_time l, l) op)) = limit_config l"
  "last_refill_time (snd (limiter_step (last_refill_time l, l) op)) = fst (limiter_step (last_refill_time l, l) op)"
  by (cases op; simp add: check_allow_refilled reset_limiter_def)+

lemma limiter_inv_step: "limiter_inv cfg s \<Longrightarrow> limiter_inv cfg (limiter_step s op)"
  by (cases s) (auto simp: limiter_inv_def limiter_ok_step limiter_step_fields)

interpretation limiter: machine limiter_step "limiter_inv cfg" for cfg
  by unfold_locales (rule limiter_inv_step)

lemma new_limiter_inv: "limiter_inv cfg (now, new_limiter now cfg)"
  by (simp add: limiter_inv_def limiter_ok_def new_limiter_def bucket_size_def)

text \<open>
  After any sequence of calls and resets, at any delays, the bucket holds
  between zero and the burst size of tokens.
\<close>

theorem tokens_bounded:
  "0 \<le> tokens (snd (foldl limiter_step (now, new_limiter now cfg) ops))
   \<and> tokens (snd (foldl limiter_step (now, new_limiter now cfg) ops)) \<le> real (unat (burst_size cfg))"
  using limiter.inv_run [OF new_limiter_inv, of cfg now ops]
  by (auto simp: limiter_inv_def limiter_ok_def bucket_size_def)

section \<open>Bursts\<close>

lemma tokens_to_add_0 [simp]: "tokens_to_add cfg 0 = 0"
  by (simp add: tokens_to_add_def seconds_count_def double.fl_0)

lemma refilled_nat:
  "tokens l = real k \<Longrightarrow> k \<le> unat (burst_size (limit_config l)) \<Longrightarrow> refilled l 0 = real k"
  using unat32_le [of "burst_size (limit_config l)"]
  by (simp add: refilled_def bucket_size_def double.fl_nat)

lemma burst_from:
  assumes "tokens l = real k" "k \<le> unat (burst_size (limit_config l))"
  shows "limiter_decisions (last_refill_time l) l (map (Pair 0) route_keys) =
     replicate (min (length route_keys) k) kAllow @ replicate (length route_keys - k) kReject"
  using assms
proof (induction route_keys arbitrary: l k)
  case (Cons route_key route_keys)
  note refill = refilled_nat [OF Cons.prems]
  show ?case
  proof (cases k)
    case 0
    with refill Cons.IH [of "l\<lparr>tokens := 0, last_refill_time := last_refill_time l\<rparr>" 0]
    show ?thesis using check_allow_refilled [of l 0 route_key] by simp
  next
    case (Suc j)
    have "j \<le> 2 ^ 53" using Suc Cons.prems(2) unat32_le [of "burst_size (limit_config l)"] by linarith
    then have "fl64 (real k - 1) = real j" using Suc double.fl_nat [of j] by simp
    with Suc refill Cons.prems(2) Cons.IH [of "l\<lparr>tokens := real j, last_refill_time := last_refill_time l\<rparr>" j]
    show ?thesis using check_allow_refilled [of l 0 route_key] by simp
  qed
qed simp

text \<open>
  C37 (functional): of the calls for one route made at one instant, a full bucket admits exactly
  the first ones up to the burst size, and rejects the others.
\<close>

theorem burst_exact:
  "limiter_decisions now (new_limiter now cfg) (replicate calls (0, route_key)) =
     replicate (min calls (unat (burst_size cfg))) kAllow
     @ replicate (calls - unat (burst_size cfg)) kReject"
  using burst_from [of "new_limiter now cfg" "unat (burst_size cfg)" "replicate calls route_key"]
  by (simp add: new_limiter_def)

section \<open>The rate\<close>

lemma tokens_to_add_le:
  assumes "0 \<le> d"
  shows "tokens_to_add cfg d \<le>
     (1 + unit_roundoff) ^ 3 * real (unat (requests_per_second cfg)) * of_int d / 1000000000"
proof -
  let ?u = unit_roundoff and ?r = "real (unat (requests_per_second cfg))"
  have u: "0 \<le> 1 + ?u" using double.u_nonneg by linarith
  have rel: "fl64 x \<le> (1 + ?u) * x" if "0 \<le> x" for x
    using double.fl_le [OF that] by (simp add: algebra_simps)
  have d: "0 \<le> (of_int d :: real)" using assms by simp
  have "fl64 (of_int d) / 1000000000 \<le> (1 + ?u) * of_int d / 1000000000"
    using rel [OF d] by (rule divide_right_mono) simp
  moreover have "0 \<le> fl64 (of_int d) / 1000000000" using double.fl_nonneg [OF d] by simp
  ultimately have s: "seconds_count d \<le> (1 + ?u) * ((1 + ?u) * of_int d / 1000000000)"
    unfolding seconds_count_def using rel [of "fl64 (of_int d) / 1000000000"] u
    by (meson mult_left_mono order_trans)
  have "0 \<le> seconds_count d"
    unfolding seconds_count_def using double.fl_nonneg [OF d] by (intro double.fl_nonneg) simp
  then have "tokens_to_add cfg d \<le> (1 + ?u) * (seconds_count d * ?r)"
    unfolding tokens_to_add_def by (intro rel mult_nonneg_nonneg) simp_all
  also have "\<dots> \<le> (1 + ?u) * ((1 + ?u) * ((1 + ?u) * of_int d / 1000000000) * ?r)"
    using s u by (intro mult_left_mono mult_right_mono) simp_all
  finally show ?thesis by (simp add: power3_eq_cube mult_ac)
qed

lemma refilled_le:
  assumes "limiter_ok l"
  shows "refilled l d \<le> tokens l + tokens_to_add (limit_config l) (int d) + unit_roundoff * bucket_size l"
proof (cases "tokens l + tokens_to_add (limit_config l) (int d) \<le> bucket_size l")
  case True
  moreover have "0 \<le> tokens l + tokens_to_add (limit_config l) (int d)"
    using assms tokens_to_add_nonneg [of "int d"] by (simp add: limiter_ok_def)
  ultimately show ?thesis
    using double.fl_add_error unfolding refilled_def by (meson min.coboundedI1)
next
  case False
  moreover have "0 \<le> unit_roundoff * bucket_size l"
    using double.u_nonneg by (simp add: bucket_size_def)
  ultimately show ?thesis unfolding refilled_def by linarith
qed

lemma check_allow_budget:
  assumes "limiter_ok l" and "check_allow (last_refill_time l + int d) route_key l = (decision, l1)"
  shows "tokens l1 + (if decision = kAllow then 1 else 0) \<le>
     tokens l + (1 + unit_roundoff) ^ 3 * real (unat (requests_per_second (limit_config l))) * real d / 1000000000
     + 2 * unit_roundoff * bucket_size l"
proof -
  have add: "tokens_to_add (limit_config l) (int d) \<le>
      (1 + unit_roundoff) ^ 3 * real (unat (requests_per_second (limit_config l))) * real d / 1000000000"
    using tokens_to_add_le [of "int d" "limit_config l"] by simp
  have err: "0 \<le> unit_roundoff * bucket_size l"
    using double.u_nonneg by (simp add: bucket_size_def)
  show ?thesis
  proof (cases "1 \<le> refilled l d")
    case True
    with refilled_bounds [OF assms(1), of d]
    have "fl64 (refilled l d - 1) \<le> refilled l d - 1 + unit_roundoff * bucket_size l"
      by (intro double.fl_add_error) simp_all
    with True assms(2) add refilled_le [OF assms(1), of d] show ?thesis
      by (auto simp: check_allow_refilled)
  next
    case False
    with assms(2) add err refilled_le [OF assms(1), of d] show ?thesis
      by (auto simp: check_allow_refilled)
  qed
qed

lemma check_allow_config:
  "check_allow (last_refill_time l + int d) route_key l = (decision, l1) \<Longrightarrow> limit_config l1 = limit_config l"
  using limiter_step_fields(1) [of l "CheckAllow d route_key"] by simp

lemma check_allow_time:
  "check_allow (last_refill_time l + int d) route_key l = (decision, l1) \<Longrightarrow>
   last_refill_time l1 = last_refill_time l + int d"
  using limiter_step_fields(2) [of l "CheckAllow d route_key"] by simp

lemma check_allow_ok:
  "limiter_ok l \<Longrightarrow> check_allow (last_refill_time l + int d) route_key l = (decision, l1) \<Longrightarrow> limiter_ok l1"
  using limiter_ok_step [of l "CheckAllow d route_key"] by simp

definition allowed_calls :: "rate_limiter \<Rightarrow> (nat \<times> string) list \<Rightarrow> nat" where
  "allowed_calls l calls =
     length (filter (\<lambda>x. x = kAllow) (limiter_decisions (last_refill_time l) l calls))"

lemma allowed_le:
  assumes "limiter_ok l"
  shows "real (allowed_calls l calls) \<le> tokens l
     + (1 + unit_roundoff) ^ 3 * real (unat (requests_per_second (limit_config l)))
         * real (sum_list (map fst calls)) / 1000000000
     + 2 * unit_roundoff * real (length calls) * bucket_size l"
  using assms
proof (induction calls arbitrary: l)
  case Nil
  then show ?case by (simp add: allowed_calls_def limiter_ok_def)
next
  case (Cons call calls)
  obtain d route_key where call: "call = (d, route_key)" by (cases call)
  obtain decision l1 where s: "check_allow (last_refill_time l + int d) route_key l = (decision, l1)"
    by (cases "check_allow (last_refill_time l + int d) route_key l")
  have n: "real (allowed_calls l ((d, route_key) # calls)) =
      (if decision = kAllow then 1 else 0) + real (allowed_calls l1 calls)"
    using check_allow_time [OF s] by (simp add: allowed_calls_def s)
  have "limit_config l1 = limit_config l" "bucket_size l1 = bucket_size l"
    using check_allow_config [OF s] by (simp_all add: bucket_size_def)
  with Cons.IH [OF check_allow_ok [OF Cons.prems s]] check_allow_budget [OF Cons.prems s]
  show ?case by (simp add: n call algebra_simps add_divide_distrib)
qed

text \<open>
  C12 (bounds): over any sequence of calls, the number admitted is at most the burst size
  plus the configured rate times the elapsed time, up to the rounding of the doubles: a
  relative error of about \<open>3 * 2 ^ -53\<close> on the refill, and of \<open>2 * 2 ^ -53\<close> of the burst size
  for every call.
\<close>

theorem rate_bounded:
  "real (allowed_calls (new_limiter now cfg) calls) \<le>
     real (unat (burst_size cfg)) * (1 + 2 * unit_roundoff * real (length calls))
     + (1 + unit_roundoff) ^ 3 * real (unat (requests_per_second cfg))
         * real (sum_list (map fst calls)) / 1000000000"
proof -
  have "limiter_ok (new_limiter now cfg)" using new_limiter_inv by (simp add: limiter_inv_def)
  from allowed_le [OF this, of calls] show ?thesis
    by (simp add: new_limiter_def bucket_size_def algebra_simps)
qed

text \<open>
  A limiter whose rate and burst size are not zero admits a call made at
  least a second after the one before, however empty the bucket.
\<close>

theorem refill_after_second:
  assumes "limiter_ok l" "1000000000 \<le> d"
    and "requests_per_second (limit_config l) \<noteq> 0" "burst_size (limit_config l) \<noteq> 0"
  shows "fst (check_allow (last_refill_time l + int d) route_key l) = kAllow"
proof -
  let ?r = "real (unat (requests_per_second (limit_config l)))"
  have pos: "1 \<le> ?r" "1 \<le> bucket_size l"
    using assms(3,4) unat_gt_0 [of "requests_per_second (limit_config l)"]
      unat_gt_0 [of "burst_size (limit_config l)"] by (simp_all add: bucket_size_def)
  have "fl64 (real 1000000000) \<le> fl64 (of_int (int d))"
    by (rule double.fl_mono) (use assms(2) in simp)
  then have "1 \<le> seconds_count (int d)"
    unfolding seconds_count_def using double.fl_nat [of 1000000000]
    by (intro double.fl_ge_1) simp
  then have "1 \<le> seconds_count (int d) * ?r"
    using pos(1) mult_mono [of 1 "seconds_count (int d)" 1 ?r] by simp
  then have "1 \<le> tokens_to_add (limit_config l) (int d)"
    unfolding tokens_to_add_def by (rule double.fl_ge_1)
  moreover have "0 \<le> tokens l" using assms(1) by (simp add: limiter_ok_def)
  ultimately have "1 \<le> fl64 (tokens l + tokens_to_add (limit_config l) (int d))"
    by (intro double.fl_ge_1) simp
  with pos(2) show ?thesis by (simp add: check_allow_refilled refilled_def)
qed

theorem refill_after_second_witness:
  "fst (check_allow 1000000005 ''api'' \<lparr>limit_config = default_limit_config, tokens = 0, last_refill_time = 5\<rparr>) = kAllow"
  using refill_after_second [of "\<lparr>limit_config = default_limit_config, tokens = 0, last_refill_time = 5\<rparr>"
      1000000000 "''api''"]
  by (simp add: limiter_ok_def bucket_size_def default_limit_config_def)

text \<open>
  With a rate of zero nothing is ever refilled: an empty bucket refuses every
  later call.
\<close>

theorem zero_rate_starves:
  assumes "limiter_ok l" "tokens l = 0" "requests_per_second (limit_config l) = 0"
  shows "limiter_decisions (last_refill_time l) l calls = replicate (length calls) kReject"
  using assms
proof (induction calls arbitrary: l)
  case (Cons call calls)
  obtain d route_key where call: "call = (d, route_key)" by (cases call)
  have "tokens_to_add (limit_config l) (int d) = 0"
    using Cons.prems by (simp add: tokens_to_add_def double.fl_0)
  then have r: "refilled l d = 0" using Cons.prems by (simp add: refilled_def double.fl_0 bucket_size_def)
  let ?l = "l\<lparr>tokens := 0, last_refill_time := last_refill_time l + int d\<rparr>"
  have "limiter_decisions (last_refill_time ?l) ?l calls = replicate (length calls) kReject"
    by (rule Cons.IH) (use Cons.prems in \<open>simp_all add: limiter_ok_def bucket_size_def\<close>)
  then show ?case by (simp add: call check_allow_refilled r)
qed simp

theorem zero_rate_starves_witness:
  "limiter_decisions 5 \<lparr>limit_config = \<lparr>requests_per_second = 0, burst_size = 1\<rparr>, tokens = 0, last_refill_time = 5\<rparr>
     [(7, ''a''), (1000000000, ''b'')] = [kReject, kReject]"
proof -
  let ?l = "\<lparr>limit_config = \<lparr>requests_per_second = 0, burst_size = 1\<rparr>, tokens = 0, last_refill_time = 5\<rparr>"
  have "limiter_decisions (last_refill_time ?l) ?l [(7, ''a''), (1000000000, ''b'')] =
      replicate (length [(7 :: nat, ''a''), (1000000000, ''b'')]) kReject"
    by (rule zero_rate_starves) (simp_all add: limiter_ok_def bucket_size_def)
  then show ?thesis by simp
qed

end
