(* ===== verification/Connection_Pool.thy ===== *)
theory Connection_Pool imports Prelude begin

text \<open>
  \<^verbatim>\<open>src/upstream/connection_pool.cpp\<close>: the pool of upstream connections one worker keeps,
  grouped by host and port. The readings of the steady clock are arguments, in nanoseconds;
  what resolving and connecting a socket gives (Boost.Asio, not part of the repository) is
  the argument \<open>connect_outcome\<close>. A connection is what its \<^verbatim>\<open>unique_ptr\<close> owns: an object
  with an identity, the peer its socket is connected to and whether the socket is open.
\<close>

section \<open>Data\<close>

record upstream_config =
  connect_timeout :: int
  idle_timeout :: int
  max_connections_per_host :: "32 word"

definition default_upstream_config :: upstream_config where
  "default_upstream_config =
     \<lparr>connect_timeout = 5000, idle_timeout = 60000, max_connections_per_host = 100\<rparr>"

datatype connection_health = kHealthy | kUnhealthy

datatype upstream_error = kUpstreamSuccess | kConnectTimeout | kAllUnavailable | kPoolExhausted

type_synonym peer = "string \<times> 16 word"

record upstream_connection =
  conn_id :: nat
  conn_peer :: peer
  socket_open :: bool
  create_time :: time_ns
  last_used_time :: time_ns

definition new_connection :: "nat \<Rightarrow> peer \<Rightarrow> time_ns \<Rightarrow> upstream_connection" where
  "new_connection i p now =
     \<lparr>conn_id = i, conn_peer = p, socket_open = True, create_time = now, last_used_time = now\<rparr>"

record connection_pool =
  pool_config :: upstream_config
  pools :: "string \<rightharpoonup> upstream_connection list"

definition new_pool :: "upstream_config \<Rightarrow> connection_pool" where
  "new_pool cfg = \<lparr>pool_config = cfg, pools = (\<lambda>_. None)\<rparr>"

section \<open>Operations\<close>

definition check_health :: "int \<Rightarrow> time_ns \<Rightarrow> upstream_connection \<Rightarrow> connection_health" where
  "check_health idle now c =
     (let idle_duration = cast_ticks (now - last_used_time c) 1000000
      in if idle_duration > idle then kUnhealthy
         else if \<not> socket_open c then kUnhealthy
         else kHealthy)"

definition mark_used :: "time_ns \<Rightarrow> upstream_connection \<Rightarrow> upstream_connection" where
  "mark_used now c = c\<lparr>last_used_time := now\<rparr>"

definition make_pool_key :: "string \<Rightarrow> 16 word \<Rightarrow> string" where
  "make_pool_key host port = host @ '':'' @ to_dec (unat port)"

text \<open>
  What the \<^verbatim>\<open>co_await\<close>s of \<^verbatim>\<open>create_new_connection\<close> give: a connected socket, an error code
  thrown as \<^verbatim>\<open>system_error\<close>, or another exception.
\<close>

datatype asio_error = timed_out | operation_aborted | other_asio_error nat

datatype connect_outcome = Connected time_ns | SystemError asio_error | OtherException

definition create_new_connection ::
  "nat \<Rightarrow> string \<Rightarrow> 16 word \<Rightarrow> connect_outcome \<Rightarrow> upstream_connection option \<times> upstream_error"
where
  "create_new_connection i host port outcome =
     (case outcome of
        Connected now \<Rightarrow> (Some (new_connection i (host, port) now), kUpstreamSuccess)
      | SystemError e \<Rightarrow>
          if e = timed_out \<or> e = operation_aborted then (None, kConnectTimeout)
          else (None, kAllUnavailable)
      | OtherException \<Rightarrow> (None, kAllUnavailable))"

text \<open>
  The loop of \<^verbatim>\<open>borrow_connection\<close>: the connection at the back is taken out and either
  handed over or destroyed. \<open>nows\<close> are the successive readings of the clock.
\<close>

function borrow_loop ::
  "int \<Rightarrow> (nat \<Rightarrow> time_ns) \<Rightarrow> nat \<Rightarrow> upstream_connection list
     \<Rightarrow> upstream_connection option \<times> upstream_connection list"
where
  "borrow_loop idle nows i pool =
     (if pool = [] then (None, [])
      else let conn = last pool; pool1 = butlast pool
           in if check_health idle (nows i) conn = kHealthy
              then (Some (mark_used (nows (Suc i)) conn), pool1)
              else borrow_loop idle nows (Suc i) pool1)"
  by pat_completeness auto

termination by (relation "measure (\<lambda>(_, _, _, pool). length pool)") auto

declare borrow_loop.simps [simp del]

definition pool_at :: "connection_pool \<Rightarrow> string \<Rightarrow> upstream_connection list" where
  "pool_at p key = (case pools p key of None \<Rightarrow> [] | Some cs \<Rightarrow> cs)"

definition borrow_connection ::
  "nat \<Rightarrow> (nat \<Rightarrow> time_ns) \<Rightarrow> connect_outcome \<Rightarrow> string \<Rightarrow> 16 word \<Rightarrow> connection_pool
     \<Rightarrow> (upstream_connection option \<times> upstream_error) \<times> connection_pool"
where
  "borrow_connection i nows outcome host port p =
     (let pool_key = make_pool_key host port
      in case borrow_loop (idle_timeout (pool_config p)) nows 0 (pool_at p pool_key) of
           (Some conn, rest) \<Rightarrow> ((Some conn, kUpstreamSuccess), p\<lparr>pools := (pools p)(pool_key \<mapsto> rest)\<rparr>)
         | (None, rest) \<Rightarrow>
             (create_new_connection i host port outcome, p\<lparr>pools := (pools p)(pool_key \<mapsto> rest)\<rparr>))"

definition return_connection ::
  "time_ns \<Rightarrow> string \<Rightarrow> 16 word \<Rightarrow> upstream_connection option \<Rightarrow> connection_pool \<Rightarrow> connection_pool"
where
  "return_connection now host port conn p =
     (case conn of
        None \<Rightarrow> p
      | Some c \<Rightarrow>
          if check_health (idle_timeout (pool_config p)) now c \<noteq> kHealthy then p
          else
            let pool_key = make_pool_key host port; pool = pool_at p pool_key
            in if length pool \<ge> unat (max_connections_per_host (pool_config p))
               then p\<lparr>pools := (pools p)(pool_key \<mapsto> pool)\<rparr>
               else p\<lparr>pools := (pools p)(pool_key \<mapsto> pool @ [c])\<rparr>)"

text \<open>\<^verbatim>\<open>remove_if\<close> evaluates its predicate once per element, each time reading the clock.\<close>

fun erase_unhealthy ::
  "int \<Rightarrow> (nat \<Rightarrow> time_ns) \<Rightarrow> nat \<Rightarrow> upstream_connection list \<Rightarrow> upstream_connection list"
where
  "erase_unhealthy idle nows i [] = []"
| "erase_unhealthy idle nows i (c # cs) =
     (if check_health idle (nows i) c \<noteq> kHealthy then erase_unhealthy idle nows (Suc i) cs
      else c # erase_unhealthy idle nows (Suc i) cs)"

definition cleanup_idle_connections ::
  "(string \<Rightarrow> nat \<Rightarrow> time_ns) \<Rightarrow> connection_pool \<Rightarrow> connection_pool"
where
  "cleanup_idle_connections nows p =
     p\<lparr>pools := (\<lambda>key. map_option (erase_unhealthy (idle_timeout (pool_config p)) (nows key) 0)
                         (pools p key))\<rparr>"

section \<open>Facts about the operations\<close>

lemma append_sep_eq:
  assumes "xs @ c # ys = us @ c # vs" "c \<notin> set ys" "c \<notin> set vs"
  shows "xs = us \<and> ys = vs"
  using assms by (auto simp: append_eq_append_conv2 Cons_eq_append_conv append_eq_Cons_conv)

lemma colon_no_digit: "CHR '':'' \<notin> set (to_dec n)"
  using to_dec_digits [of "CHR '':''" n] by (auto simp: is_digit_def)

lemma make_pool_key_inject [simp]:
  "make_pool_key host port = make_pool_key host' port' \<longleftrightarrow> host = host' \<and> port = port'"
proof
  assume "make_pool_key host port = make_pool_key host' port'"
  then have "host @ CHR '':'' # to_dec (unat port) = host' @ CHR '':'' # to_dec (unat port')"
    by (simp add: make_pool_key_def)
  from append_sep_eq [OF this colon_no_digit colon_no_digit] show "host = host' \<and> port = port'"
    by (simp add: word_unat_eq_iff)
qed simp

lemma healthy_iff:
  assumes "0 \<le> idle"
  shows "check_health idle now c = kHealthy \<longleftrightarrow>
     socket_open c \<and> now - last_used_time c < (idle + 1) * 1000000"
  using cast_ticks_ge_iff [of 1000000 "idle + 1" "now - last_used_time c"] assms
  by (auto simp: check_health_def Let_def)

lemma pool_at_update [simp]:
  "pool_at (p\<lparr>pools := (pools p)(key \<mapsto> cs)\<rparr>) k = (if k = key then cs else pool_at p k)"
  by (simp add: pool_at_def)

lemma pool_at_cleanup [simp]:
  "pool_at (cleanup_idle_connections nows p) key =
     erase_unhealthy (idle_timeout (pool_config p)) (nows key) 0 (pool_at p key)"
  by (simp add: pool_at_def cleanup_idle_connections_def split: option.split)

lemma erase_unhealthy_subseq: "subseq (erase_unhealthy idle nows i cs) cs"
  by (induction cs arbitrary: i) auto

lemma erase_unhealthy_const:
  "erase_unhealthy idle (\<lambda>_. now) i cs = filter (\<lambda>c. check_health idle now c = kHealthy) cs"
  by (induction cs arbitrary: i) auto

text \<open>What the loop of \<open>borrow_connection\<close> takes out of the pool.\<close>

lemma borrow_loop_Nil [simp]: "borrow_loop idle nows i [] = (None, [])"
  by (subst borrow_loop.simps) simp

lemma borrow_loop_snoc [simp]:
  "borrow_loop idle nows i (pool @ [conn]) =
     (if check_health idle (nows i) conn = kHealthy
      then (Some (mark_used (nows (Suc i)) conn), pool)
      else borrow_loop idle nows (Suc i) pool)"
  by (subst borrow_loop.simps) simp

lemma borrow_loop_result:
  "case borrow_loop idle nows i pool of
     (None, rest) \<Rightarrow> rest = []
       \<and> (\<forall>j<length pool. check_health idle (nows (i + j)) (rev pool ! j) = kUnhealthy)
   | (Some c, rest) \<Rightarrow> \<exists>conn dead. pool = rest @ conn # dead
       \<and> c = mark_used (nows (Suc (i + length dead))) conn
       \<and> check_health idle (nows (i + length dead)) conn = kHealthy
       \<and> (\<forall>j<length dead. check_health idle (nows (i + j)) (rev dead ! j) = kUnhealthy)"
proof (induction pool arbitrary: i rule: rev_induct)
  case (snoc conn pool)
  show ?case
  proof (cases "check_health idle (nows i) conn = kHealthy")
    case True
    then show ?thesis by simp
  next
    case False
    then have u: "check_health idle (nows i) conn = kUnhealthy" by (cases "check_health idle (nows i) conn") auto
    have nth: "check_health idle (nows (i + j)) (rev (cs @ [conn]) ! j) = kUnhealthy"
      if "j < Suc (length cs)" "\<forall>j<length cs. check_health idle (nows (Suc i + j)) (rev cs ! j) = kUnhealthy" for j cs
      using that u by (cases j) auto
    show ?thesis
    proof (cases "borrow_loop idle nows (Suc i) pool")
      case (Pair r rest)
      show ?thesis
      proof (cases r)
        case None
        with Pair False snoc.IH [of "Suc i"] nth [of _ pool] show ?thesis by simp
      next
        case (Some c)
        with Pair snoc.IH [of "Suc i"] obtain c0 dead where
          d: "pool = rest @ c0 # dead" "c = mark_used (nows (Suc (Suc i + length dead))) c0"
            "check_health idle (nows (Suc i + length dead)) c0 = kHealthy"
            "\<forall>j<length dead. check_health idle (nows (Suc i + j)) (rev dead ! j) = kUnhealthy"
          by auto
        have "pool @ [conn] = rest @ c0 # (dead @ [conn])" using d(1) by simp
        moreover have "\<forall>j<length (dead @ [conn]). check_health idle (nows (i + j)) (rev (dead @ [conn]) ! j) = kUnhealthy"
          using nth [of _ dead] d(4) by simp
        moreover have "i + length (dead @ [conn]) = Suc i + length dead" by simp
        ultimately have "\<exists>c1 dead1. pool @ [conn] = rest @ c1 # dead1
            \<and> c = mark_used (nows (Suc (i + length dead1))) c1
            \<and> check_health idle (nows (i + length dead1)) c1 = kHealthy
            \<and> (\<forall>j<length dead1. check_health idle (nows (i + j)) (rev dead1 ! j) = kUnhealthy)"
          using d(2,3) by (intro exI [of _ c0] exI [of _ "dead @ [conn]"]) simp
        moreover have "borrow_loop idle nows i (pool @ [conn]) = (Some c, rest)"
          using Pair Some False by simp
        ultimately show ?thesis by (simp only: prod.case option.case)
      qed
    qed
  qed
qed simp

section \<open>What borrowing and returning do\<close>

text \<open>
  C25 (functional): \<open>borrow_connection\<close> hands over the most recently returned connection that
  is healthy when examined, drops exactly the ones behind it, which were not, and keeps the
  others; only when no pooled connection is healthy is a new one made, whose failures are
  reported as a connect timeout or as no connection available.
\<close>

theorem borrow_connection_correct:
  "case borrow_connection i nows outcome host port p of ((conn, error), p') \<Rightarrow>
     (\<forall>k. k \<noteq> make_pool_key host port \<longrightarrow> pool_at p' k = pool_at p k)
     \<and> ((\<exists>c dead. pool_at p (make_pool_key host port) = pool_at p' (make_pool_key host port) @ c # dead
            \<and> conn = Some (mark_used (nows (Suc (length dead))) c) \<and> error = kUpstreamSuccess
            \<and> check_health (idle_timeout (pool_config p)) (nows (length dead)) c = kHealthy
            \<and> (\<forall>j<length dead. check_health (idle_timeout (pool_config p)) (nows j) (rev dead ! j) = kUnhealthy))
        \<or> (pool_at p' (make_pool_key host port) = []
            \<and> (\<forall>j<length (pool_at p (make_pool_key host port)).
                 check_health (idle_timeout (pool_config p)) (nows j)
                   (rev (pool_at p (make_pool_key host port)) ! j) = kUnhealthy)
            \<and> (case outcome of
                  Connected now \<Rightarrow> conn = Some (new_connection i (host, port) now) \<and> error = kUpstreamSuccess
                | SystemError e \<Rightarrow> conn = None \<and>
                    error = (if e \<in> {timed_out, operation_aborted} then kConnectTimeout else kAllUnavailable)
                | OtherException \<Rightarrow> conn = None \<and> error = kAllUnavailable)))"
proof (cases "borrow_loop (idle_timeout (pool_config p)) nows 0 (pool_at p (make_pool_key host port))")
  case (Pair r rest)
  from borrow_loop_result [where idle = "idle_timeout (pool_config p)" and nows = nows and i = 0
      and pool = "pool_at p (make_pool_key host port)"]
  show ?thesis
    by (cases r)
       (auto simp: Pair borrow_connection_def create_new_connection_def Let_def split: connect_outcome.split)
qed

theorem borrow_connection_correct_witness:
  "fst (borrow_connection 0 (\<lambda>_. 7) (SystemError timed_out) ''h'' 80 (new_pool default_upstream_config))
     = (None, kConnectTimeout)"
proof -
  let ?p = "new_pool default_upstream_config"
  obtain conn error p' where
    r: "borrow_connection 0 (\<lambda>_. 7) (SystemError timed_out) ''h'' 80 ?p = ((conn, error), p')"
    by (metis surj_pair)
  have e: "pool_at ?p k = []" for k by (simp add: pool_at_def new_pool_def)
  from borrow_connection_correct [where i = 0 and nows = "\<lambda>_. 7" and outcome = "SystemError timed_out"
      and host = "''h''" and port = 80 and p = ?p]
  have "conn = None \<and> error = kConnectTimeout"
    unfolding r e by (auto split: if_splits)
  with r show ?thesis by simp
qed

text \<open>
  C38 (roundtrip): a connection returned while healthy to a pool with room is the one the
  next \<open>borrow_connection\<close> for the same host and port hands over, if it is still healthy then.
\<close>

theorem return_then_borrow:
  assumes "check_health (idle_timeout (pool_config p)) now c = kHealthy"
    and "check_health (idle_timeout (pool_config p)) (nows 0) c = kHealthy"
    and "length (pool_at p (make_pool_key host port)) < unat (max_connections_per_host (pool_config p))"
  shows "fst (borrow_connection i nows outcome host port (return_connection now host port (Some c) p))
      = (Some (mark_used (nows 1) c), kUpstreamSuccess)
    \<and> pool_at (snd (borrow_connection i nows outcome host port (return_connection now host port (Some c) p)))
      = pool_at p"
  using assms by (auto simp: return_connection_def borrow_connection_def Let_def)

theorem return_then_borrow_witness:
  "fst (borrow_connection 1 (\<lambda>_. 60000000000) OtherException ''h'' 80
     (return_connection 7 ''h'' 80 (Some (new_connection 0 (''h'', 80) 5)) (new_pool default_upstream_config)))
   = (Some ((new_connection 0 (''h'', 80) 5)\<lparr>last_used_time := 60000000000\<rparr>), kUpstreamSuccess)"
  using return_then_borrow [where p = "new_pool default_upstream_config" and now = 7
      and c = "new_connection 0 (''h'', 80) 5" and nows = "\<lambda>_. 60000000000" and host = "''h''"
      and port = 80 and i = 1 and outcome = OtherException]
  by (simp add: new_pool_def default_upstream_config_def pool_at_def new_connection_def healthy_iff mark_used_def)

text \<open>
  A cleanup whose readings are all of one instant keeps exactly the healthy
  connections of every pool, in their order.
\<close>

theorem cleanup_keeps_healthy:
  "pool_at (cleanup_idle_connections (\<lambda>_ _. now) p) key =
     filter (\<lambda>c. check_health (idle_timeout (pool_config p)) now c = kHealthy) (pool_at p key)"
  by (simp add: erase_unhealthy_const)

section \<open>The pool and its clients\<close>

text \<open>
  A worker's pool together with the connections its coroutines hold. A client gives a
  connection back under a host and port of its choice; it may also drop it, or close its
  socket while holding it.
\<close>

record pool_system =
  the_pool :: connection_pool
  borrowed :: "upstream_connection list"
  next_id :: nat

definition new_system :: "upstream_config \<Rightarrow> pool_system" where
  "new_system cfg = \<lparr>the_pool = new_pool cfg, borrowed = [], next_id = 0\<rparr>"

datatype pool_op =
    Borrow "nat \<Rightarrow> time_ns" connect_outcome string "16 word"
  | Return time_ns nat string "16 word"
  | Discard nat
  | CloseSocket nat
  | CleanupIdle "string \<Rightarrow> nat \<Rightarrow> time_ns"

definition drop_id :: "nat \<Rightarrow> upstream_connection list \<Rightarrow> upstream_connection list" where
  "drop_id i cs = filter (\<lambda>c. conn_id c \<noteq> i) cs"

fun pool_step :: "pool_system \<Rightarrow> pool_op \<Rightarrow> pool_system" where
  "pool_step s (Borrow nows outcome host port) =
     (case borrow_connection (next_id s) nows outcome host port (the_pool s) of
        ((conn, error), p) \<Rightarrow>
          s\<lparr>the_pool := p, next_id := Suc (next_id s),
            borrowed := (case conn of None \<Rightarrow> borrowed s | Some c \<Rightarrow> c # borrowed s)\<rparr>)"
| "pool_step s (Return now i host port) =
     (case find (\<lambda>c. conn_id c = i) (borrowed s) of
        None \<Rightarrow> s
      | Some c \<Rightarrow>
          s\<lparr>the_pool := return_connection now host port (Some c) (the_pool s),
            borrowed := drop_id i (borrowed s)\<rparr>)"
| "pool_step s (Discard i) = s\<lparr>borrowed := drop_id i (borrowed s)\<rparr>"
| "pool_step s (CloseSocket i) =
     s\<lparr>borrowed := map (\<lambda>c. if conn_id c = i then c\<lparr>socket_open := False\<rparr> else c) (borrowed s)\<rparr>"
| "pool_step s (CleanupIdle nows) = s\<lparr>the_pool := cleanup_idle_connections nows (the_pool s)\<rparr>"

text \<open>The clients that give every connection back under the host and port it is connected to.\<close>

fun own_return :: "pool_system \<Rightarrow> pool_op \<Rightarrow> bool" where
  "own_return s (Return now i host port) \<longleftrightarrow>
     (case find (\<lambda>c. conn_id c = i) (borrowed s) of None \<Rightarrow> True | Some c \<Rightarrow> conn_peer c = (host, port))"
| "own_return s op \<longleftrightarrow> True"

fun own_returns :: "pool_system \<Rightarrow> pool_op list \<Rightarrow> bool" where
  "own_returns s [] \<longleftrightarrow> True"
| "own_returns s (op # ops) \<longleftrightarrow> own_return s op \<and> own_returns (pool_step s op) ops"

text \<open>
  The invariant: a connection has one owner, a pool or a client; a pool holds only open
  connections, and at most the configured number of them.
\<close>

definition pool_ids :: "connection_pool \<Rightarrow> string \<Rightarrow> nat list" where
  "pool_ids p key = map conn_id (pool_at p key)"

definition held_ids :: "pool_system \<Rightarrow> nat list" where
  "held_ids s = map conn_id (borrowed s)"

definition pooled_ok :: "nat \<Rightarrow> upstream_connection \<Rightarrow> bool" where
  "pooled_ok n c \<longleftrightarrow> socket_open c \<and> conn_id c < n"

definition pool_inv :: "upstream_config \<Rightarrow> pool_system \<Rightarrow> bool" where
  "pool_inv cfg s \<longleftrightarrow>
     pool_config (the_pool s) = cfg
     \<and> (\<forall>key. length (pool_at (the_pool s) key) \<le> unat (max_connections_per_host cfg)
          \<and> distinct (pool_ids (the_pool s) key)
          \<and> (\<forall>c\<in>set (pool_at (the_pool s) key). pooled_ok (next_id s) c)
          \<and> set (pool_ids (the_pool s) key) \<inter> set (held_ids s) = {})
     \<and> (\<forall>key key'. key \<noteq> key' \<longrightarrow> set (pool_ids (the_pool s) key) \<inter> set (pool_ids (the_pool s) key') = {})
     \<and> distinct (held_ids s)
     \<and> (\<forall>i\<in>set (held_ids s). i < next_id s)"

lemma pool_invI:
  assumes "pool_config (the_pool s) = cfg"
    and "\<And>key. length (pool_at (the_pool s) key) \<le> unat (max_connections_per_host cfg)"
    and "\<And>key. distinct (pool_ids (the_pool s) key)"
    and "\<And>key c. c \<in> set (pool_at (the_pool s) key) \<Longrightarrow> pooled_ok (next_id s) c"
    and "\<And>key. set (pool_ids (the_pool s) key) \<inter> set (held_ids s) = {}"
    and "\<And>key key'. key \<noteq> key' \<Longrightarrow> set (pool_ids (the_pool s) key) \<inter> set (pool_ids (the_pool s) key') = {}"
    and "distinct (held_ids s)" "\<And>i. i \<in> set (held_ids s) \<Longrightarrow> i < next_id s"
  shows "pool_inv cfg s"
  using assms by (simp add: pool_inv_def)

lemma pool_invD:
  assumes "pool_inv cfg s"
  shows "pool_config (the_pool s) = cfg"
    and "length (pool_at (the_pool s) key) \<le> unat (max_connections_per_host cfg)"
    and "distinct (pool_ids (the_pool s) key)"
    and "c \<in> set (pool_at (the_pool s) key) \<Longrightarrow> pooled_ok (next_id s) c"
    and "set (pool_ids (the_pool s) key) \<inter> set (held_ids s) = {}"
    and "key \<noteq> key' \<Longrightarrow> set (pool_ids (the_pool s) key) \<inter> set (pool_ids (the_pool s) key') = {}"
    and "distinct (held_ids s)" and "i \<in> set (held_ids s) \<Longrightarrow> i < next_id s"
  using assms by (simp_all add: pool_inv_def)

lemma pool_id_below: "pool_inv cfg s \<Longrightarrow> i \<in> set (pool_ids (the_pool s) key) \<Longrightarrow> i < next_id s"
  using pool_invD(4) by (fastforce simp: pool_ids_def pooled_ok_def)

lemma subseq_pool_ids:
  assumes "subseq (pool_at p' key) (pool_at p key)"
  shows "set (pool_at p' key) \<subseteq> set (pool_at p key)" "set (pool_ids p' key) \<subseteq> set (pool_ids p key)"
    and "distinct (pool_ids p key) \<Longrightarrow> distinct (pool_ids p' key)"
    and "length (pool_at p' key) \<le> length (pool_at p key)"
proof -
  have s: "subseq (pool_ids p' key) (pool_ids p key)"
    unfolding pool_ids_def using assms by (rule subseq_map)
  show "set (pool_at p' key) \<subseteq> set (pool_at p key)" "set (pool_ids p' key) \<subseteq> set (pool_ids p key)"
    using assms s by (auto simp: subseq_conv_nths dest: set_nths_subset [THEN subsetD])
  show "distinct (pool_ids p key) \<Longrightarrow> distinct (pool_ids p' key)"
    using s by (auto simp: subseq_conv_nths intro: distinct_nthsI)
  show "length (pool_at p' key) \<le> length (pool_at p key)"
    using assms by (rule list_emb_length)
qed

text \<open>An operation that only takes connections out of the pools keeps the invariant.\<close>

lemma pool_inv_shrink:
  assumes inv: "pool_inv cfg s"
    and cfg: "pool_config (the_pool t) = pool_config (the_pool s)"
    and sub: "\<And>key. subseq (pool_at (the_pool t) key) (pool_at (the_pool s) key)"
    and grow: "next_id s \<le> next_id t"
    and held: "distinct (held_ids t)" "\<And>i. i \<in> set (held_ids t) \<Longrightarrow> i < next_id t"
    and free: "\<And>i key. i \<in> set (held_ids t) \<Longrightarrow> i \<in> set (held_ids s) \<or> i \<notin> set (pool_ids (the_pool t) key)"
  shows "pool_inv cfg t"
proof (rule pool_invI)
  note d = pool_invD [OF inv] and sub' = subseq_pool_ids [OF sub]
  show "pool_config (the_pool t) = cfg" using cfg d(1) by simp
  show "length (pool_at (the_pool t) key) \<le> unat (max_connections_per_host cfg)" for key
    using sub'(4) d(2) by (rule order_trans)
  show "distinct (pool_ids (the_pool t) key)" for key using d(3) by (rule sub'(3))
  show "pooled_ok (next_id t) c" if "c \<in> set (pool_at (the_pool t) key)" for key c
    using d(4) sub'(1) that grow by (fastforce simp: pooled_ok_def)
  show "set (pool_ids (the_pool t) key) \<inter> set (held_ids t) = {}" for key
    using sub'(2) [of key] d(5) [of key] free [of _ key] by blast
  show "set (pool_ids (the_pool t) key) \<inter> set (pool_ids (the_pool t) key') = {}" if "key \<noteq> key'" for key key'
    using sub'(2) [of key] sub'(2) [of key'] d(6) [OF that] by blast
qed (use held in auto)

text \<open>Every operation keeps the invariant.\<close>

lemma borrow_connection_cases:
  assumes "borrow_connection i nows outcome host port p = ((conn, error), p')"
  obtains (reuse) c dead now where
      "pool_at p (make_pool_key host port) = pool_at p' (make_pool_key host port) @ c # dead"
      "conn = Some (mark_used now c)"
    | (fresh) now where "conn = Some (new_connection i (host, port) now)"
        "pool_at p' (make_pool_key host port) = []"
    | (failed) "conn = None" "pool_at p' (make_pool_key host port) = []"
proof (cases "borrow_loop (idle_timeout (pool_config p)) nows 0 (pool_at p (make_pool_key host port))")
  case (Pair r rest)
  note r = borrow_loop_result [where idle = "idle_timeout (pool_config p)" and nows = nows and i = 0
      and pool = "pool_at p (make_pool_key host port)", unfolded Pair prod.case]
  show ?thesis
  proof (cases r)
    case None
    with assms Pair r have "pool_at p' (make_pool_key host port) = []"
      "conn = fst (create_new_connection i host port outcome)"
      by (auto simp: borrow_connection_def)
    then show ?thesis
      by (cases outcome) (auto simp: create_new_connection_def split: if_splits intro: fresh failed)
  next
    case (Some c)
    with assms Pair have p': "pool_at p' (make_pool_key host port) = rest" "conn = Some c"
      by (auto simp: borrow_connection_def)
    from r Some obtain c0 dead where
      "pool_at p (make_pool_key host port) = rest @ c0 # dead" "c = mark_used (nows (Suc (length dead))) c0"
      by auto
    with p' show ?thesis by (intro reuse) simp_all
  qed
qed

lemma borrow_connection_frame:
  assumes "borrow_connection i nows outcome host port p = ((conn, error), p')"
  shows "pool_config p' = pool_config p"
    and "key \<noteq> make_pool_key host port \<Longrightarrow> pool_at p' key = pool_at p key"
  using assms by (auto simp: borrow_connection_def Let_def split: prod.splits option.splits)

lemma borrow_connection_subseq:
  assumes "borrow_connection i nows outcome host port p = ((conn, error), p')"
  shows "subseq (pool_at p' key) (pool_at p key)"
proof (cases "key = make_pool_key host port")
  case True
  from assms show ?thesis
    by (cases rule: borrow_connection_cases) (simp_all add: True prefix_imp_subseq [OF prefixI])
next
  case False
  with borrow_connection_frame(2) [OF assms] show ?thesis by simp
qed

lemma drop_id_ids: "map conn_id (drop_id i cs) = filter (\<lambda>j. j \<noteq> i) (map conn_id cs)"
  by (induction cs) (simp_all add: drop_id_def)

lemma pool_inv_borrow:
  assumes inv: "pool_inv cfg s"
  shows "pool_inv cfg (pool_step s (Borrow nows outcome host port))"
proof -
  let ?key = "make_pool_key host port"
  obtain conn error p where
    b: "borrow_connection (next_id s) nows outcome host port (the_pool s) = ((conn, error), p)"
    by (metis surj_pair)
  define t where "t = s\<lparr>the_pool := p, next_id := Suc (next_id s),
     borrowed := (case conn of None \<Rightarrow> borrowed s | Some c \<Rightarrow> c # borrowed s)\<rparr>"
  have t: "pool_step s (Borrow nows outcome host port) = t" "the_pool t = p" "next_id t = Suc (next_id s)"
    "held_ids t = (case conn of None \<Rightarrow> held_ids s | Some c \<Rightarrow> conn_id c # held_ids s)"
    by (simp_all add: t_def b held_ids_def split: option.split)
  have shrink: "pool_inv cfg t" if held: "distinct (held_ids t)" "\<And>i. i \<in> set (held_ids t) \<Longrightarrow> i < next_id t"
    and free: "\<And>i key. i \<in> set (held_ids t) \<Longrightarrow> i \<in> set (held_ids s) \<or> i \<notin> set (pool_ids (the_pool t) key)"
    using inv borrow_connection_frame(1) [OF b] borrow_connection_subseq [OF b] held free
    by (intro pool_inv_shrink [OF inv]) (simp_all add: t)
  note d = pool_invD [OF inv]
  from b have "pool_inv cfg t"
  proof (cases rule: borrow_connection_cases)
    case (reuse c dead now)
    then have ids: "pool_ids (the_pool s) ?key = pool_ids p ?key @ conn_id c # map conn_id dead"
      "held_ids t = conn_id c # held_ids s"
      using t(4) by (simp_all add: pool_ids_def mark_used_def)
    then have c: "conn_id c \<in> set (pool_ids (the_pool s) ?key)" "conn_id c \<notin> set (pool_ids p ?key)"
      using d(3) [of ?key] by auto
    show ?thesis
    proof (rule shrink)
      show "distinct (held_ids t)" using ids(2) c(1) d(5) [of ?key] d(7) by auto
      show "i < next_id t" if "i \<in> set (held_ids t)" for i
        using that ids(2) d(8) [of i] pool_id_below [OF inv c(1)] t(3) by auto
      show "i \<in> set (held_ids s) \<or> i \<notin> set (pool_ids (the_pool t) key)" if "i \<in> set (held_ids t)" for i key
      proof (cases "key = ?key")
        case False
        with borrow_connection_frame(2) [OF b] d(6) [OF False] c(1) that ids(2) t(2)
        show ?thesis by (auto simp: pool_ids_def)
      qed (use that ids(2) c(2) t(2) in auto)
    qed
  next
    case (fresh now)
    then have ids: "held_ids t = next_id s # held_ids s" using t(4) by (simp add: new_connection_def)
    have new: "next_id s \<notin> set (pool_ids p key)" for key
      using pool_id_below [OF inv, of _ key] subseq_pool_ids(2) [of p key "the_pool s"] borrow_connection_subseq [OF b] by blast
    show ?thesis
    proof (rule shrink)
      show "distinct (held_ids t)" using ids d(7,8) by auto
      show "i < next_id t" if "i \<in> set (held_ids t)" for i
        using that ids d(8) [of i] t(3) by auto
      show "i \<in> set (held_ids s) \<or> i \<notin> set (pool_ids (the_pool t) key)" if "i \<in> set (held_ids t)" for i key
        using that ids new t(2) by auto
    qed
  next
    case failed
    then have ids: "held_ids t = held_ids s" using t(4) by simp
    show ?thesis
      by (rule shrink) (use ids d(7,8) t(3) in \<open>auto intro: less_SucI\<close>)
  qed
  with t(1) show ?thesis by simp
qed

lemma return_connection_pool_at:
  "pool_config (return_connection now host port (Some c) p) = pool_config p
   \<and> (pool_at (return_connection now host port (Some c) p) = pool_at p
      \<or> (socket_open c
          \<and> length (pool_at p (make_pool_key host port)) < unat (max_connections_per_host (pool_config p))
          \<and> pool_at (return_connection now host port (Some c) p) =
              (pool_at p)(make_pool_key host port := pool_at p (make_pool_key host port) @ [c])))"
proof (cases "check_health (idle_timeout (pool_config p)) now c = kHealthy")
  case True
  then have "socket_open c" by (simp add: check_health_def Let_def split: if_splits)
  with True show ?thesis by (auto simp: return_connection_def Let_def)
next
  case False
  then show ?thesis by (simp add: return_connection_def)
qed

lemma pool_inv_return:
  assumes inv: "pool_inv cfg s"
  shows "pool_inv cfg (pool_step s (Return now i host port))"
proof (cases "find (\<lambda>c. conn_id c = i) (borrowed s)")
  case None
  with inv show ?thesis by simp
next
  case (Some c)
  then have c: "c \<in> set (borrowed s)" "conn_id c = i" by (auto simp: find_Some_iff)
  let ?key = "make_pool_key host port"
  define t where "t = pool_step s (Return now i host port)"
  have t: "the_pool t = return_connection now host port (Some c) (the_pool s)"
    "held_ids t = filter (\<lambda>j. j \<noteq> i) (held_ids s)" "next_id t = next_id s"
    by (simp_all add: t_def Some held_ids_def drop_id_ids)
  note d = pool_invD [OF inv]
  have i: "i \<in> set (held_ids s)" using c by (auto simp: held_ids_def)
  have held: "distinct (held_ids t)" "j \<in> set (held_ids t) \<Longrightarrow> j < next_id t" for j
    using d(7,8) t(2,3) by auto
  from return_connection_pool_at [of now host port c "the_pool s"] consider
      "pool_at (the_pool t) = pool_at (the_pool s)"
    | "socket_open c" "length (pool_at (the_pool s) ?key) < unat (max_connections_per_host cfg)"
      "pool_at (the_pool t) = (pool_at (the_pool s))(?key := pool_at (the_pool s) ?key @ [c])"
    using d(1) t(1) by auto
  then have "pool_inv cfg t"
  proof cases
    case 1
    show ?thesis
      by (rule pool_inv_shrink [OF inv]) (use 1 held t return_connection_pool_at in auto)
  next
    case 2
    have ids: "pool_ids (the_pool t) key = (if key = ?key then pool_ids (the_pool s) key @ [i] else pool_ids (the_pool s) key)" for key
      using 2(3) c(2) by (simp add: pool_ids_def)
    have out: "i \<notin> set (pool_ids (the_pool s) key)" for key using d(5) [of key] i by blast
    show ?thesis
    proof (rule pool_invI)
      show "pool_config (the_pool t) = cfg" using return_connection_pool_at t(1) d(1) by simp
      show "length (pool_at (the_pool t) key) \<le> unat (max_connections_per_host cfg)" for key
        using 2(2,3) d(2) [of key] by simp
      show "distinct (pool_ids (the_pool t) key)" for key using ids [of key] d(3) [of key] out [of key] by auto
      show "pooled_ok (next_id t) x" if "x \<in> set (pool_at (the_pool t) key)" for key x
        using that 2(1,3) d(4) [of x key] d(8) [OF i] c(2) t(3) by (auto simp: pooled_ok_def split: if_splits)
      show "set (pool_ids (the_pool t) key) \<inter> set (held_ids t) = {}" for key
        using ids [of key] t(2) d(5) [of key] by auto
      show "set (pool_ids (the_pool t) key) \<inter> set (pool_ids (the_pool t) key') = {}" if "key \<noteq> key'" for key key'
        using that ids [of key] ids [of key'] out [of key] out [of key'] d(6) [OF that] by auto
    qed (use held in auto)
  qed
  then show ?thesis by (simp add: t_def)
qed

lemma pool_inv_step: "pool_inv cfg s \<Longrightarrow> pool_inv cfg (pool_step s op)"
proof (cases op)
  case (Discard i)
  assume inv: "pool_inv cfg s"
  note d = pool_invD [OF inv]
  show ?thesis
    by (rule pool_inv_shrink [OF inv])
       (use d(7,8) in \<open>auto simp: Discard held_ids_def drop_id_ids simp del: set_map\<close>)
next
  case (CloseSocket i)
  assume inv: "pool_inv cfg s"
  note d = pool_invD [OF inv]
  have "held_ids (pool_step s op) = held_ids s"
    by (auto simp: CloseSocket held_ids_def)
  then show ?thesis
    by (intro pool_inv_shrink [OF inv]) (use d(7,8) CloseSocket in simp_all)
next
  case (CleanupIdle nows)
  assume inv: "pool_inv cfg s"
  note d = pool_invD [OF inv]
  have "held_ids (pool_step s op) = held_ids s" by (simp add: CleanupIdle held_ids_def)
  then show ?thesis
    by (intro pool_inv_shrink [OF inv])
       (use d(7,8) CleanupIdle in \<open>simp_all add: erase_unhealthy_subseq cleanup_idle_connections_def [THEN arg_cong [where f = pool_config]]\<close>)
qed (simp_all add: pool_inv_borrow pool_inv_return del: pool_step.simps)

interpretation upstream_pool: machine pool_step "pool_inv cfg" for cfg
  by unfold_locales (rule pool_inv_step)

lemma new_system_inv: "pool_inv cfg (new_system cfg)"
  by (simp add: pool_inv_def new_system_def pool_ids_def held_ids_def pool_at_def new_pool_def)

text \<open>Which host and port the connections of a pool are connected to.\<close>

definition peers_ok :: "pool_system \<Rightarrow> bool" where
  "peers_ok s \<longleftrightarrow>
     (\<forall>key. \<forall>c\<in>set (pool_at (the_pool s) key). key = make_pool_key (fst (conn_peer c)) (snd (conn_peer c)))"

lemma peers_ok_pool:
  "peers_ok s \<Longrightarrow> c \<in> set (pool_at (the_pool s) (make_pool_key host port)) \<Longrightarrow> conn_peer c = (host, port)"
  by (cases "conn_peer c") (force simp: peers_ok_def)

lemma peers_ok_subseq:
  "peers_ok s \<Longrightarrow> (\<And>key. subseq (pool_at (the_pool t) key) (pool_at (the_pool s) key)) \<Longrightarrow> peers_ok t"
  using subseq_pool_ids(1) unfolding peers_ok_def by blast

lemma peers_ok_step:
  assumes "peers_ok s" "own_return s op"
  shows "peers_ok (pool_step s op)"
proof (cases op)
  case (Borrow nows outcome host port)
  obtain conn error p where
    b: "borrow_connection (next_id s) nows outcome host port (the_pool s) = ((conn, error), p)"
    by (metis surj_pair)
  then have "the_pool (pool_step s op) = p" by (simp add: Borrow)
  with borrow_connection_subseq [OF b] show ?thesis by (intro peers_ok_subseq [OF assms(1)]) simp
next
  case (Return now i host port)
  show ?thesis
  proof (cases "find (\<lambda>c. conn_id c = i) (borrowed s)")
    case None
    with Return assms(1) show ?thesis by simp
  next
    case (Some c)
    then have peer: "conn_peer c = (host, port)" using assms(2) Return by simp
    have "the_pool (pool_step s op) = return_connection now host port (Some c) (the_pool s)"
      by (simp add: Return Some)
    with return_connection_pool_at [of now host port c "the_pool s"] assms(1) peer show ?thesis
      by (auto simp: peers_ok_def simp del: make_pool_key_inject split: if_splits)
  qed
next
  case (CleanupIdle nows)
  then show ?thesis by (intro peers_ok_subseq [OF assms(1)]) (simp add: erase_unhealthy_subseq)
qed (use assms(1) in \<open>simp_all add: peers_ok_def\<close>)

lemma peers_ok_run: "peers_ok s \<Longrightarrow> own_returns s ops \<Longrightarrow> peers_ok (foldl pool_step s ops)"
  by (induction ops arbitrary: s) (simp_all add: peers_ok_step)

lemma new_system_peers: "peers_ok (new_system cfg)"
  by (simp add: peers_ok_def new_system_def pool_at_def new_pool_def)

text \<open>
  C10 (invariant): after any sequence of borrowing, returning, dropping, closing and cleaning,
  at any clock readings and connection outcomes, every connection has exactly one owner, no
  pool holds more than the configured number of connections, and a pool holds only open
  connections; and if the clients give connections back under the host and port they are
  connected to, the pool of a host and port holds only connections to exactly that host and port.
\<close>

theorem pool_invariant:
  assumes "s = foldl pool_step (new_system cfg) ops"
  shows "pool_inv cfg s
    \<and> (own_returns (new_system cfg) ops \<longrightarrow>
         (\<forall>host port. \<forall>c\<in>set (pool_at (the_pool s) (make_pool_key host port)). conn_peer c = (host, port)))"
  using upstream_pool.inv_run [OF new_system_inv] peers_ok_run [OF new_system_peers] peers_ok_pool assms by blast

text \<open>A connection is borrowed and given back; another one, to another port, is in use.\<close>

definition demo_ops :: "pool_op list" where
  "demo_ops = [Borrow (\<lambda>_. 5) (Connected 5) ''h'' 80, Borrow (\<lambda>_. 6) (Connected 6) ''h'' 81, Return 7 0 ''h'' 80]"

definition demo_pooled :: upstream_connection where
  "demo_pooled = new_connection 0 (''h'', 80) 5"

lemma demo_pool_run:
  fixes s :: pool_system
  assumes "s = foldl pool_step (new_system default_upstream_config) demo_ops"
  shows "pool_at (the_pool s) (make_pool_key ''h'' 80) = [demo_pooled]"
    and "next_id s = 2" "held_ids s = [1]" "pool_config (the_pool s) = default_upstream_config"
    and "own_returns (new_system default_upstream_config) demo_ops"
  by (simp_all add: assms demo_ops_def new_system_def new_pool_def borrow_connection_def return_connection_def
      create_new_connection_def pool_at_def new_connection_def healthy_iff drop_id_def held_ids_def
      demo_pooled_def default_upstream_config_def Let_def)

theorem pool_invariant_witness:
  "conn_peer demo_pooled = (''h'', 80)
   \<and> pool_inv default_upstream_config (foldl pool_step (new_system default_upstream_config) demo_ops)"
  using pool_invariant [OF refl, of default_upstream_config demo_ops] demo_pool_run(1,5) [OF refl] by simp

text \<open>
  C26 (safety): the connection a request is given for a host and port is owned by no pool and by
  no other client; and it is connected to that host and port, when the clients give connections
  back under the host and port they are connected to.
\<close>

theorem borrowed_connection_exclusive:
  assumes "s = foldl pool_step (new_system cfg) ops"
    and "borrow_connection (next_id s) nows outcome host port (the_pool s) = ((Some c, error), p)"
  shows "(own_returns (new_system cfg) ops \<longrightarrow> conn_peer c = (host, port))
    \<and> (\<forall>key. conn_id c \<notin> set (pool_ids p key)) \<and> conn_id c \<notin> set (held_ids s)"
proof -
  have inv: "pool_inv cfg s" unfolding assms(1) by (rule upstream_pool.inv_run [OF new_system_inv])
  have "pool_step s (Borrow nows outcome host port) =
      s\<lparr>the_pool := p, next_id := Suc (next_id s), borrowed := c # borrowed s\<rparr>"
    using assms(2) by simp
  with pool_inv_borrow [OF inv, of nows outcome host port]
  have step: "pool_inv cfg (s\<lparr>the_pool := p, next_id := Suc (next_id s), borrowed := c # borrowed s\<rparr>)"
    by metis
  have "conn_id c \<notin> set (pool_ids p key)" for key
    using pool_invD(5) [OF step, of key] by (simp add: held_ids_def)
  moreover have "conn_id c \<notin> set (held_ids s)"
    using pool_invD(7) [OF step] by (simp add: held_ids_def)
  moreover have "conn_peer c = (host, port)" if own: "own_returns (new_system cfg) ops"
    using assms(2)
  proof (cases rule: borrow_connection_cases)
    case (reuse c0 dead now)
    then have "c0 \<in> set (pool_at (the_pool s) (make_pool_key host port))" by simp
    with peers_ok_run [OF new_system_peers own] peers_ok_pool reuse(2) show ?thesis
      by (simp add: assms(1) mark_used_def)
  qed (simp_all add: new_connection_def)
  ultimately show ?thesis by simp
qed

text \<open>The next request for the same host and port is given the pooled connection.\<close>

theorem borrowed_connection_exclusive_witness:
  "\<exists>c error p. borrow_connection 2 (\<lambda>_. 8) OtherException ''h'' 80
      (the_pool (foldl pool_step (new_system default_upstream_config) demo_ops)) = ((Some c, error), p)
    \<and> conn_id c = 0 \<and> conn_peer c = (''h'', 80) \<and> 0 \<notin> set (pool_ids p (make_pool_key ''h'' 80))"
proof -
  let ?s = "foldl pool_step (new_system default_upstream_config) demo_ops"
  note s = demo_pool_run [OF refl]
  obtain error p where b: "borrow_connection 2 (\<lambda>_. 8) OtherException ''h'' 80 (the_pool ?s)
      = ((Some (mark_used 8 demo_pooled), error), p)"
    using s(1,4) by (simp add: borrow_connection_def borrow_loop_snoc [of _ _ _ "[]", simplified] healthy_iff
        default_upstream_config_def demo_pooled_def new_connection_def)
  have i: "conn_id (mark_used 8 demo_pooled) = 0"
    by (simp add: mark_used_def demo_pooled_def new_connection_def)
  from borrowed_connection_exclusive [OF refl, of default_upstream_config demo_ops "\<lambda>_. 8" OtherException
      "''h''" 80 "mark_used 8 demo_pooled" error p] b s(2,5) i
  have "conn_peer (mark_used 8 demo_pooled) = (''h'', 80)" "0 \<notin> set (pool_ids p (make_pool_key ''h'' 80))" by metis+
  with b i show ?thesis by blast
qed

text \<open>
  The configured maximum bounds the idle connections only: however small it is,
  any number of connections to one host can be borrowed at once.
\<close>

theorem borrowed_unbounded:
  "length (borrowed (foldl pool_step (new_system cfg) (replicate n (Borrow nows (Connected now) host port)))) = n"
proof -
  have "length (borrowed (foldl pool_step s (replicate n (Borrow nows (Connected now) host port)))) =
      n + length (borrowed s)" if "pool_at (the_pool s) (make_pool_key host port) = []" for s
    using that
    by (induction n arbitrary: s) (simp_all add: borrow_connection_def create_new_connection_def Let_def)
  from this [of "new_system cfg"] show ?thesis
    by (simp add: new_system_def new_pool_def pool_at_def)
qed

end
