(* ===== verification/Config_Snapshot.thy ===== *)
theory Config_Snapshot imports Prelude begin

text \<open>
  \<^verbatim>\<open>include/netp2/config/config_snapshot.h\<close>: the manager that publishes configuration
  snapshots to concurrent readers. Each task (a thread or a coroutine) runs \<^verbatim>\<open>publish\<close> or
  \<^verbatim>\<open>load\<close> in small steps that interleave with those of all the others. A \<^verbatim>\<open>shared_ptr\<close> is two
  words, the pointer and the control block, which are read and written one at a time; a
  control block counts its owners, and the snapshot is destroyed when the count falls to
  zero. The shared mutex is the standard library's: an exclusive holder excludes all others.
\<close>

section \<open>State\<close>

text \<open>
  Where a task is. \<open>Built\<close>: it has built a snapshot and calls \<^verbatim>\<open>publish\<close>. \<open>WLocked\<close>,
  \<open>WPtr\<close>, \<open>WRelease\<close>, \<open>WUnlock\<close>: it holds the exclusive lock, before the assignment, after
  its first and its second word, and after the old snapshot is released. \<open>RLocked\<close>,
  \<open>RPtr\<close>, \<open>RUnlock\<close>: it holds the shared lock in \<^verbatim>\<open>load\<close>, before, between and after
  the two words of the copy. \<open>Holding p c\<close>: \<^verbatim>\<open>load\<close> has returned the pointer \<open>p\<close> with the
  control block \<open>c\<close>.
\<close>

datatype task_pc =
    Idle
  | Built "nat option"
  | WLocked "nat option"
  | WPtr "nat option"
  | WRelease "nat option"
  | WUnlock
  | RLocked
  | RPtr "nat option"
  | RUnlock "nat option" "nat option"
  | Holding "nat option" "nat option"

record 'v manager =
  objects :: "nat \<Rightarrow> 'v option"
  use_count :: "nat \<Rightarrow> nat"
  current_ptr :: "nat option"
  current_ctrl :: "nat option"
  task :: "nat \<Rightarrow> task_pc"
  next_object :: nat

definition new_manager :: "'v manager" where
  "new_manager = \<lparr>objects = (\<lambda>_. None), use_count = (\<lambda>_. 0), current_ptr = None, current_ctrl = None,
     task = (\<lambda>_. Idle), next_object = 0\<rparr>"

fun exclusive_pc :: "task_pc \<Rightarrow> bool" where
  "exclusive_pc (WLocked _) = True"
| "exclusive_pc (WPtr _) = True"
| "exclusive_pc (WRelease _) = True"
| "exclusive_pc WUnlock = True"
| "exclusive_pc _ = False"

fun shared_pc :: "task_pc \<Rightarrow> bool" where
  "shared_pc RLocked = True"
| "shared_pc (RPtr _) = True"
| "shared_pc (RUnlock _ _) = True"
| "shared_pc _ = False"

text \<open>The control block a task owns a share of.\<close>

fun owned :: "task_pc \<Rightarrow> nat option" where
  "owned (Built i) = i"
| "owned (WLocked i) = i"
| "owned (WPtr i) = i"
| "owned (WRelease old) = old"
| "owned (RUnlock p c) = c"
| "owned (Holding p c) = c"
| "owned _ = None"

section \<open>Steps\<close>

definition set_task :: "nat \<Rightarrow> task_pc \<Rightarrow> 'v manager \<Rightarrow> 'v manager" where
  "set_task t pc s = s\<lparr>task := (task s)(t := pc)\<rparr>"

definition acquire :: "nat option \<Rightarrow> 'v manager \<Rightarrow> 'v manager" where
  "acquire c s =
     (case c of None \<Rightarrow> s | Some i \<Rightarrow> s\<lparr>use_count := (use_count s)(i := Suc (use_count s i))\<rparr>)"

text \<open>Releasing a share decrements the count and destroys the snapshot at zero.\<close>

definition release :: "nat option \<Rightarrow> 'v manager \<Rightarrow> 'v manager" where
  "release c s =
     (case c of
        None \<Rightarrow> s
      | Some i \<Rightarrow>
          s\<lparr>use_count := (use_count s)(i := use_count s i - 1),
            objects := (if use_count s i = 1 then (objects s)(i := None) else objects s)\<rparr>)"

definition allocate :: "'v \<Rightarrow> 'v manager \<Rightarrow> 'v manager" where
  "allocate v s = s\<lparr>objects := (objects s)(next_object s \<mapsto> v),
     use_count := (use_count s)(next_object s := 1), next_object := Suc (next_object s)\<rparr>"

inductive manager_step :: "'v manager \<Rightarrow> 'v manager \<Rightarrow> bool" where
  build: "task s t = Idle \<Longrightarrow>
     manager_step s (set_task t (Built (Some (next_object s))) (allocate v s))"
| build_null: "task s t = Idle \<Longrightarrow> manager_step s (set_task t (Built None) s)"
| lock: "task s t = Built i \<Longrightarrow> \<forall>u. \<not> exclusive_pc (task s u) \<and> \<not> shared_pc (task s u) \<Longrightarrow>
     manager_step s (set_task t (WLocked i) s)"
| write_ptr: "task s t = WLocked i \<Longrightarrow>
     manager_step s (set_task t (WPtr i) (s\<lparr>current_ptr := i\<rparr>))"
| write_ctrl: "task s t = WPtr i \<Longrightarrow>
     manager_step s (set_task t (WRelease (current_ctrl s)) (s\<lparr>current_ctrl := i\<rparr>))"
| release_old: "task s t = WRelease old \<Longrightarrow> manager_step s (set_task t WUnlock (release old s))"
| unlock: "task s t = WUnlock \<Longrightarrow> manager_step s (set_task t Idle s)"
| lock_shared: "task s t = Idle \<Longrightarrow> \<forall>u. \<not> exclusive_pc (task s u) \<Longrightarrow>
     manager_step s (set_task t RLocked s)"
| read_ptr: "task s t = RLocked \<Longrightarrow> manager_step s (set_task t (RPtr (current_ptr s)) s)"
| read_ctrl: "task s t = RPtr p \<Longrightarrow>
     manager_step s (set_task t (RUnlock p (current_ctrl s)) (acquire (current_ctrl s) s))"
| unlock_shared: "task s t = RUnlock p c \<Longrightarrow> manager_step s (set_task t (Holding p c) s)"
| drop: "task s t = Holding p c \<Longrightarrow> manager_step s (set_task t Idle (release c s))"

definition reachable_manager :: "'v manager \<Rightarrow> bool" where
  "reachable_manager s \<longleftrightarrow> manager_step\<^sup>*\<^sup>* new_manager s"

section \<open>Invariant\<close>

definition owners :: "'v manager \<Rightarrow> nat \<Rightarrow> nat set" where
  "owners s i = {t. owned (task s t) = Some i}"

text \<open>At most one task is in \<^verbatim>\<open>publish\<close>, and then none is in \<^verbatim>\<open>load\<close>.\<close>

definition locks_ok :: "'v manager \<Rightarrow> bool" where
  "locks_ok s \<longleftrightarrow> (\<forall>t u. exclusive_pc (task s t) \<and> (exclusive_pc (task s u) \<or> shared_pc (task s u)) \<longrightarrow> t = u)"

text \<open>The two words of the current snapshot differ only in the middle of an assignment.\<close>

definition words_ok :: "'v manager \<Rightarrow> bool" where
  "words_ok s \<longleftrightarrow>
     (\<forall>t i. task s t = WPtr i \<longrightarrow> current_ptr s = i)
     \<and> ((\<forall>t i. task s t \<noteq> WPtr i) \<longrightarrow> current_ptr s = current_ctrl s)
     \<and> (\<forall>t p. task s t = RPtr p \<longrightarrow> current_ptr s = p)
     \<and> (\<forall>t p c. task s t = RUnlock p c \<or> task s t = Holding p c \<longrightarrow> p = c)"

text \<open>A count is the number of shares, and a snapshot lives as long as its count is not zero.\<close>

definition counts_ok :: "'v manager \<Rightarrow> bool" where
  "counts_ok s \<longleftrightarrow>
     finite {t. task s t \<noteq> Idle}
     \<and> (\<forall>i. use_count s i = card (owners s i) + (if current_ctrl s = Some i then 1 else 0))
     \<and> (\<forall>i. objects s i = None \<longleftrightarrow> use_count s i = 0)
     \<and> (\<forall>i\<ge>next_object s. use_count s i = 0)"

definition manager_inv :: "'v manager \<Rightarrow> bool" where
  "manager_inv s \<longleftrightarrow> locks_ok s \<and> words_ok s \<and> counts_ok s"

lemma set_task_simps [simp]:
  "task (set_task t pc s) u = (if u = t then pc else task s u)"
  "current_ptr (set_task t pc s) = current_ptr s" "current_ctrl (set_task t pc s) = current_ctrl s"
  "use_count (set_task t pc s) = use_count s" "objects (set_task t pc s) = objects s"
  "next_object (set_task t pc s) = next_object s"
  by (simp_all add: set_task_def)

lemma acquire_simps [simp]:
  "task (acquire c s) = task s" "current_ptr (acquire c s) = current_ptr s"
  "current_ctrl (acquire c s) = current_ctrl s" "next_object (acquire c s) = next_object s"
  "objects (acquire c s) = objects s"
  "use_count (acquire c s) i = (if c = Some i then Suc (use_count s i) else use_count s i)"
  by (auto simp: acquire_def split: option.split)

lemma release_simps [simp]:
  "task (release c s) = task s" "current_ptr (release c s) = current_ptr s"
  "current_ctrl (release c s) = current_ctrl s" "next_object (release c s) = next_object s"
  "use_count (release c s) i = (if c = Some i then use_count s i - 1 else use_count s i)"
  "objects (release c s) i = (if c = Some i \<and> use_count s i = 1 then None else objects s i)"
  by (auto simp: release_def split: option.split)

lemma allocate_simps [simp]:
  "task (allocate v s) = task s" "current_ptr (allocate v s) = current_ptr s"
  "current_ctrl (allocate v s) = current_ctrl s" "next_object (allocate v s) = Suc (next_object s)"
  "use_count (allocate v s) i = (if i = next_object s then 1 else use_count s i)"
  "objects (allocate v s) i = (if i = next_object s then Some v else objects s i)"
  by (simp_all add: allocate_def)

lemma locks_ok_congr: "task s' = task s \<Longrightarrow> locks_ok s' = locks_ok s"
  by (simp add: locks_ok_def)

lemma locks_ok_set_task:
  assumes "locks_ok s" "exclusive_pc pc \<longrightarrow> exclusive_pc (task s t)"
    and "shared_pc pc \<longrightarrow> shared_pc (task s t)"
  shows "locks_ok (set_task t pc s)"
  using assms unfolding locks_ok_def by (metis set_task_simps(1))

lemma locks_ok_step: "manager_step s s' \<Longrightarrow> locks_ok s \<Longrightarrow> locks_ok s'"
proof (induction rule: manager_step.induct)
  case (lock s t i)
  then show ?case by (auto simp: locks_ok_def)
next
  case (lock_shared s t)
  then show ?case by (auto simp: locks_ok_def)
qed (auto intro!: locks_ok_set_task simp: locks_ok_def)

text \<open>What the locks say of the other tasks while one writes, or while one reads.\<close>

lemma locks_okD:
  "locks_ok s \<Longrightarrow> exclusive_pc (task s t) \<Longrightarrow> u \<noteq> t \<Longrightarrow> \<not> exclusive_pc (task s u) \<and> \<not> shared_pc (task s u)"
  "locks_ok s \<Longrightarrow> shared_pc (task s t) \<Longrightarrow> \<not> exclusive_pc (task s u)"
  unfolding locks_ok_def by (metis, metis exclusive_pc.simps(5,6,7,8,9,10) shared_pc.elims(2))

lemma words_okD:
  assumes "words_ok s"
  shows "task s t = WPtr i \<Longrightarrow> current_ptr s = i"
    and "\<forall>t i. task s t \<noteq> WPtr i \<Longrightarrow> current_ptr s = current_ctrl s"
    and "task s t = RPtr p \<Longrightarrow> current_ptr s = p"
    and "task s t = RUnlock p c \<Longrightarrow> p = c" and "task s t = Holding p c \<Longrightarrow> p = c"
  using assms by (auto simp: words_ok_def)

text \<open>A task that moves outside the assignment and the copy leaves the words alone.\<close>

lemma words_ok_set_task:
  assumes "words_ok s" "current_ptr s' = current_ptr s" "current_ctrl s' = current_ctrl s"
    and "task s' = (task s)(t := pc)"
    and "\<forall>i. task s t \<noteq> WPtr i" "\<forall>i. pc \<noteq> WPtr i"
    and "\<forall>p. pc = RPtr p \<longrightarrow> p = current_ptr s" "\<forall>p c. pc = RUnlock p c \<or> pc = Holding p c \<longrightarrow> p = c"
  shows "words_ok s'"
proof -
  have "(\<forall>u i. task s' u \<noteq> WPtr i) \<longleftrightarrow> (\<forall>u i. task s u \<noteq> WPtr i)"
    using assms(4-6) by (metis fun_upd_apply)
  then have "(\<forall>u i. task s' u \<noteq> WPtr i) \<longrightarrow> current_ptr s' = current_ctrl s'"
    using words_okD(2) [OF assms(1)] assms(2,3) by simp
  moreover have "\<forall>u i. task s' u = WPtr i \<longrightarrow> current_ptr s' = i"
    using assms(2,4,6) words_okD(1) [OF assms(1)] by simp
  moreover have "\<forall>u p. task s' u = RPtr p \<longrightarrow> current_ptr s' = p"
    using assms(2,4,7) words_okD(3) [OF assms(1)] by simp
  moreover have "\<forall>u p c. task s' u = RUnlock p c \<or> task s' u = Holding p c \<longrightarrow> p = c"
    using assms(4,8) words_okD(4,5) [OF assms(1)] by simp
  ultimately show ?thesis by (simp only: words_ok_def)
qed

lemma words_ok_step:
  assumes "manager_step s s'" "locks_ok s" "words_ok s"
  shows "words_ok s'"
  using assms
proof (cases rule: manager_step.cases)
  case (write_ptr t i)
  then have "\<And>u. u \<noteq> t \<Longrightarrow> \<not> exclusive_pc (task s u) \<and> \<not> shared_pc (task s u)"
    using locks_okD(1) [OF assms(2), of t] by simp
  then have "\<And>u j. u \<noteq> t \<Longrightarrow> task s u \<noteq> WPtr j \<and> task s u \<noteq> RPtr j" by fastforce
  with write_ptr words_okD(4,5) [OF assms(3)] show ?thesis by (auto simp: words_ok_def)
next
  case (write_ctrl t i)
  then have "\<And>u. u \<noteq> t \<Longrightarrow> \<not> exclusive_pc (task s u) \<and> \<not> shared_pc (task s u)"
    using locks_okD(1) [OF assms(2), of t] by simp
  then have "\<And>u j. u \<noteq> t \<Longrightarrow> task s u \<noteq> WPtr j \<and> task s u \<noteq> RPtr j" by fastforce
  moreover have "current_ptr s = i" using write_ctrl words_okD(1) [OF assms(3)] by simp
  ultimately show ?thesis using write_ctrl words_okD(4,5) [OF assms(3)] by (auto simp: words_ok_def)
next
  case (read_ctrl t p)
  have "\<not> exclusive_pc (task s u)" for u
    using locks_okD(2) [OF assms(2), of t] read_ctrl(2) by simp
  then have "\<forall>u i. task s u \<noteq> WPtr i" by (metis exclusive_pc.simps(2))
  then have "p = current_ctrl s" using words_okD(2,3) [OF assms(3)] read_ctrl(2) by metis
  with read_ctrl show ?thesis
    by (intro words_ok_set_task [OF assms(3), where t = t and pc = "RUnlock p (current_ctrl s)"])
       (simp_all add: fun_eq_iff)
qed (auto intro!: words_ok_set_task [OF assms(3)] simp: fun_eq_iff dest: words_okD(4) [OF assms(3)])

section \<open>Counting the shares\<close>

definition share :: "nat option \<Rightarrow> nat \<Rightarrow> nat" where
  "share c i = (if c = Some i then 1 else 0)"

lemma counts_okD:
  assumes "counts_ok s"
  shows "finite (owners s i)" and "use_count s i = card (owners s i) + share (current_ctrl s) i"
    and "objects s i = None \<longleftrightarrow> use_count s i = 0"
    and "next_object s \<le> i \<Longrightarrow> use_count s i = 0"
proof -
  have "owners s i \<subseteq> {t. task s t \<noteq> Idle}" by (auto simp: owners_def)
  with assms show "finite (owners s i)" unfolding counts_ok_def by (blast intro: finite_subset)
qed (use assms [unfolded counts_ok_def, folded share_def] in blast)+

lemma card_owners_update:
  assumes "finite (owners s i)" "task s' = (task s)(t := pc)"
  shows "card (owners s' i) + share (owned (task s t)) i = card (owners s i) + share (owned pc) i"
proof -
  have o: "owners s' i = (if owned pc = Some i then insert t (owners s i - {t}) else owners s i - {t})"
    using assms(2) by (auto simp: owners_def)
  have "card (owners s i - {t}) + share (owned (task s t)) i = card (owners s i)"
  proof (cases "owned (task s t) = Some i")
    case True
    then have "t \<in> owners s i" by (simp add: owners_def)
    with assms(1) have "Suc (card (owners s i - {t})) = card (owners s i)"
      by (intro card_Suc_Diff1)
    with True show ?thesis by (simp add: share_def)
  next
    case False
    then have "owners s i - {t} = owners s i" by (auto simp: owners_def)
    with False show ?thesis by (simp add: share_def)
  qed
  moreover have "card (owners s' i) = card (owners s i - {t}) + share (owned pc) i"
    using assms(1) by (simp add: o share_def card.insert_remove)
  ultimately show ?thesis by simp
qed

text \<open>
  A step is accounted for when what the count of every snapshot gains is what the task and
  the manager's own share gain, and when the snapshot's life follows its count.
\<close>

lemma counts_ok_update:
  assumes ok: "counts_ok s" and t: "task s' = (task s)(t := pc)"
    and cnt: "\<And>i. use_count s' i + share (owned (task s t)) i + share (current_ctrl s) i
                = use_count s i + share (owned pc) i + share (current_ctrl s') i"
    and obj: "\<And>i. objects s' i = None \<longleftrightarrow> use_count s' i = 0"
    and fresh: "\<And>i. next_object s' \<le> i \<Longrightarrow> use_count s' i = 0"
  shows "counts_ok s'"
proof -
  have "{u. task s' u \<noteq> Idle} \<subseteq> insert t {u. task s u \<noteq> Idle}" using t by auto
  then have fin: "finite {u. task s' u \<noteq> Idle}"
    using ok unfolding counts_ok_def by (meson finite.insertI finite_subset)
  have "use_count s' i = card (owners s' i) + share (current_ctrl s') i" for i
    using cnt [of i] card_owners_update [OF counts_okD(1) [OF ok] t, of i] counts_okD(2) [OF ok, of i]
    by linarith
  with fin obj fresh show ?thesis by (simp add: counts_ok_def share_def)
qed

lemma counts_ok_set_task:
  assumes "counts_ok s" "owned pc = owned (task s t)"
  shows "counts_ok (set_task t pc s)"
  by (rule counts_ok_update [OF assms(1), where t = t and pc = pc])
     (simp_all add: fun_eq_iff assms(2) counts_okD(3,4) [OF assms(1)])

lemma counts_ok_ptr [simp]: "counts_ok (s\<lparr>current_ptr := p\<rparr>) = counts_ok s"
  by (simp add: counts_ok_def owners_def)

lemma counts_ok_step:
  assumes "manager_step s s'" "counts_ok s"
  shows "counts_ok s'"
  using assms(1)
proof (cases rule: manager_step.cases)
  case (build t v)
  have z: "use_count s (next_object s) = 0" by (rule counts_okD(4) [OF assms(2)]) simp
  show ?thesis
  proof (rule counts_ok_update [OF assms(2), where t = t and pc = "Built (Some (next_object s))"])
    show "use_count s' i + share (owned (task s t)) i + share (current_ctrl s) i
        = use_count s i + share (owned (Built (Some (next_object s)))) i + share (current_ctrl s') i" for i
      using build z by (simp add: share_def)
    show "next_object s' \<le> i \<Longrightarrow> use_count s' i = 0" for i
      using build counts_okD(4) [OF assms(2), of i] by simp
  qed (use build counts_okD(3) [OF assms(2)] in \<open>simp_all add: fun_eq_iff\<close>)
next
  case (release_old t old)
  have pos: "0 < use_count s i" if "old = Some i" for i
  proof -
    have "t \<in> owners s i" using release_old(2) that by (simp add: owners_def)
    then show ?thesis using counts_okD(1,2) [OF assms(2), of i] by (auto simp: card_gt_0_iff)
  qed
  show ?thesis
  proof (rule counts_ok_update [OF assms(2), where t = t and pc = WUnlock])
    show "use_count s' i + share (owned (task s t)) i + share (current_ctrl s) i
        = use_count s i + share (owned WUnlock) i + share (current_ctrl s') i" for i
      using release_old pos [of i] by (simp add: share_def)
    show "objects s' i = None \<longleftrightarrow> use_count s' i = 0" for i
      using release_old pos [of i] counts_okD(3) [OF assms(2), of i] by auto
    show "next_object s' \<le> i \<Longrightarrow> use_count s' i = 0" for i
      using release_old counts_okD(4) [OF assms(2), of i] by simp
  qed (use release_old in \<open>simp add: fun_eq_iff\<close>)
next
  case (drop t p c)
  have pos: "0 < use_count s i" if "c = Some i" for i
  proof -
    have "t \<in> owners s i" using drop(2) that by (simp add: owners_def)
    then show ?thesis using counts_okD(1,2) [OF assms(2), of i] by (auto simp: card_gt_0_iff)
  qed
  show ?thesis
  proof (rule counts_ok_update [OF assms(2), where t = t and pc = Idle])
    show "use_count s' i + share (owned (task s t)) i + share (current_ctrl s) i
        = use_count s i + share (owned Idle) i + share (current_ctrl s') i" for i
      using drop pos [of i] by (simp add: share_def)
    show "objects s' i = None \<longleftrightarrow> use_count s' i = 0" for i
      using drop pos [of i] counts_okD(3) [OF assms(2), of i] by auto
    show "next_object s' \<le> i \<Longrightarrow> use_count s' i = 0" for i
      using drop counts_okD(4) [OF assms(2), of i] by simp
  qed (use drop in \<open>simp add: fun_eq_iff\<close>)
next
  case (read_ctrl t p)
  have live: "use_count s i \<noteq> 0" if "current_ctrl s = Some i" for i
    using counts_okD(2) [OF assms(2), of i] that by (simp add: share_def)
  show ?thesis
  proof (rule counts_ok_update [OF assms(2), where t = t and pc = "RUnlock p (current_ctrl s)"])
    show "use_count s' i + share (owned (task s t)) i + share (current_ctrl s) i
        = use_count s i + share (owned (RUnlock p (current_ctrl s))) i + share (current_ctrl s') i" for i
      using read_ctrl by (simp add: share_def)
    show "objects s' i = None \<longleftrightarrow> use_count s' i = 0" for i
      using read_ctrl live [of i] counts_okD(3) [OF assms(2), of i] by auto
    show "next_object s' \<le> i \<Longrightarrow> use_count s' i = 0" for i
      using read_ctrl live [of i] counts_okD(4) [OF assms(2), of i] by auto
  qed (use read_ctrl in \<open>simp add: fun_eq_iff\<close>)
next
  case (write_ctrl t i)
  show ?thesis
    by (rule counts_ok_update [OF assms(2), where t = t and pc = "WRelease (current_ctrl s)"])
       (use write_ctrl counts_okD(3,4) [OF assms(2)] in \<open>simp_all add: fun_eq_iff\<close>)
qed (auto intro!: counts_ok_set_task simp: assms(2))

section \<open>What readers rely on\<close>

lemma manager_inv_step: "manager_step s s' \<Longrightarrow> manager_inv s \<Longrightarrow> manager_inv s'"
  unfolding manager_inv_def using locks_ok_step words_ok_step counts_ok_step by blast

lemma new_manager_inv: "manager_inv new_manager"
  by (simp add: manager_inv_def locks_ok_def words_ok_def counts_ok_def new_manager_def owners_def)

interpretation snapshots: step_invariant manager_step manager_inv new_manager
  by unfold_locales (rule manager_inv_step, assumption+, rule new_manager_inv)

lemma reachable_inv: "reachable_manager s \<Longrightarrow> locks_ok s \<and> words_ok s \<and> counts_ok s"
  unfolding reachable_manager_def using snapshots.inv_reachable manager_inv_def by blast

lemma owned_live:
  assumes "reachable_manager s" "owned (task s t) = Some i \<or> current_ctrl s = Some i"
  shows "objects s i \<noteq> None"
proof -
  have ok: "counts_ok s" using reachable_inv [OF assms(1)] by blast
  have "0 < card (owners s i)" if "owned (task s t) = Some i"
    using that counts_okD(1) [OF ok, of i] by (auto simp: card_gt_0_iff owners_def)
  with assms(2) have "use_count s i \<noteq> 0"
    using counts_okD(2) [OF ok, of i] by (auto simp: share_def)
  then show ?thesis using counts_okD(3) [OF ok, of i] by simp
qed

text \<open>
  C17 (safety): in every interleaving, the pointer \<open>load\<close> has returned belongs to the control
  block that came with it, and the snapshot it points to has not been destroyed.
\<close>

theorem loaded_snapshot_safe:
  assumes "reachable_manager s" "task s t = Holding p c"
  shows "p = c \<and> (case p of None \<Rightarrow> True | Some i \<Rightarrow> objects s i \<noteq> None)"
proof -
  have "p = c" using reachable_inv [OF assms(1)] assms(2) words_okD(5) by blast
  with assms(2) owned_live [OF assms(1), of t] show ?thesis by (cases p) auto
qed

text \<open>
  C27 (safety): a snapshot exists exactly as long as the manager or some task has a share of
  it: replaced snapshots are destroyed with their last reader, neither earlier nor later.
\<close>

theorem snapshot_reclaimed:
  assumes "reachable_manager s"
  shows "objects s i = None \<longleftrightarrow> current_ctrl s \<noteq> Some i \<and> owners s i = {}"
proof -
  have ok: "counts_ok s" using reachable_inv [OF assms] by blast
  then show ?thesis
    using counts_okD(1,2,3) [OF ok, of i] by (auto simp: share_def split: if_splits)
qed

text \<open>
  When the copy in \<open>load\<close> reads its second word, both words are those of the
  current snapshot: no reader sees half of an assignment.
\<close>

theorem load_not_torn:
  assumes "reachable_manager s" "task s t = RPtr p"
  shows "p = current_ptr s \<and> current_ptr s = current_ctrl s"
proof -
  have ok: "locks_ok s" "words_ok s" using reachable_inv [OF assms(1)] by simp_all
  have "\<not> exclusive_pc (task s u)" for u
    using locks_okD(2) [OF ok(1), of t] assms(2) by simp
  then have "\<forall>u i. task s u \<noteq> WPtr i" by (metis exclusive_pc.simps(2))
  with words_okD(2,3) [OF ok(2)] assms(2) show ?thesis by metis
qed

lemma object_stable_step:
  assumes "manager_step s s'" "i < next_object s"
  shows "(objects s' i = objects s i \<or> objects s' i = None) \<and> i < next_object s'"
  using assms by (cases rule: manager_step.cases) auto

lemma object_stable:
  assumes "manager_step\<^sup>*\<^sup>* s s'" "i < next_object s" "objects s' i \<noteq> None"
  shows "objects s' i = objects s i"
proof -
  from assms(1) have "(objects s' i = objects s i \<or> objects s' i = None) \<and> i < next_object s'"
  proof (induction rule: rtranclp_induct)
    case (step y z)
    then show ?case using object_stable_step [OF step.hyps(2)] by metis
  qed (use assms(2) in simp)
  with assms(3) show ?thesis by metis
qed

text \<open>
  While a snapshot exists its contents never change, whatever is published
  meanwhile, and an identity is never given to another snapshot.
\<close>

theorem snapshot_immutable:
  assumes "reachable_manager s" "objects s i = Some v" "manager_step\<^sup>*\<^sup>* s s'"
  shows "objects s' i = Some v \<or> objects s' i = None"
proof -
  have ok: "counts_ok s" using reachable_inv [OF assms(1)] by blast
  have "i < next_object s"
    using counts_okD(3,4) [OF ok, of i] assms(2) by (metis leI option.distinct(1))
  from object_stable [OF assms(3) this] assms(2) show ?thesis by metis
qed

section \<open>A run\<close>

text \<open>Task 0 publishes a snapshot with the contents 7, then task 1 loads it.\<close>

definition demo1 :: "nat manager" where
  "demo1 = set_task 0 (Built (Some 0)) (allocate 7 new_manager)"

definition demo2 :: "nat manager" where
  "demo2 = set_task 0 (WLocked (Some 0)) demo1"

definition demo3 :: "nat manager" where
  "demo3 = set_task 0 (WPtr (Some 0)) (demo2\<lparr>current_ptr := Some 0\<rparr>)"

definition demo4 :: "nat manager" where
  "demo4 = set_task 0 (WRelease None) (demo3\<lparr>current_ctrl := Some 0\<rparr>)"

definition demo5 :: "nat manager" where
  "demo5 = set_task 0 WUnlock (release None demo4)"

definition demo6 :: "nat manager" where
  "demo6 = set_task 0 Idle demo5"

definition demo7 :: "nat manager" where
  "demo7 = set_task 1 RLocked demo6"

definition demo8 :: "nat manager" where
  "demo8 = set_task 1 (RPtr (Some 0)) demo7"

definition demo9 :: "nat manager" where
  "demo9 = set_task 1 (RUnlock (Some 0) (Some 0)) (acquire (Some 0) demo8)"

definition demo10 :: "nat manager" where
  "demo10 = set_task 1 (Holding (Some 0) (Some 0)) demo9"

lemmas demo_defs = demo1_def demo2_def demo3_def demo4_def demo5_def demo6_def demo7_def demo8_def demo9_def demo10_def new_manager_def

lemma demo_step1: "manager_step new_manager demo1"
  using manager_step.build [where s = new_manager and t = 0]
  by (simp add: demo_defs allocate_def acquire_def release_def)

lemma demo_step2: "manager_step demo1 demo2"
  using manager_step.lock [where s = demo1 and t = 0]
  by (simp add: demo_defs allocate_def acquire_def release_def)

lemma demo_step3: "manager_step demo2 demo3"
  using manager_step.write_ptr [where s = demo2 and t = 0]
  by (simp add: demo_defs allocate_def acquire_def release_def)

lemma demo_step4: "manager_step demo3 demo4"
  using manager_step.write_ctrl [where s = demo3 and t = 0]
  by (simp add: demo_defs allocate_def acquire_def release_def)

lemma demo_step5: "manager_step demo4 demo5"
  using manager_step.release_old [where s = demo4 and t = 0]
  by (simp add: demo_defs allocate_def acquire_def release_def)

lemma demo_step6: "manager_step demo5 demo6"
  using manager_step.unlock [where s = demo5 and t = 0]
  by (simp add: demo_defs allocate_def acquire_def release_def)

lemma demo_step7: "manager_step demo6 demo7"
  using manager_step.lock_shared [where s = demo6 and t = 1]
  by (simp add: demo_defs allocate_def acquire_def release_def)

lemma demo_step8: "manager_step demo7 demo8"
  using manager_step.read_ptr [where s = demo7 and t = 1]
  by (simp add: demo_defs allocate_def acquire_def release_def)

lemma demo_step9: "manager_step demo8 demo9"
  using manager_step.read_ctrl [where s = demo8 and t = 1]
  by (simp add: demo_defs allocate_def acquire_def release_def)

lemma demo_step10: "manager_step demo9 demo10"
  using manager_step.unlock_shared [where s = demo9 and t = 1]
  by (simp add: demo_defs allocate_def acquire_def release_def)

lemma reachable_new: "reachable_manager new_manager"
  by (simp add: reachable_manager_def)

lemma reachable_step: "reachable_manager s \<Longrightarrow> manager_step s s' \<Longrightarrow> reachable_manager s'"
  unfolding reachable_manager_def by (rule rtranclp.rtrancl_into_rtrancl)

lemmas demo4_reachable = reachable_step [OF reachable_step [OF reachable_step [OF reachable_step
  [OF reachable_new demo_step1] demo_step2] demo_step3] demo_step4]

lemmas demo8_reachable = reachable_step [OF reachable_step [OF reachable_step [OF reachable_step
  [OF demo4_reachable demo_step5] demo_step6] demo_step7] demo_step8]

lemmas demo10_reachable = reachable_step [OF reachable_step [OF demo8_reachable demo_step9] demo_step10]

theorem loaded_snapshot_safe_witness: "objects demo10 0 \<noteq> None"
proof -
  have "task demo10 1 = Holding (Some 0) (Some 0)" by (simp add: demo10_def)
  from loaded_snapshot_safe [OF demo10_reachable this] show ?thesis by simp
qed

theorem snapshot_reclaimed_witness: "objects demo10 1 = None"
proof -
  have "current_ctrl demo10 = Some 0" "owners demo10 1 = {}"
    by (simp_all add: demo_defs owners_def allocate_def acquire_def release_def)
  then show ?thesis using snapshot_reclaimed [OF demo10_reachable, of 1] by simp
qed

theorem load_not_torn_witness: "current_ptr demo8 = current_ctrl demo8"
proof -
  have "task demo8 1 = RPtr (Some 0)" by (simp add: demo8_def)
  from load_not_torn [OF demo8_reachable this] show ?thesis by simp
qed

theorem snapshot_immutable_witness: "objects demo10 0 \<in> {Some 7, None}"
proof -
  have o: "objects demo8 0 = Some 7" by (simp add: demo_defs allocate_def release_def)
  have "manager_step\<^sup>*\<^sup>* demo8 demo10" using demo_step9 demo_step10
    by (rule converse_rtranclp_into_rtranclp [OF _ r_into_rtranclp])
  from snapshot_immutable [OF demo8_reachable o this] show ?thesis by simp
qed

end
