(* ===== verification/Snapshot_Register.thy ===== *)
theory Snapshot_Register imports Config_Snapshot begin

text \<open>
  What the snapshot manager (\<^verbatim>\<open>include/netp2/config/config_snapshot.h\<close>) promises its users: it
  is an atomic register of values. In the abstract machine there are no pointers, counts or
  locks: \<^verbatim>\<open>publish\<close> stores a value in one step, \<^verbatim>\<open>load\<close> copies the stored value in one step, and
  what a reader has copied is its own. The steps of \<open>manager_step\<close> refine it, in
  every interleaving.
\<close>

section \<open>The register\<close>

text \<open>
  Where a client is: about to publish a value, past the effect of \<^verbatim>\<open>publish\<close>, in
  \<^verbatim>\<open>load\<close> before and after its effect, in possession of what it loaded. The value \<open>None\<close>
  is the null snapshot.
\<close>

datatype 'v client =
    Free
  | Publishing "'v option"
  | Published
  | Loading
  | Loaded "'v option"
  | Has "'v option"

record 'v register =
  stored :: "'v option"
  client :: "nat \<Rightarrow> 'v client"

definition set_client :: "nat \<Rightarrow> 'v client \<Rightarrow> 'v register \<Rightarrow> 'v register" where
  "set_client t c r = r\<lparr>client := (client r)(t := c)\<rparr>"

text \<open>A step of the client \<open>t\<close>.\<close>

inductive register_step :: "nat \<Rightarrow> 'v register \<Rightarrow> 'v register \<Rightarrow> bool" where
  prepare: "client r t = Free \<Longrightarrow> register_step t r (set_client t (Publishing v) r)"
| publish: "client r t = Publishing v \<Longrightarrow> register_step t r (set_client t Published (r\<lparr>stored := v\<rparr>))"
| published: "client r t = Published \<Longrightarrow> register_step t r (set_client t Free r)"
| call_load: "client r t = Free \<Longrightarrow> register_step t r (set_client t Loading r)"
| load: "client r t = Loading \<Longrightarrow> register_step t r (set_client t (Loaded (stored r)) r)"
| return_load: "client r t = Loaded v \<Longrightarrow> register_step t r (set_client t (Has v) r)"
| forget: "client r t = Has v \<Longrightarrow> register_step t r (set_client t Free r)"

definition new_register :: "'v register" where
  "new_register = \<lparr>stored = None, client = (\<lambda>_. Free)\<rparr>"

section \<open>Abstraction\<close>

definition contents :: "'v manager \<Rightarrow> nat option \<Rightarrow> 'v option" where
  "contents s p = Option.bind p (objects s)"

fun client_of :: "(nat option \<Rightarrow> 'v option) \<Rightarrow> task_pc \<Rightarrow> 'v client" where
  "client_of deref Idle = Free"
| "client_of deref (Built i) = Publishing (deref i)"
| "client_of deref (WLocked i) = Publishing (deref i)"
| "client_of deref (WPtr i) = Publishing (deref i)"
| "client_of deref (WRelease old) = Published"
| "client_of deref WUnlock = Published"
| "client_of deref RLocked = Loading"
| "client_of deref (RPtr p) = Loading"
| "client_of deref (RUnlock p c) = Loaded (deref p)"
| "client_of deref (Holding p c) = Has (deref p)"

definition register_of :: "'v manager \<Rightarrow> 'v register" where
  "register_of s = \<lparr>stored = contents s (current_ctrl s), client = (\<lambda>t. client_of (contents s) (task s t))\<rparr>"

text \<open>
  A client reads through the pointer word; its share is that of the control block. As long as
  the two words belong together, the register is that of the shares, on which the proofs work.
\<close>

fun share_of :: "(nat option \<Rightarrow> 'v option) \<Rightarrow> task_pc \<Rightarrow> 'v client" where
  "share_of deref (RUnlock p c) = Loaded (deref c)"
| "share_of deref (Holding p c) = Has (deref c)"
| "share_of deref pc = client_of deref pc"

definition shares_of :: "'v manager \<Rightarrow> 'v register" where
  "shares_of s = \<lparr>stored = contents s (current_ctrl s), client = (\<lambda>t. share_of (contents s) (task s t))\<rparr>"

lemma register_of_shares:
  assumes "words_ok s"
  shows "register_of s = shares_of s"
proof -
  have "client_of (contents s) (task s t) = share_of (contents s) (task s t)" for t
    using words_okD(4,5) [OF assms, of t] by (cases "task s t") simp_all
  then show ?thesis by (simp add: register_of_def shares_of_def)
qed

text \<open>A task's place in the abstract machine depends on the heap only through what it owns.\<close>

lemma share_of_owned:
  "(\<And>i. owned pc = Some i \<Longrightarrow> f (Some i) = g (Some i)) \<Longrightarrow> f None = g None \<Longrightarrow> share_of f pc = share_of g pc"
  by (cases pc; cases "owned pc") auto

section \<open>Shared snapshots do not change\<close>

definition in_use :: "'v manager \<Rightarrow> nat \<Rightarrow> bool" where
  "in_use s i \<longleftrightarrow> current_ctrl s = Some i \<or> (\<exists>t. owned (task s t) = Some i)"

lemma in_use_objects:
  assumes "counts_ok s"
  shows "objects s i \<noteq> None \<longleftrightarrow> in_use s i"
proof -
  have "use_count s i = 0 \<longleftrightarrow> owners s i = {} \<and> current_ctrl s \<noteq> Some i"
    using counts_okD(1,2) [OF assms, of i] by (auto simp: share_def)
  then show ?thesis using counts_okD(3) [OF assms, of i] by (auto simp: in_use_def owners_def)
qed

lemma in_use_old:
  assumes "counts_ok s" "in_use s i"
  shows "i < next_object s"
  using assms in_use_objects [OF assms(1), of i] counts_okD(3,4) [OF assms(1), of i] by (metis leI)

lemma contents_kept:
  assumes "manager_step s s'" "counts_ok s" "in_use s i" "in_use s' i"
  shows "contents s' (Some i) = contents s (Some i)"
  using object_stable_step [OF assms(1) in_use_old [OF assms(2,3)]]
    in_use_objects [OF counts_ok_step [OF assms(1,2)], of i] assms(4)
  by (auto simp: contents_def)

lemma contents_None [simp]: "contents s None = None"
  by (simp add: contents_def)

lemma contents_allocated [simp]:
  "contents (set_task t pc (allocate v s)) (Some (next_object s)) = Some v"
  by (simp add: contents_def)

text \<open>
  So a step changes the abstraction only at the task that makes it and where the
  current snapshot is replaced.
\<close>

lemma register_step_local:
  assumes "manager_step s s'" "counts_ok s" "task s' = (task s)(t := pc)"
  shows "client (shares_of s') u = (if u = t then share_of (contents s') pc else client (shares_of s) u)"
proof (cases "u = t")
  case False
  have "share_of (contents s') (task s u) = share_of (contents s) (task s u)"
  proof (rule share_of_owned)
    fix i assume o: "owned (task s u) = Some i"
    moreover have "task s' u = task s u" using assms(3) False by simp
    ultimately have "in_use s i" "in_use s' i" by (auto simp: in_use_def) metis+
    then show "contents s' (Some i) = contents s (Some i)" by (rule contents_kept [OF assms(1,2)])
  qed simp
  with False assms(3) show ?thesis by (simp add: shares_of_def)
qed (use assms(3) in \<open>simp add: shares_of_def\<close>)

lemma stored_kept:
  assumes "manager_step s s'" "counts_ok s" "current_ctrl s' = current_ctrl s"
  shows "stored (shares_of s') = stored (shares_of s)"
proof (cases "current_ctrl s")
  case (Some i)
  with assms(3) have "in_use s i" "in_use s' i" by (simp_all add: in_use_def)
  with Some assms show ?thesis by (simp add: shares_of_def contents_kept)
qed (simp add: shares_of_def assms(3))

lemma register_eqI:
  "stored r = stored r' \<Longrightarrow> (\<And>t. client r t = client r' t) \<Longrightarrow> r = (r' :: 'v register)"
  by (cases r; cases r') auto

lemma set_client_simps [simp]:
  "stored (set_client t c r) = stored r"
  "client (set_client t c r) u = (if u = t then c else client r u)"
  by (simp_all add: set_client_def)

lemma shares_of_step:
  assumes "manager_step s s'" "counts_ok s" "task s' = (task s)(t := pc)"
  shows "shares_of s' =
     set_client t (share_of (contents s') pc) ((shares_of s)\<lparr>stored := contents s' (current_ctrl s')\<rparr>)"
proof (rule register_eqI)
  show "client (shares_of s') u =
      client (set_client t (share_of (contents s') pc) ((shares_of s)\<lparr>stored := contents s' (current_ctrl s')\<rparr>)) u" for u
    using register_step_local [OF assms, of u] by simp
qed (simp add: shares_of_def)

lemma shares_of_step_same:
  assumes "manager_step s s'" "counts_ok s" "task s' = (task s)(t := pc)" "current_ctrl s' = current_ctrl s"
  shows "shares_of s' = set_client t (share_of (contents s') pc) (shares_of s)"
proof -
  have "contents s' (current_ctrl s') = stored (shares_of s)"
    using stored_kept [OF assms(1,2,4)] by (simp add: shares_of_def)
  then show ?thesis using shares_of_step [OF assms(1-3)] by simp
qed

lemma set_client_id [simp]: "c = client r t \<Longrightarrow> set_client t c r = (r :: 'v register)"
  by (rule register_eqI) simp_all

lemma client_shares_of: "client (shares_of s) t = share_of (contents s) (task s t)"
  by (simp add: shares_of_def)

lemma stored_shares_of: "stored (shares_of s) = contents s (current_ctrl s)"
  by (simp add: shares_of_def)

lemma contents_same_objects: "objects s' = objects s \<Longrightarrow> contents s' = contents s"
  by (rule ext) (simp add: contents_def)

section \<open>Refinement\<close>

text \<open>
  Every step of the manager is a step of the register or is not visible there: taking the lock,
  writing or reading the first of the two words, and releasing the old snapshot are not.
\<close>

lemma shares_refinement:
  assumes step: "manager_step s s'" and inv: "manager_inv s"
  shows "\<exists>t. (\<forall>u. u \<noteq> t \<longrightarrow> task s' u = task s u)
    \<and> (shares_of s' = shares_of s \<or> register_step t (shares_of s) (shares_of s'))"
proof -
  have ok: "counts_ok s" using inv by (simp add: manager_inv_def)
  note same = shares_of_step_same [OF step ok]
  note cl = client_shares_of [of s]
  note objs = contents_same_objects [of s' s]
  from step show ?thesis
  proof (cases rule: manager_step.cases)
    case (build t v)
    then have "shares_of s' = set_client t (Publishing (Some v)) (shares_of s)"
      using same [of t "Built (Some (next_object s))"] by (simp add: fun_eq_iff)
    with cl [of t] build show ?thesis by (intro exI [of _ t]) (simp add: register_step.prepare)
  next
    case (build_null t)
    then have "shares_of s' = set_client t (Publishing None) (shares_of s)"
      using same [of t "Built None"] by (simp add: fun_eq_iff)
    with cl [of t] build_null show ?thesis by (intro exI [of _ t]) (simp add: register_step.prepare)
  next
    case (lock t i)
    then show ?thesis using same [of t "WLocked i"] cl [of t] objs by (intro exI [of _ t]) (simp add: fun_eq_iff)
  next
    case (write_ptr t i)
    then show ?thesis using same [of t "WPtr i"] cl [of t] objs by (intro exI [of _ t]) (simp add: fun_eq_iff)
  next
    case (write_ctrl t i)
    then have "shares_of s' = set_client t Published ((shares_of s)\<lparr>stored := contents s i\<rparr>)"
      using shares_of_step [OF step ok, of t "WRelease (current_ctrl s)"] objs by (simp add: fun_eq_iff)
    with cl [of t] write_ctrl show ?thesis by (intro exI [of _ t]) (simp add: register_step.publish)
  next
    case (release_old t old)
    then show ?thesis using same [of t WUnlock] cl [of t] by (intro exI [of _ t]) (simp add: fun_eq_iff)
  next
    case (unlock t)
    then have "shares_of s' = set_client t Free (shares_of s)"
      using same [of t Idle] by (simp add: fun_eq_iff)
    with cl [of t] unlock show ?thesis by (intro exI [of _ t]) (simp add: register_step.published)
  next
    case (lock_shared t)
    then have "shares_of s' = set_client t Loading (shares_of s)"
      using same [of t RLocked] by (simp add: fun_eq_iff)
    with cl [of t] lock_shared show ?thesis by (intro exI [of _ t]) (simp add: register_step.call_load)
  next
    case (read_ptr t)
    then show ?thesis using same [of t "RPtr (current_ptr s)"] cl [of t] by (intro exI [of _ t]) (simp add: fun_eq_iff)
  next
    case (read_ctrl t p)
    then have "shares_of s' = set_client t (Loaded (stored (shares_of s))) (shares_of s)"
      using same [of t "RUnlock p (current_ctrl s)"] objs stored_shares_of [of s] by (simp add: fun_eq_iff)
    with cl [of t] read_ctrl show ?thesis by (intro exI [of _ t]) (simp add: register_step.load)
  next
    case (unlock_shared t p c)
    then have "shares_of s' = set_client t (Has (contents s c)) (shares_of s)"
      using same [of t "Holding p c"] objs by (simp add: fun_eq_iff)
    with cl [of t] unlock_shared show ?thesis by (intro exI [of _ t]) (simp add: register_step.return_load)
  next
    case (drop t p c)
    then have "shares_of s' = set_client t Free (shares_of s)"
      using same [of t Idle] by (simp add: fun_eq_iff)
    with cl [of t] drop show ?thesis by (intro exI [of _ t]) (simp add: register_step.forget)
  qed
qed

lemma register_refinement:
  assumes "manager_step s s'" "manager_inv s"
  shows "\<exists>t. (\<forall>u. u \<noteq> t \<longrightarrow> task s' u = task s u)
    \<and> (register_of s' = register_of s \<or> register_step t (register_of s) (register_of s'))"
proof -
  have "manager_inv s'" using snapshots.inv_step [OF assms] .
  with assms(2) have "register_of s = shares_of s" "register_of s' = shares_of s'"
    by (simp_all add: manager_inv_def register_of_shares)
  with shares_refinement [OF assms] show ?thesis by simp
qed

text \<open>What a reader holds stays as it is, and exists, for as long as it holds it.\<close>

lemma held_stable:
  assumes "manager_step s s'" "manager_inv s" "task s t = Holding p c"
  shows "contents s p = None \<longleftrightarrow> p = None"
    and "task s' t = Holding p c \<Longrightarrow> contents s' p = contents s p"
proof -
  have ok: "counts_ok s" and p: "p = c" using assms(2,3) words_okD(5) by (auto simp: manager_inv_def)
  have used: "in_use s i" if "p = Some i" for i
    using assms(3) p that by (auto simp: in_use_def intro!: exI [of _ t])
  show "contents s p = None \<longleftrightarrow> p = None"
    using in_use_objects [OF ok] used by (cases p) (auto simp: contents_def)
  show "contents s' p = contents s p" if "task s' t = Holding p c"
  proof (cases p)
    case (Some i)
    with that p have "in_use s' i" by (auto simp: in_use_def intro!: exI [of _ t])
    with Some show ?thesis using contents_kept [OF assms(1) ok used] by simp
  qed simp
qed

interpretation manager_register: step_refinement manager_step manager_inv register_of "\<lambda>r r'. \<exists>t. register_step t r r'"
  by unfold_locales (use register_refinement in \<open>metis (mono_tags, lifting) r_into_rtranclp rtranclp.rtrancl_refl\<close>)

lemma register_of_new [simp]: "register_of new_manager = new_register"
  by (simp add: register_of_def new_manager_def new_register_def)

text \<open>
  C2 (refinement): the snapshot manager is an atomic register of values. It starts as an empty
  register, and every single step of a task, on the level of words, locks and reference
  counts, in every interleaving of publications, loads and releases, is either not visible in
  the register or is one step of that task there, where \<^verbatim>\<open>publish\<close> stores and \<^verbatim>\<open>load\<close> copies the
  stored value in one step. What a client reads is what its pointer word points to: a reader's
  snapshot exists and does not change for as long as it holds it.
\<close>

theorem manager_is_register:
  assumes "reachable_manager s" "manager_step s s'"
  shows "register_of new_manager = (new_register :: 'v register)
    \<and> (\<exists>t. (\<forall>u. u \<noteq> t \<longrightarrow> task s' u = task s u)
          \<and> (register_of s' = register_of s \<or> register_step t (register_of s) (register_of (s' :: 'v manager))))
    \<and> (\<forall>t p c. task s t = Holding p c \<longrightarrow>
          client (register_of s) t = Has (contents s p) \<and> (contents s p = None \<longleftrightarrow> p = None)
          \<and> (task s' t = Holding p c \<longrightarrow> contents s' p = contents s p))"
proof -
  have inv: "manager_inv s" using snapshots.inv_reachable [of s] assms(1) by (simp add: reachable_manager_def)
  have "client (register_of s) t = Has (contents s p)" if "task s t = Holding p c" for t p c
    using that by (simp add: register_of_def)
  with held_stable [OF assms(2) inv] have
    "\<forall>t p c. task s t = Holding p c \<longrightarrow>
          client (register_of s) t = Has (contents s p) \<and> (contents s p = None \<longleftrightarrow> p = None)
          \<and> (task s' t = Holding p c \<longrightarrow> contents s' p = contents s p)" by (intro allI impI conjI) simp_all
  with register_refinement [OF assms(2) inv] show ?thesis by simp
qed

text \<open>A reader copies the second word: this is where it loads the value 7.\<close>

theorem manager_is_register_witness:
  "(\<exists>t. register_step t (register_of demo8) (register_of demo9)) \<and> client (register_of demo9) 1 = Loaded (Some 7)"
proof -
  have c: "client (register_of demo9) 1 = Loaded (Some 7)" "client (register_of demo8) 1 = Loading"
    by (simp_all add: register_of_def contents_def demo_defs allocate_def acquire_def release_def)
  then have "register_of demo9 \<noteq> register_of demo8" by force
  with manager_is_register [OF demo8_reachable demo_step9] c show ?thesis by blast
qed

end
