(* ===== verification/Route_Patterns.thy ===== *)
theory Route_Patterns imports Prelude begin

text \<open>
  The matching primitives of \<^verbatim>\<open>src/routing/route_snapshot.cpp\<close>: splitting a path into
  segments, matching a host against a pattern, and testing a client address against a
  CIDR entry. The index loops of the source are kept as recursions over the same index,
  and related to structural reference definitions.
\<close>

section \<open>Splitting a path\<close>

text \<open>
  The \<^verbatim>\<open>while\<close> loop of \<^verbatim>\<open>split_path\<close>: \<open>start\<close> either skips a slash or jumps to the end
  of a segment, so the distance to the end of the path decreases.
\<close>

function split_path_loop :: "string \<Rightarrow> nat \<Rightarrow> string list \<Rightarrow> string list" where
  "split_path_loop path start segments =
     (if start < length path then
        if path ! start = CHR ''/'' then split_path_loop path (start + 1) segments
        else
          let end = (case str_find (CHR ''/'') path start of
                       None \<Rightarrow> length path | Some e \<Rightarrow> e)
          in split_path_loop path end (segments @ [str_sub path start (end - start)])
      else segments)"
  by pat_completeness auto
termination
proof (relation "measure (\<lambda>(path, start, segments). length path - start)", goal_cases)
  case (3 path start segments e)
  have "start < e"
  proof (cases "str_find (CHR ''/'') path start")
    case None
    with 3 show ?thesis by simp
  next
    case (Some n)
    with str_find_Some_bounds [OF Some] str_find_Some_nth [OF Some] 3
    show ?thesis by (cases "n = start") auto
  qed
  with 3 show ?case by simp
qed auto

declare split_path_loop.simps [simp del]

definition split_path :: "string \<Rightarrow> string list" where
  "split_path path =
     (if path = [] \<or> path ! 0 \<noteq> CHR ''/'' then [] else split_path_loop path 0 [])"

text \<open>The reference: maximal slash-free runs, by structural recursion.\<close>

function slash_words :: "string \<Rightarrow> string list" where
  "slash_words [] = []"
| "slash_words (c # cs) =
     (if c = CHR ''/'' then slash_words cs
      else (c # takeWhile (\<lambda>x. x \<noteq> CHR ''/'') cs)
             # slash_words (dropWhile (\<lambda>x. x \<noteq> CHR ''/'') cs))"
  by pat_completeness auto
termination
  by (relation "measure length") (auto simp: less_Suc_eq_le length_dropWhile_le)

definition join_path :: "string list \<Rightarrow> string" where
  "join_path segs = concat (map (\<lambda>s. CHR ''/'' # s) segs)"

definition segment_ok :: "string \<Rightarrow> bool" where
  "segment_ok s \<longleftrightarrow> s \<noteq> [] \<and> CHR ''/'' \<notin> set s"

lemma segment_end:
  assumes "start < length path" and "path ! start \<noteq> CHR ''/''"
  defines "w \<equiv> takeWhile (\<lambda>x. x \<noteq> CHR ''/'') (drop start path)"
  shows "(case str_find (CHR ''/'') path start of None \<Rightarrow> length path | Some e \<Rightarrow> e)
           = start + length w"
proof -
  have "length w \<le> length path - start"
    unfolding w_def by (metis length_drop length_takeWhile_le)
  then show ?thesis
    using assms(1) by (auto simp: str_find_def Let_def w_def)
qed

lemma split_path_loop_words:
  "split_path_loop path start segments = segments @ slash_words (drop start path)"
proof (induction path start segments rule: split_path_loop.induct)
  case (1 path start segments)
  let ?P = "\<lambda>x. x \<noteq> CHR ''/''"
  show ?case
  proof (cases "start < length path")
    case False
    then show ?thesis by (simp add: split_path_loop.simps [of path start])
  next
    case True
    then have d: "drop start path = path ! start # drop (Suc start) path"
      by (simp add: Cons_nth_drop_Suc)
    show ?thesis
    proof (cases "path ! start = CHR ''/''")
      case slash: True
      with "1.IH"(1) True d show ?thesis
        by (simp add: split_path_loop.simps [of path start])
    next
      case word: False
      let ?w = "takeWhile ?P (drop start path)"
      let ?e = "start + length ?w"
      have "split_path_loop path start segments =
              split_path_loop path ?e (segments @ [str_sub path start (?e - start)])"
        using True word segment_end [OF True word]
        by (simp add: split_path_loop.simps [of path start])
      also have "\<dots> = (segments @ [?w]) @ slash_words (drop ?e path)"
        using "1.IH"(2) [OF True word refl] segment_end [OF True word]
        by (simp add: take_takeWhile_upto [simplified])
      also have "drop ?e path = dropWhile ?P (drop start path)"
        by (simp add: dropWhile_eq_drop add.commute)
      finally show ?thesis using word d by simp
    qed
  qed
qed

lemma split_path_words:
  "split_path path = (if take 1 path = ''/'' then slash_words path else [])"
  by (cases path) (auto simp: split_path_def split_path_loop_words)

lemma slash_words_ok: "s \<in> set (slash_words path) \<Longrightarrow> segment_ok s"
  by (induction path rule: slash_words.induct)
     (auto simp: segment_ok_def split: if_splits dest: set_takeWhileD)

lemma slash_words_append:
  "segment_ok s \<Longrightarrow> take 1 rest \<in> {[], ''/''} \<Longrightarrow>
   slash_words (s @ rest) = s # slash_words rest"
  by (cases s; cases rest)
     (auto simp: segment_ok_def takeWhile_free dropWhile_free)

lemma take_1_join_path: "take (Suc 0) (join_path segs) = (if segs = [] then [] else ''/'')"
  by (cases segs) (simp_all add: join_path_def)

lemma slash_words_join:
  "\<forall>s\<in>set segs. segment_ok s \<Longrightarrow> slash_words (join_path segs) = segs"
proof (induction segs)
  case Nil
  then show ?case by (simp add: join_path_def)
next
  case (Cons s segs)
  have "slash_words (s @ join_path segs) = s # slash_words (join_path segs)"
    by (rule slash_words_append) (use Cons.prems in \<open>auto simp: take_1_join_path\<close>)
  with Cons show ?case
    by (simp add: join_path_def)
qed

text \<open>
  C40 (equivalence): for every path, the index loop of \<open>split_path\<close> returns the
  maximal slash-free runs of the path, in order, when the path starts with a slash, and
  nothing otherwise.
\<close>

theorem split_path_correct:
  "split_path path = (if take 1 path = ''/'' then slash_words path else [])"
  by (rule split_path_words)

text \<open>
  Building a path from slash-free, non-empty segments and splitting it
  again gives the segments back.
\<close>

theorem split_join_path:
  "\<forall>s\<in>set segs. segment_ok s \<Longrightarrow> split_path (join_path segs) = segs"
  using slash_words_join [of segs] take_1_join_path [of segs]
  by (cases "segs = []") (simp_all add: split_path_words join_path_def)

theorem split_join_path_witness:
  "split_path (join_path [''api'', ''v2'', ''users'']) = [''api'', ''v2'', ''users'']"
  by (rule split_join_path) (simp add: segment_ok_def)

section \<open>Hosts\<close>

definition host_matches :: "string \<Rightarrow> string \<Rightarrow> bool" where
  "host_matches host pattern =
     (if pattern = ''*'' then True
      else if str_starts_with pattern ''*.'' then str_ends_with host (drop 2 pattern)
      else host = pattern)"

section \<open>Client addresses\<close>

text \<open>
  The \<^verbatim>\<open>for\<close> loop of the \<^verbatim>\<open>/16\<close> case: the position of the second dot of the network
  part.
\<close>

function second_dot_loop :: "string \<Rightarrow> nat \<Rightarrow> nat \<Rightarrow> nat option" where
  "second_dot_loop network i count =
     (if i < length network \<and> count < 2 then
        if network ! i = CHR ''.'' then
          if count + 1 = 2 then Some i else second_dot_loop network (i + 1) (count + 1)
        else second_dot_loop network (i + 1) count
      else None)"
  by pat_completeness auto
termination
  by (relation "measure (\<lambda>(network, i, count). length network - i)") auto

declare second_dot_loop.simps [simp del]

definition ip_in_cidr :: "string \<Rightarrow> string \<Rightarrow> bool" where
  "ip_in_cidr ip cidr =
     (case str_find (CHR ''/'') cidr 0 of
        None \<Rightarrow> ip = cidr
      | Some slash_pos \<Rightarrow>
          let network = str_upto cidr (Some slash_pos);
              prefix_len = drop (slash_pos + 1) cidr
          in if prefix_len = ''24'' then
               str_upto network (str_rfind (CHR ''.'') network)
                 = str_upto ip (str_rfind (CHR ''.'') ip)
             else
               case (if prefix_len = ''16'' then second_dot_loop network 0 0 else None) of
                 Some pos \<Rightarrow> str_upto ip (Some pos) = str_upto network (Some pos)
               | None \<Rightarrow>
                   if prefix_len = ''8'' then
                     str_upto network (str_find (CHR ''.'') network 0)
                       = str_upto ip (str_find (CHR ''.'') ip 0)
                   else if prefix_len = ''0'' then True
                   else ip = network)"

subsection \<open>What the tests decide\<close>

definition subdomain_of :: "string \<Rightarrow> string \<Rightarrow> bool" where
  "subdomain_of host domain \<longleftrightarrow> suffix (CHR ''.'' # domain) host \<and> length domain + 1 < length host"

text \<open>
  The pattern \<^verbatim>\<open>*\<close> accepts every host, a pattern without a leading
  \<^verbatim>\<open>*.\<close> accepts exactly itself, and \<^verbatim>\<open>*.domain\<close> accepts exactly the hosts that end in
  \<^verbatim>\<open>domain\<close>, which include all its subdomains.
\<close>

theorem host_matches_correct:
  "host_matches host ''*''
   \<and> (host_matches host (''*.'' @ domain) \<longleftrightarrow> suffix domain host)
   \<and> host_matches (label @ ''.'' @ domain) (''*.'' @ domain)
   \<and> (host_matches host pattern \<longleftrightarrow>
        pattern = ''*'' \<or> (\<exists>d. pattern = ''*.'' @ d \<and> suffix d host) \<or> host = pattern)"
  by (auto simp: host_matches_def suffix_def prefix_def)

text \<open>
  The wildcard pattern does not require a label boundary. For every
  non-empty text without a dot at its end, the host made of that text directly followed
  by the domain is accepted although it is not a subdomain, and so is the bare domain.
\<close>

theorem wildcard_accepts_sibling:
  assumes "x \<noteq> []" and "last x \<noteq> CHR ''.''"
  shows "host_matches (x @ domain) (''*.'' @ domain) \<and> \<not> subdomain_of (x @ domain) domain
         \<and> host_matches domain (''*.'' @ domain) \<and> \<not> subdomain_of domain domain"
proof -
  have "\<not> suffix (CHR ''.'' # domain) (x @ domain)"
  proof
    assume "suffix (CHR ''.'' # domain) (x @ domain)"
    then obtain p where "x @ domain = (p @ ''.'') @ domain" by (auto simp: suffix_def)
    then have "x = p @ ''.''" by simp
    with assms(2) show False by simp
  qed
  then show ?thesis by (auto simp: host_matches_def subdomain_of_def suffix_def)
qed

theorem wildcard_accepts_sibling_witness:
  "host_matches ''evilexample.com'' ''*.example.com''
   \<and> \<not> subdomain_of ''evilexample.com'' ''example.com''"
  using wildcard_accepts_sibling [of "''evil''" "''example.com''"] by simp

definition dotted :: "string \<Rightarrow> string \<Rightarrow> string \<Rightarrow> string \<Rightarrow> string" where
  "dotted a b c d = a @ CHR ''.'' # b @ CHR ''.'' # c @ CHR ''.'' # d"

definition octet_ok :: "string \<Rightarrow> bool" where
  "octet_ok s \<longleftrightarrow> CHR ''.'' \<notin> set s \<and> CHR ''/'' \<notin> set s"

lemma second_dot_loop_skip:
  "CHR ''.'' \<notin> set w \<Longrightarrow>
   second_dot_loop (pre @ w @ rest) (length pre) count
     = second_dot_loop (pre @ w @ rest) (length pre + length w) count"
proof (induction w arbitrary: pre)
  case Nil
  then show ?case by simp
next
  case (Cons c w)
  let ?s = "pre @ (c # w) @ rest"
  have "second_dot_loop ?s (length pre) count = second_dot_loop ?s (Suc (length pre)) count"
  proof (cases "count < 2")
    case True
    with Cons.prems show ?thesis
      by (subst second_dot_loop.simps) (auto simp: nth_append)
  next
    case False
    then show ?thesis
      by (subst (1 2) second_dot_loop.simps) simp
  qed
  then show ?case using Cons.IH [of "pre @ [c]"] Cons.prems by simp
qed

lemma second_dot_loop_dotted:
  assumes "octet_ok a" "octet_ok b"
  shows "second_dot_loop (dotted a b c d) 0 0 = Some (length a + 1 + length b)"
proof -
  let ?s = "dotted a b c d"
  have "second_dot_loop ?s 0 0 = second_dot_loop ?s (length a) 0"
    using second_dot_loop_skip [of a "[]"] assms by (simp add: dotted_def octet_ok_def)
  also have "\<dots> = second_dot_loop ?s (length (a @ ''.'')) 1"
    by (subst second_dot_loop.simps) (simp add: dotted_def nth_append)
  also have "\<dots> = second_dot_loop ?s (length (a @ ''.'') + length b) 1"
    using second_dot_loop_skip [of b "a @ ''.''"] assms by (simp add: dotted_def octet_ok_def)
  also have "\<dots> = Some (length a + 1 + length b)"
    by (subst second_dot_loop.simps) (simp add: dotted_def nth_append)
  finally show ?thesis .
qed

lemma dotted_24:
  assumes "octet_ok d"
  shows "str_upto (dotted a b c d) (str_rfind (CHR ''.'') (dotted a b c d))
           = a @ CHR ''.'' # b @ CHR ''.'' # c"
  using str_upto_rfind [of "CHR ''.''" d "a @ CHR ''.'' # b @ CHR ''.'' # c"] assms
  by (simp add: dotted_def octet_ok_def)

lemma dotted_8:
  assumes "octet_ok a"
  shows "str_upto (dotted a b c d) (str_find (CHR ''.'') (dotted a b c d) 0) = a"
  using assms by (simp add: str_upto_find_0 dotted_def octet_ok_def)

lemma cidr_parts:
  assumes "CHR ''/'' \<notin> set network"
  shows "str_find (CHR ''/'') (network @ CHR ''/'' # len) 0 = Some (length network)"
    and "str_upto (network @ CHR ''/'' # len) (Some (length network)) = network"
    and "drop (length network + 1) (network @ CHR ''/'' # len) = len"
  using assms by (simp_all add: str_find_0 str_upto_def)

lemma dotted_no_slash:
  "octet_ok a \<Longrightarrow> octet_ok b \<Longrightarrow> octet_ok c \<Longrightarrow> octet_ok d \<Longrightarrow> CHR ''/'' \<notin> set (dotted a b c d)"
  by (auto simp: dotted_def octet_ok_def)

lemma dot_split:
  "CHR ''.'' \<notin> set a \<Longrightarrow> CHR ''.'' \<notin> set b \<Longrightarrow>
   a @ CHR ''.'' # x = b @ CHR ''.'' # y \<longleftrightarrow> a = b \<and> x = y"
proof (induction a arbitrary: b)
  case Nil
  then show ?case by (cases b) auto
next
  case (Cons z a)
  then show ?case by (cases b) auto
qed

text \<open>
  On dotted quads, \<open>/24\<close> compares the first three octets, \<open>/8\<close> the first
  one, \<open>/0\<close> accepts everything, and an entry without a slash is an exact address.
  \<open>/16\<close> accepts exactly the addresses whose text starts with the first two octets of the
  network.
\<close>

theorem ip_in_cidr_dotted:
  assumes "octet_ok a" "octet_ok b" "octet_ok c" "octet_ok d"
    and "octet_ok a'" "octet_ok b'" "octet_ok c'" "octet_ok d'"
  shows "(ip_in_cidr (dotted a b c d) (dotted a' b' c' d' @ ''/24'') \<longleftrightarrow> a = a' \<and> b = b' \<and> c = c')
    \<and> (ip_in_cidr (dotted a b c d) (dotted a' b' c' d' @ ''/8'') \<longleftrightarrow> a = a')
    \<and> ip_in_cidr (dotted a b c d) (dotted a' b' c' d' @ ''/0'')
    \<and> (ip_in_cidr (dotted a b c d) (dotted a' b' c' d') \<longleftrightarrow> a = a' \<and> b = b' \<and> c = c' \<and> d = d')
    \<and> (ip_in_cidr (dotted a b c d) (dotted a' b' c' d' @ ''/16'') \<longleftrightarrow>
          prefix (a' @ ''.'' @ b') (dotted a b c d))"
proof (intro conjI)
  let ?n = "dotted a' b' c' d'"
  have n: "CHR ''/'' \<notin> set ?n" using assms by (simp add: dotted_no_slash)
  note parts = cidr_parts [OF n]
  have dots: "CHR ''.'' \<notin> set x" if "octet_ok x" for x using that by (simp add: octet_ok_def)
  show "ip_in_cidr (dotted a b c d) (?n @ ''/24'') \<longleftrightarrow> a = a' \<and> b = b' \<and> c = c'"
    using parts assms by (auto simp: ip_in_cidr_def Let_def dotted_24 dot_split dots)
  show "ip_in_cidr (dotted a b c d) (?n @ ''/8'') \<longleftrightarrow> a = a'"
    using parts assms by (auto simp: ip_in_cidr_def Let_def dotted_8)
  show "ip_in_cidr (dotted a b c d) (?n @ ''/0'')"
    using parts by (simp add: ip_in_cidr_def Let_def)
  show "ip_in_cidr (dotted a b c d) ?n \<longleftrightarrow> a = a' \<and> b = b' \<and> c = c' \<and> d = d'"
    using n assms by (auto simp: ip_in_cidr_def str_find_0 dotted_def dot_split dots)
  have "take (length a' + 1 + length b') ?n = a' @ ''.'' @ b'"
    by (simp add: dotted_def)
  then show "ip_in_cidr (dotted a b c d) (?n @ ''/16'') \<longleftrightarrow> prefix (a' @ ''.'' @ b') (dotted a b c d)"
    using parts assms take_eq_iff_prefix [of "a' @ ''.'' @ b'" "dotted a b c d"]
    by (simp add: ip_in_cidr_def Let_def second_dot_loop_dotted str_upto_def)
qed

theorem ip_in_cidr_dotted_witness:
  "ip_in_cidr (dotted ''192'' ''168'' ''1'' ''100'') (dotted ''192'' ''168'' ''1'' ''0'' @ ''/24'')
   \<and> \<not> ip_in_cidr (dotted ''203'' ''0'' ''113'' ''1'') (dotted ''192'' ''168'' ''1'' ''0'' @ ''/24'')
   \<and> \<not> ip_in_cidr (dotted ''10'' ''0'' ''0'' ''2'') (dotted ''10'' ''0'' ''0'' ''1'')"
  by (simp add: ip_in_cidr_dotted octet_ok_def)

text \<open>
  \<open>/16\<close> has no boundary check after the second octet, so a network
  \<^verbatim>\<open>a.b.0.0/16\<close> accepts every address whose second octet merely extends \<open>b\<close>.
\<close>

theorem cidr16_crosses_octet:
  assumes "octet_ok a" "octet_ok b" "octet_ok c'" "octet_ok d'"
  shows "ip_in_cidr (dotted a (b @ x) c d) (dotted a b c' d' @ ''/16'')"
  using cidr_parts [OF dotted_no_slash [OF assms]] assms
  by (simp add: ip_in_cidr_def Let_def second_dot_loop_dotted str_upto_def) (simp add: dotted_def)

theorem cidr16_crosses_octet_witness: "ip_in_cidr ''10.12.3.4'' ''10.1.0.0/16''"
  using cidr16_crosses_octet [of "''10''" "''1''" "''0''" "''0''" "''2''" "''3''" "''4''"]
  by (simp add: dotted_def octet_ok_def)

section \<open>The documented readings\<close>

text \<open>
  What the headers and comments say of the two tests: a host pattern is an exact name, a
  wildcard for the subdomains of a domain, or \<^verbatim>\<open>*\<close>; a CIDR entry compares the first three,
  two or one octets, accepts all, or is one address.
\<close>

definition host_documented :: "string \<Rightarrow> string \<Rightarrow> bool" where
  "host_documented host pattern \<longleftrightarrow>
     pattern = ''*'' \<or> host = pattern
     \<or> str_starts_with pattern ''*.'' \<and> subdomain_of host (drop 2 pattern)"

fun octets :: "string \<Rightarrow> string list" where
  "octets [] = [[]]"
| "octets (c # cs) =
     (if c = CHR ''.'' then [] # octets cs else (c # hd (octets cs)) # tl (octets cs))"

definition cidr_documented :: "string \<Rightarrow> string \<Rightarrow> bool" where
  "cidr_documented ip cidr \<longleftrightarrow>
     (let network = takeWhile (\<lambda>c. c \<noteq> CHR ''/'') cidr;
          prefix_len = drop 1 (dropWhile (\<lambda>c. c \<noteq> CHR ''/'') cidr)
      in if CHR ''/'' \<notin> set cidr then ip = cidr
         else if prefix_len = ''24'' then take 3 (octets ip) = take 3 (octets network)
         else if prefix_len = ''16'' then take 2 (octets ip) = take 2 (octets network)
         else if prefix_len = ''8'' then take 1 (octets ip) = take 1 (octets network)
         else if prefix_len = ''0'' then True
         else ip = network)"

lemma octets_append_dot: "CHR ''.'' \<notin> set a \<Longrightarrow> octets (a @ CHR ''.'' # s) = a # octets s"
  by (induction a) auto

lemma octets_no_dot: "CHR ''.'' \<notin> set a \<Longrightarrow> octets a = [a]"
  by (induction a) auto

lemma octets_dotted:
  "octet_ok a \<Longrightarrow> octet_ok b \<Longrightarrow> octet_ok c \<Longrightarrow> octet_ok d \<Longrightarrow> octets (dotted a b c d) = [a, b, c, d]"
  by (simp add: dotted_def octet_ok_def octets_append_dot octets_no_dot)

text \<open>
  The host test is the documented one but for the hosts that end in a wildcard's domain
  without being below it.
\<close>

lemma host_matches_documented:
  "host_matches host pattern \<longleftrightarrow>
     host_documented host pattern
     \<or> str_starts_with pattern ''*.'' \<and> suffix (drop 2 pattern) host \<and> \<not> subdomain_of host (drop 2 pattern)"
proof -
  have "suffix d host" if "subdomain_of host d" for d
    using that by (auto simp: subdomain_of_def suffix_def)
  moreover have "suffix (drop 2 pattern) pattern" by (rule suffix_drop)
  ultimately show ?thesis
    by (auto simp: host_matches_def host_documented_def)
qed

text \<open>On dotted quads the address test is the documented one for every length but \<^verbatim>\<open>/16\<close>.\<close>

lemma ip_in_cidr_documented:
  assumes "octet_ok a" "octet_ok b" "octet_ok c" "octet_ok d"
    and "octet_ok a'" "octet_ok b'" "octet_ok c'" "octet_ok d'"
    and "entry \<in> {dotted a' b' c' d' @ ''/24'', dotted a' b' c' d' @ ''/8'', dotted a' b' c' d' @ ''/0'', dotted a' b' c' d'}"
  shows "ip_in_cidr (dotted a b c d) entry \<longleftrightarrow> cidr_documented (dotted a b c d) entry"
proof -
  let ?n = "dotted a' b' c' d'"
  have n: "CHR ''/'' \<notin> set ?n" using assms by (simp add: dotted_no_slash)
  then have "\<forall>x\<in>set ?n. x \<noteq> CHR ''/''" by blast
  then have cut: "takeWhile (\<lambda>c. c \<noteq> CHR ''/'') (?n @ CHR ''/'' # len) = ?n"
    "dropWhile (\<lambda>c. c \<noteq> CHR ''/'') (?n @ CHR ''/'' # len) = CHR ''/'' # len" for len
    by (simp_all add: takeWhile_append2 dropWhile_append2)
  note read = ip_in_cidr_dotted [OF assms(1-8)] octets_dotted [OF assms(1-4)] octets_dotted [OF assms(5-8)]
  have same: "dotted a b c d = ?n \<longleftrightarrow> a = a' \<and> b = b' \<and> c = c' \<and> d = d'"
    using octets_dotted [OF assms(1-4)] octets_dotted [OF assms(5-8)] by (metis list.inject)
  from assms(9) consider "entry = ?n @ CHR ''/'' # ''24''" | "entry = ?n @ CHR ''/'' # ''8''"
    | "entry = ?n @ CHR ''/'' # ''0''" | "entry = ?n" by blast
  then show ?thesis
  proof cases
  qed (use read n same in \<open>simp_all add: cidr_documented_def Let_def cut\<close>)
qed

end
