(* ===== verification/Route_Trie.thy ===== *)
theory Route_Trie imports Route_Patterns "HOL-Library.Multiset" begin

text \<open>
  The rule store and the path trie of \<^verbatim>\<open>RouteSnapshot::Impl\<close>
  (\<^verbatim>\<open>src/routing/route_snapshot.cpp\<close>). The trie holds raw pointers into the
  \<^verbatim>\<open>std::vector\<close> of rules, so the vector is modelled with the identity of its buffer:
  a pointer is a buffer and an index, and it is dangling once the vector has moved to
  another buffer. \<^verbatim>\<open>std::sort\<close> is the interface \<open>std_sort\<close>: a sorted permutation,
  with no promise about the order of rules of equal priority.
\<close>

section \<open>Rules\<close>

record route_target =
  cluster_name :: string
  path_rewrite :: string

record route_rule =
  host_pattern :: string
  path_prefix :: string
  allowed_client_cidrs :: "string list"
  target :: route_target
  priority :: int

section \<open>The vector of rules and pointers into it\<close>

datatype rule_ptr = RulePtr (ptr_buf: nat) (ptr_idx: nat)

record rule_vec =
  vec_buf :: nat
  vec_cap :: nat
  vec_elems :: "route_rule list"

text \<open>
  \<^verbatim>\<open>push_back\<close> moves the elements to a new buffer when the capacity is used up. How much
  the capacity grows is the library's choice, the parameter \<open>grow\<close>.
\<close>

definition vec_push_back :: "(nat \<Rightarrow> nat) \<Rightarrow> route_rule \<Rightarrow> rule_vec \<Rightarrow> rule_vec" where
  "vec_push_back grow r v =
     (if length (vec_elems v) < vec_cap v then v\<lparr>vec_elems := vec_elems v @ [r]\<rparr>
      else v\<lparr>vec_buf := vec_buf v + 1, vec_cap := grow (vec_cap v),
             vec_elems := vec_elems v @ [r]\<rparr>)"

definition vec_deref :: "rule_vec \<Rightarrow> rule_ptr \<Rightarrow> route_rule option" where
  "vec_deref v p =
     (if ptr_buf p = vec_buf v \<and> ptr_idx p < length (vec_elems v)
      then Some (vec_elems v ! ptr_idx p) else None)"

text \<open>What \<^verbatim>\<open>for (const auto& rule : rules_)\<close> visits: each element with its address.\<close>

definition vec_iter :: "rule_vec \<Rightarrow> (rule_ptr \<times> route_rule) list" where
  "vec_iter v = zip (map (RulePtr (vec_buf v)) [0..<length (vec_elems v)]) (vec_elems v)"

lemma map_snd_vec_iter [simp]: "map snd (vec_iter v) = vec_elems v"
  by (simp add: vec_iter_def)

lemma vec_iter_deref: "(p, r) \<in> set (vec_iter v) \<longleftrightarrow> vec_deref v p = Some r"
  by (cases p) (force simp: vec_iter_def set_zip vec_deref_def)

lemma distinct_vec_iter: "distinct (map fst (vec_iter v))"
  by (simp add: vec_iter_def distinct_map inj_on_def)

section \<open>The sorting interface\<close>

locale std_sort =
  fixes srt :: "('a \<Rightarrow> int) \<Rightarrow> 'a list \<Rightarrow> 'a list"
  assumes mset_srt: "mset (srt key xs) = mset xs"
    and sorted_srt: "sorted (map key (srt key xs))"
begin

lemma set_srt [simp]: "set (srt key xs) = set xs"
  using mset_srt by (metis set_mset_mset)

lemma srt_Nil [simp]: "srt key [] = []"
  using mset_srt [of key "[]"] by simp

lemma srt_eq_Nil [simp]: "srt key xs = [] \<longleftrightarrow> xs = []"
  by (metis set_empty set_srt)

lemma find_srt_least:
  assumes "find P (srt key xs) = Some x"
  shows "x \<in> set xs \<and> P x \<and> (\<forall>y\<in>set xs. P y \<longrightarrow> key x \<le> key y)"
proof -
  from assms obtain i where i: "i < length (srt key xs)" "P (srt key xs ! i)"
      "x = srt key xs ! i" "\<forall>j<i. \<not> P (srt key xs ! j)"
    by (auto simp: find_Some_iff)
  have "key x \<le> key y" if y: "y \<in> set xs" "P y" for y
  proof -
    from y obtain j where j: "j < length (srt key xs)" "y = srt key xs ! j"
      by (metis in_set_conv_nth set_srt)
    with i y(2) have "i \<le> j" by (meson not_le_imp_less)
    with j i sorted_srt [of key xs] show ?thesis
      by (simp add: sorted_iff_nth_mono)
  qed
  moreover have "x \<in> set xs" using i(1,3) nth_mem set_srt by metis
  ultimately show ?thesis using i by blast
qed

end

interpretation stable_sort: std_sort "sort_key :: (rule_ptr \<Rightarrow> int) \<Rightarrow> rule_ptr list \<Rightarrow> rule_ptr list"
  by unfold_locales simp_all

section \<open>The trie\<close>

text \<open>
  \<^verbatim>\<open>std::map<std::string, std::unique_ptr<TrieNode>>\<close> is a partial function to owned
  nodes: the order of its keys is never observed.
\<close>

datatype trie_node =
  TrieNode (children: "string \<Rightarrow> trie_node option") (rules: "rule_ptr list")

definition empty_node :: trie_node where
  "empty_node = TrieNode (\<lambda>_. None) []"

text \<open>
  The inner loop of \<^verbatim>\<open>finalize\<close>: descend along the segments, creating missing
  children, and append the rule to the node reached.
\<close>

fun trie_push :: "string list \<Rightarrow> rule_ptr \<Rightarrow> trie_node \<Rightarrow> trie_node" where
  "trie_push [] p node = TrieNode (children node) (rules node @ [p])"
| "trie_push (seg # segs) p node =
     (let child = (case children node seg of None \<Rightarrow> empty_node | Some c \<Rightarrow> c)
      in TrieNode ((children node)(seg \<mapsto> trie_push segs p child)) (rules node))"

definition insert_rule :: "trie_node \<Rightarrow> rule_ptr \<times> route_rule \<Rightarrow> trie_node" where
  "insert_rule root pr =
     (case pr of (p, rule) \<Rightarrow>
        if path_prefix rule = ''/'' then TrieNode (children root) (rules root @ [p])
        else trie_push (split_path (path_prefix rule)) p root)"

definition build_trie :: "rule_vec \<Rightarrow> trie_node" where
  "build_trie v = foldl insert_rule empty_node (vec_iter v)"

text \<open>
  The comparator dereferences the pointers. \<open>sort_rules\<close> is called by \<^verbatim>\<open>finalize\<close> on
  pointers it has just taken, and \<open>build_trie_deref\<close> shows that each of them is valid.
\<close>

definition ptr_priority :: "rule_vec \<Rightarrow> rule_ptr \<Rightarrow> int" where
  "ptr_priority v p = priority (the (vec_deref v p))"

primrec sort_rules ::
  "((rule_ptr \<Rightarrow> int) \<Rightarrow> rule_ptr list \<Rightarrow> rule_ptr list) \<Rightarrow> (rule_ptr \<Rightarrow> int) \<Rightarrow> trie_node \<Rightarrow> trie_node"
where
  "sort_rules srt key (TrieNode ch rs) =
     TrieNode (map_option (sort_rules srt key) \<circ> ch) (srt key rs)"

text \<open>
  The loop of \<^verbatim>\<open>find_longest_prefix_rules\<close>: the current node, the deepest node with
  rules seen so far, and the remaining segments.
\<close>

fun longest_match :: "trie_node \<Rightarrow> trie_node option \<Rightarrow> string list \<Rightarrow> trie_node option" where
  "longest_match node best [] = best"
| "longest_match node best (seg # segs) =
     (case children node seg of
        None \<Rightarrow> best
      | Some child \<Rightarrow>
          longest_match child (if rules child \<noteq> [] then Some child else best) segs)"

section \<open>The rules stored at a path of the trie\<close>

fun rules_at :: "trie_node \<Rightarrow> string list \<Rightarrow> rule_ptr list" where
  "rules_at node [] = rules node"
| "rules_at node (seg # segs) =
     (case children node seg of None \<Rightarrow> [] | Some child \<Rightarrow> rules_at child segs)"

lemma rules_at_empty_node [simp]: "rules_at empty_node segs = []"
  by (cases segs) (simp_all add: empty_node_def)

lemma rules_at_trie_push:
  "rules_at (trie_push segs p node) k = rules_at node k @ (if k = segs then [p] else [])"
proof (induction segs p node arbitrary: k rule: trie_push.induct)
  case (1 p node)
  then show ?case by (cases k) auto
next
  case (2 seg segs p node)
  then show ?case by (cases k) (auto simp: Let_def split: option.splits)
qed

lemma split_path_root [simp]: "split_path ''/'' = []"
  by (simp add: split_path_words)

text \<open>The special case for the root path is the empty segment list.\<close>

lemma insert_rule_trie_push:
  "insert_rule root (p, rule) = trie_push (split_path (path_prefix rule)) p root"
  by (simp add: insert_rule_def)

text \<open>The pointers to the rules whose prefix splits into the given segments, in order.\<close>

definition ptrs_with_key :: "rule_vec \<Rightarrow> string list \<Rightarrow> rule_ptr list" where
  "ptrs_with_key v k = map fst (filter (\<lambda>(p, r). split_path (path_prefix r) = k) (vec_iter v))"

lemma rules_at_foldl_insert:
  "rules_at (foldl insert_rule root prs) k =
     rules_at root k @ map fst (filter (\<lambda>(p, r). split_path (path_prefix r) = k) prs)"
  by (induction prs arbitrary: root)
     (auto simp: insert_rule_trie_push rules_at_trie_push)

lemma rules_at_build_trie: "rules_at (build_trie v) k = ptrs_with_key v k"
  by (simp add: build_trie_def rules_at_foldl_insert ptrs_with_key_def)

lemma ptrs_with_key_iff:
  "p \<in> set (ptrs_with_key v k) \<longleftrightarrow>
     (\<exists>r. vec_deref v p = Some r \<and> split_path (path_prefix r) = k)"
  by (force simp: ptrs_with_key_def vec_iter_deref [symmetric])

lemma build_trie_deref:
  "p \<in> set (rules_at (build_trie v) k) \<Longrightarrow> vec_deref v p \<noteq> None"
  by (auto simp: rules_at_build_trie ptrs_with_key_iff)

lemma rules_sort_rules [simp]: "rules (sort_rules srt key node) = srt key (rules node)"
  by (cases node) simp

lemma children_sort_rules [simp]:
  "children (sort_rules srt key node) seg = map_option (sort_rules srt key) (children node seg)"
  by (cases node) simp

lemma rules_at_sort_rules:
  assumes "std_sort srt"
  shows "rules_at (sort_rules srt key node) k = srt key (rules_at node k)"
  by (induction k arbitrary: node)
     (auto simp: std_sort.srt_Nil [OF assms] split: option.splits)

section \<open>The longest matching prefix\<close>

fun longest_key :: "(string list \<Rightarrow> bool) \<Rightarrow> string list \<Rightarrow> string list option" where
  "longest_key P [] = None"
| "longest_key P (seg # segs) =
     (case longest_key (\<lambda>k. P (seg # k)) segs of
        Some k \<Rightarrow> Some (seg # k)
      | None \<Rightarrow> if P [seg] then Some [seg] else None)"

lemma longest_key_None:
  "longest_key P segs = None \<longleftrightarrow> (\<forall>k. k \<noteq> [] \<and> prefix k segs \<longrightarrow> \<not> P k)"
proof (induction segs arbitrary: P)
  case Nil
  then show ?case by simp
next
  case (Cons seg segs)
  have "(\<forall>k. k \<noteq> [] \<and> prefix k (seg # segs) \<longrightarrow> \<not> P k) \<longleftrightarrow>
          (\<forall>k. prefix k segs \<longrightarrow> \<not> P (seg # k))"
    by (auto simp: prefix_Cons)
  also have "\<dots> \<longleftrightarrow> \<not> P [seg] \<and> (\<forall>k. k \<noteq> [] \<and> prefix k segs \<longrightarrow> \<not> P (seg # k))"
    by (subst all_list_Nil_or_not) (simp add: imp_conjL)
  finally have "(\<forall>k. k \<noteq> [] \<and> prefix k (seg # segs) \<longrightarrow> \<not> P k) \<longleftrightarrow>
          \<not> P [seg] \<and> (\<forall>k. k \<noteq> [] \<and> prefix k segs \<longrightarrow> \<not> P (seg # k))" .
  then show ?case using Cons.IH [of "\<lambda>k. P (seg # k)"]
    by (auto split: option.splits)
qed

lemma longest_key_Some:
  "longest_key P segs = Some k \<Longrightarrow>
     k \<noteq> [] \<and> prefix k segs \<and> P k \<and> (\<forall>k'. prefix k' segs \<and> length k < length k' \<longrightarrow> \<not> P k')"
proof (induction segs arbitrary: P k)
  case Nil
  then show ?case by simp
next
  case (Cons seg segs)
  show ?case
  proof (cases "longest_key (\<lambda>k. P (seg # k)) segs")
    case (Some k0)
    with Cons.prems have k: "k = seg # k0" by simp
    from Cons.IH [OF Some] k show ?thesis
      by (auto simp: prefix_Cons)
  next
    case None
    then have no: "\<forall>k0. k0 \<noteq> [] \<and> prefix k0 segs \<longrightarrow> \<not> P (seg # k0)"
      by (simp add: longest_key_None)
    with Cons.prems None show ?thesis
      by (auto simp: prefix_Cons split: if_splits)
  qed
qed

text \<open>
  The longest key is unique: two prefixes of one path of equal length are equal.
\<close>

lemma longest_key_eq_Some_iff:
  "longest_key P segs = Some k \<longleftrightarrow>
     k \<noteq> [] \<and> prefix k segs \<and> P k \<and> (\<forall>k'. prefix k' segs \<and> length k < length k' \<longrightarrow> \<not> P k')"
    (is "_ \<longleftrightarrow> ?R k")
proof
  assume k: "?R k"
  then have "longest_key P segs \<noteq> None" using longest_key_None by blast
  then obtain k1 where k1: "longest_key P segs = Some k1" by blast
  note r1 = longest_key_Some [OF k1]
  from r1 k have "length k1 = length k" by (metis nat_neq_iff)
  with r1 k have "prefix k1 k" "prefix k k1"
    by (auto intro: prefix_length_prefix [of _ segs])
  then have "k1 = k" by (rule prefix_order.antisym)
  with k1 show "longest_key P segs = Some k" by simp
qed (rule longest_key_Some)

lemma longest_match_best:
  "longest_match node best segs =
     (case longest_match node None segs of None \<Rightarrow> best | Some n \<Rightarrow> Some n)"
proof (induction segs arbitrary: node best)
  case Nil
  then show ?case by simp
next
  case (Cons seg segs)
  show ?case
  proof (cases "children node seg")
    case (Some child)
    let ?b = "\<lambda>best. if rules child \<noteq> [] then Some child else best"
    from Some Cons.IH [of child "?b best"] Cons.IH [of child "?b None"] show ?thesis
      by (auto split: option.splits)
  qed simp
qed

definition longest_rules :: "trie_node \<Rightarrow> string list \<Rightarrow> rule_ptr list" where
  "longest_rules node segs = (case longest_match node None segs of None \<Rightarrow> [] | Some n \<Rightarrow> rules n)"

lemma longest_match_nonempty: "longest_match node None segs = Some n \<Longrightarrow> rules n \<noteq> []"
proof (induction segs arbitrary: node)
  case (Cons seg segs)
  then show ?case
    using longest_match_best [of _ "Some _" segs]
    by (auto split: option.splits if_splits)
qed simp

lemma longest_rules_Cons:
  "longest_rules node (seg # segs) =
     (case children node seg of
        None \<Rightarrow> []
      | Some child \<Rightarrow>
          if longest_rules child segs \<noteq> [] then longest_rules child segs else rules child)"
proof (cases "children node seg")
  case (Some child)
  then show ?thesis
    using longest_match_best [of child "Some child" segs]
      longest_match_nonempty [of child segs]
    by (auto simp: longest_rules_def split: option.splits)
qed (simp add: longest_rules_def)

lemma longest_rules_key:
  "longest_rules node segs =
     (case longest_key (\<lambda>k. rules_at node k \<noteq> []) segs of None \<Rightarrow> [] | Some k \<Rightarrow> rules_at node k)"
proof (induction segs arbitrary: node)
  case Nil
  then show ?case by (simp add: longest_rules_def)
next
  case (Cons seg segs)
  show ?case
  proof (cases "children node seg")
    case None
    then have "longest_key (\<lambda>k. rules_at node k \<noteq> []) (seg # segs) = None"
      by (subst longest_key_None) (auto simp: prefix_Cons)
    with None show ?thesis by (simp add: longest_rules_Cons)
  next
    case (Some child)
    with Cons.IH [of child] show ?thesis
      by (auto simp: longest_rules_Cons split: option.splits dest: longest_key_Some)
  qed
qed

end
