(* ===== verification/Route_Snapshot.thy ===== *)
theory Route_Snapshot imports Route_Trie begin

text \<open>
  \<^verbatim>\<open>RouteSnapshot\<close> (\<^verbatim>\<open>include/netp2/routing/route_snapshot.h\<close>,
  \<^verbatim>\<open>src/routing/route_snapshot.cpp\<close>): adding rules, \<^verbatim>\<open>finalize\<close> and \<^verbatim>\<open>match\<close>, the
  specification over the plain rule list, and the refinement between the two. A read
  through a dangling rule pointer is the result \<open>None\<close>.
\<close>

section \<open>State and operations\<close>

datatype fail_reason = kNone | kHostMismatch | kPathMismatch | kClientIpDenied

record route_match =
  matched :: bool
  match_target :: route_target
  matched_rule_id :: string
  match_fail_reason :: fail_reason

record route_snapshot =
  snap_rules :: rule_vec
  snap_root :: "trie_node option"

definition new_snapshot :: route_snapshot where
  "new_snapshot = \<lparr>snap_rules = \<lparr>vec_buf = 0, vec_cap = 0, vec_elems = []\<rparr>, snap_root = None\<rparr>"

definition add_rule :: "(nat \<Rightarrow> nat) \<Rightarrow> route_rule \<Rightarrow> route_snapshot \<Rightarrow> route_snapshot" where
  "add_rule grow rule s = s\<lparr>snap_rules := vec_push_back grow rule (snap_rules s)\<rparr>"

definition finalize ::
  "((rule_ptr \<Rightarrow> int) \<Rightarrow> rule_ptr list \<Rightarrow> rule_ptr list) \<Rightarrow> route_snapshot \<Rightarrow> route_snapshot"
where
  "finalize srt s =
     s\<lparr>snap_root := Some (sort_rules srt (ptr_priority (snap_rules s)) (build_trie (snap_rules s)))\<rparr>"

definition rule_count :: "route_snapshot \<Rightarrow> nat" where
  "rule_count s = length (vec_elems (snap_rules s))"

definition find_longest_prefix_rules :: "route_snapshot \<Rightarrow> string \<Rightarrow> rule_ptr list" where
  "find_longest_prefix_rules s path =
     (case snap_root s of
        None \<Rightarrow> []
      | Some root \<Rightarrow>
          let segments = split_path path
          in if segments = [] then rules root
             else case longest_match root None segments of
                    Some node \<Rightarrow> rules node
                  | None \<Rightarrow> [])"

text \<open>The \<^verbatim>\<open>if\<close> around the address check and its \<^verbatim>\<open>for\<close> loop with \<^verbatim>\<open>break\<close>.\<close>

definition ip_allowed :: "string \<Rightarrow> route_rule \<Rightarrow> bool" where
  "ip_allowed client_ip rule \<longleftrightarrow>
     allowed_client_cidrs rule = [] \<or> list_ex (ip_in_cidr client_ip) (allowed_client_cidrs rule)"

definition no_target :: route_target where
  "no_target = \<lparr>cluster_name = [], path_rewrite = []\<rparr>"

definition match_hit :: "route_rule \<Rightarrow> route_match" where
  "match_hit rule = \<lparr>matched = True, match_target = target rule,
     matched_rule_id = host_pattern rule @ path_prefix rule, match_fail_reason = kNone\<rparr>"

definition match_miss :: "fail_reason \<Rightarrow> route_match" where
  "match_miss reason = \<lparr>matched = False, match_target = no_target,
     matched_rule_id = [], match_fail_reason = reason\<rparr>"

text \<open>The loop of \<^verbatim>\<open>match\<close> over the candidates; \<open>reason\<close> is \<^verbatim>\<open>result.fail_reason\<close>.\<close>

fun match_loop ::
  "rule_vec \<Rightarrow> string \<Rightarrow> string \<Rightarrow> fail_reason \<Rightarrow> rule_ptr list \<Rightarrow> route_match option"
where
  "match_loop v host client_ip reason [] =
     Some (match_miss (if reason = kNone then kPathMismatch else reason))"
| "match_loop v host client_ip reason (p # ps) =
     (case vec_deref v p of
        None \<Rightarrow> None
      | Some rule \<Rightarrow>
          if \<not> host_matches host (host_pattern rule) then
            match_loop v host client_ip kHostMismatch ps
          else if \<not> ip_allowed client_ip rule then
            match_loop v host client_ip kClientIpDenied ps
          else Some (match_hit rule))"

definition snapshot_match ::
  "route_snapshot \<Rightarrow> string \<Rightarrow> string \<Rightarrow> string \<Rightarrow> route_match option"
where
  "snapshot_match s host path client_ip =
     match_loop (snap_rules s) host client_ip kNone (find_longest_prefix_rules s path)"

section \<open>Specification over the rule list\<close>

definition rule_key :: "route_rule \<Rightarrow> string list" where
  "rule_key rule = split_path (path_prefix rule)"

definition has_rule :: "route_rule list \<Rightarrow> string list \<Rightarrow> bool" where
  "has_rule rs k \<longleftrightarrow> list_ex (\<lambda>r. rule_key r = k) rs"

definition candidate_rules :: "route_rule list \<Rightarrow> string \<Rightarrow> route_rule list" where
  "candidate_rules rs path =
     (let segments = split_path path
      in if segments = [] then filter (\<lambda>r. rule_key r = []) rs
         else case longest_key (has_rule rs) segments of
                None \<Rightarrow> []
              | Some k \<Rightarrow> filter (\<lambda>r. rule_key r = k) rs)"

definition eligible :: "string \<Rightarrow> string \<Rightarrow> route_rule \<Rightarrow> bool" where
  "eligible host client_ip rule \<longleftrightarrow> host_matches host (host_pattern rule) \<and> ip_allowed client_ip rule"

definition best_of :: "(route_rule \<Rightarrow> bool) \<Rightarrow> route_rule list \<Rightarrow> route_rule \<Rightarrow> bool" where
  "best_of P rs r \<longleftrightarrow> r \<in> set rs \<and> P r \<and> (\<forall>r'\<in>set rs. P r' \<longrightarrow> priority r \<le> priority r')"

definition miss_reason_ok :: "string \<Rightarrow> string \<Rightarrow> route_rule list \<Rightarrow> fail_reason \<Rightarrow> bool" where
  "miss_reason_ok host client_ip rs reason \<longleftrightarrow>
     (case reason of
        kNone \<Rightarrow> False
      | kPathMismatch \<Rightarrow> rs = []
      | kHostMismatch \<Rightarrow> (\<exists>r\<in>set rs. \<not> host_matches host (host_pattern r))
      | kClientIpDenied \<Rightarrow>
          (\<exists>r\<in>set rs. host_matches host (host_pattern r) \<and> \<not> ip_allowed client_ip r))"

definition route_spec :: "route_rule list \<Rightarrow> string \<Rightarrow> string \<Rightarrow> string \<Rightarrow> route_match \<Rightarrow> bool" where
  "route_spec rs host path client_ip m \<longleftrightarrow>
     (if list_ex (eligible host client_ip) (candidate_rules rs path)
      then \<exists>r. best_of (eligible host client_ip) (candidate_rules rs path) r \<and> m = match_hit r
      else \<exists>reason. miss_reason_ok host client_ip (candidate_rules rs path) reason
                    \<and> m = match_miss reason)"

section \<open>Refinement\<close>

lemma match_loop_found:
  assumes "\<forall>p\<in>set ps. vec_deref v p \<noteq> None"
    and "find (\<lambda>p. eligible host ip (the (vec_deref v p))) ps = Some q"
  shows "match_loop v host ip reason ps = Some (match_hit (the (vec_deref v q)))"
  using assms by (induction ps arbitrary: reason) (auto simp: eligible_def split: if_splits)

lemma match_loop_missed:
  assumes "\<forall>p\<in>set ps. vec_deref v p \<noteq> None \<and> \<not> eligible host ip (the (vec_deref v p))"
  shows "\<exists>reason'. match_loop v host ip reason ps = Some (match_miss reason') \<and>
    (if ps = [] then reason' = (if reason = kNone then kPathMismatch else reason)
     else miss_reason_ok host ip (map (the \<circ> vec_deref v) ps) reason')"
  using assms
proof (induction ps arbitrary: reason)
  case Nil
  then show ?case by simp
next
  case (Cons p ps)
  from Cons.prems obtain rule where rule: "vec_deref v p = Some rule" "\<not> eligible host ip rule"
    by auto
  let ?r = "if host_matches host (host_pattern rule) then kClientIpDenied else kHostMismatch"
  from Cons.IH [of ?r] Cons.prems obtain r' where
    r': "match_loop v host ip ?r ps = Some (match_miss r')"
      "if ps = [] then r' = ?r else miss_reason_ok host ip (map (the \<circ> vec_deref v) ps) r'"
    by (auto split: if_splits)
  have "miss_reason_ok host ip (map (the \<circ> vec_deref v) (p # ps)) r'"
    using r'(2) rule
    by (auto simp: miss_reason_ok_def eligible_def split: if_splits fail_reason.splits)
  with r'(1) rule show ?case by (auto simp: eligible_def)
qed

text \<open>The pointers a finalized snapshot hands to the loop are the specification's candidates.\<close>

lemma ptrs_with_key_rules:
  "map (the \<circ> vec_deref v) (ptrs_with_key v k) = filter (\<lambda>r. rule_key r = k) (vec_elems v)"
proof -
  have "map (the \<circ> vec_deref v) (map fst xs) = map snd xs" if "set xs \<subseteq> set (vec_iter v)" for xs
    using that by (induction xs) (auto simp: vec_iter_deref)
  moreover have "set (filter (\<lambda>(p, r). rule_key r = k) (vec_iter v)) \<subseteq> set (vec_iter v)"
    by auto
  ultimately have "map (the \<circ> vec_deref v) (ptrs_with_key v k) =
      map snd (filter (\<lambda>(p, r). rule_key r = k) (vec_iter v))"
    unfolding ptrs_with_key_def rule_key_def by blast
  also have "\<dots> = filter (\<lambda>r. rule_key r = k) (map snd (vec_iter v))"
    by (simp only: filter_map o_def case_prod_unfold)
  finally show ?thesis by simp
qed

lemma ptrs_with_key_empty_iff:
  "ptrs_with_key v k \<noteq> [] \<longleftrightarrow> has_rule (vec_elems v) k"
  using ptrs_with_key_rules [of v k] unfolding has_rule_def
  by (metis (mono_tags, lifting) filter_empty_conv list_ex_iff map_is_Nil_conv)

definition candidate_ptrs :: "rule_vec \<Rightarrow> string \<Rightarrow> rule_ptr list" where
  "candidate_ptrs v path =
     (let segments = split_path path
      in if segments = [] then ptrs_with_key v []
         else case longest_key (\<lambda>k. ptrs_with_key v k \<noteq> []) segments of
                None \<Rightarrow> [] | Some k \<Rightarrow> ptrs_with_key v k)"

lemma find_longest_prefix_rules_finalize:
  assumes "std_sort srt"
  shows "find_longest_prefix_rules (finalize srt s) path =
           srt (ptr_priority (snap_rules s)) (candidate_ptrs (snap_rules s) path)"
proof -
  let ?v = "snap_rules s"
  let ?t = "sort_rules srt (ptr_priority ?v) (build_trie ?v)"
  have at: "rules_at ?t k = srt (ptr_priority ?v) (ptrs_with_key ?v k)" for k
    using assms by (simp add: rules_at_sort_rules rules_at_build_trie)
  have "rules_at ?t k \<noteq> [] \<longleftrightarrow> ptrs_with_key ?v k \<noteq> []" for k
    by (simp add: at std_sort.srt_eq_Nil [OF assms])
  then have "longest_rules ?t segs =
      (case longest_key (\<lambda>k. ptrs_with_key ?v k \<noteq> []) segs of
         None \<Rightarrow> [] | Some k \<Rightarrow> srt (ptr_priority ?v) (ptrs_with_key ?v k))" for segs
    by (simp add: longest_rules_key at split: option.split)
  moreover have "rules ?t = srt (ptr_priority ?v) (ptrs_with_key ?v [])"
    using at [of "[]"] by simp
  ultimately show ?thesis
    by (auto simp: find_longest_prefix_rules_def finalize_def candidate_ptrs_def Let_def
        longest_rules_def std_sort.srt_Nil [OF assms] split: option.splits)
qed

lemma candidate_ptrs_rules:
  "map (the \<circ> vec_deref v) (candidate_ptrs v path) = candidate_rules (vec_elems v) path"
  by (auto simp: candidate_ptrs_def candidate_rules_def Let_def ptrs_with_key_rules
      ptrs_with_key_empty_iff [abs_def] split: option.splits)

lemma candidate_ptrs_deref: "p \<in> set (candidate_ptrs v path) \<Longrightarrow> vec_deref v p \<noteq> None"
  by (auto simp: candidate_ptrs_def Let_def ptrs_with_key_iff split: if_splits option.splits)


lemma find_map_Some:
  "find P xs = Some q \<Longrightarrow> q \<in> set xs \<and> P q"
  by (induction xs) (auto split: if_splits)

lemma find_None: "find P xs = None \<longleftrightarrow> (\<forall>x\<in>set xs. \<not> P x)"
  by (auto simp: find_None_iff)

lemma finalize_match_spec:
  assumes "std_sort srt"
  shows "\<exists>m. snapshot_match (finalize srt s) host path ip = Some m
             \<and> route_spec (vec_elems (snap_rules s)) host path ip m"
proof -
  let ?v = "snap_rules s"
  let ?cs = "candidate_ptrs ?v path"
  let ?ps = "srt (ptr_priority ?v) ?cs"
  let ?P = "\<lambda>p. eligible host ip (the (vec_deref ?v p))"
  have v: "snap_rules (finalize srt s) = ?v" by (simp add: finalize_def)
  have run: "snapshot_match (finalize srt s) host path ip = match_loop ?v host ip kNone ?ps"
    by (simp add: snapshot_match_def v find_longest_prefix_rules_finalize [OF assms])
  have set_ps: "set ?ps = set ?cs" by (rule std_sort.set_srt [OF assms])
  then have deref: "\<forall>p\<in>set ?ps. vec_deref ?v p \<noteq> None"
    using candidate_ptrs_deref by blast
  have cand: "set (candidate_rules (vec_elems ?v) path) = (the \<circ> vec_deref ?v) ` set ?cs"
    using candidate_ptrs_rules [of ?v path] by (metis set_map)
  show ?thesis
  proof (cases "find ?P ?ps")
    case (Some q)
    let ?r = "the (vec_deref ?v q)"
    from std_sort.find_srt_least [OF assms Some]
    have q: "q \<in> set ?cs" "?P q" "\<forall>p\<in>set ?cs. ?P p \<longrightarrow> ptr_priority ?v q \<le> ptr_priority ?v p"
      by auto
    then have "best_of (eligible host ip) (candidate_rules (vec_elems ?v) path) ?r"
      by (auto simp: best_of_def cand ptr_priority_def)
    moreover from this have "list_ex (eligible host ip) (candidate_rules (vec_elems ?v) path)"
      by (auto simp: best_of_def list_ex_iff)
    ultimately show ?thesis
      using run match_loop_found [OF deref Some] by (auto simp: route_spec_def)
  next
    case None
    then have miss: "\<forall>p\<in>set ?ps. vec_deref ?v p \<noteq> None \<and> \<not> ?P p"
      using deref by (auto simp: find_None)
    then have none: "\<not> list_ex (eligible host ip) (candidate_rules (vec_elems ?v) path)"
      by (auto simp: list_ex_iff cand set_ps)
    have same: "set (map (the \<circ> vec_deref ?v) ?ps) = set (candidate_rules (vec_elems ?v) path)"
      by (simp add: cand set_ps)
    from match_loop_missed [OF miss, of kNone] obtain reason where
      m: "match_loop ?v host ip kNone ?ps = Some (match_miss reason)"
        "if ?ps = [] then reason = kPathMismatch
         else miss_reason_ok host ip (map (the \<circ> vec_deref ?v) ?ps) reason"
      by auto
    have "miss_reason_ok host ip (candidate_rules (vec_elems ?v) path) reason"
      using m(2) same by (auto simp: miss_reason_ok_def split: if_splits fail_reason.splits)
    with m(1) none run show ?thesis by (auto simp: route_spec_def)
  qed
qed

text \<open>A snapshot with the rules of the unit test for the longest prefix.\<close>

definition demo_rule :: "string \<Rightarrow> string \<Rightarrow> string \<Rightarrow> int \<Rightarrow> route_rule" where
  "demo_rule host prefix_path cluster prio =
     \<lparr>host_pattern = host, path_prefix = prefix_path, allowed_client_cidrs = [],
      target = \<lparr>cluster_name = cluster, path_rewrite = []\<rparr>, priority = prio\<rparr>"

definition demo_snapshot :: "route_rule list \<Rightarrow> route_snapshot" where
  "demo_snapshot rs = foldl (\<lambda>s r. add_rule (\<lambda>n. 2 * n + 1) r s) new_snapshot rs"

lemma vec_elems_push_back [simp]: "vec_elems (vec_push_back grow r v) = vec_elems v @ [r]"
  by (simp add: vec_push_back_def)

lemma vec_elems_add_rules [simp]:
  "vec_elems (snap_rules (foldl (\<lambda>s r. add_rule grow r s) s rs)) = vec_elems (snap_rules s) @ rs"
  by (induction rs arbitrary: s) (simp_all add: add_rule_def)

lemma vec_elems_demo [simp]: "vec_elems (snap_rules (demo_snapshot rs)) = rs"
  by (simp add: demo_snapshot_def new_snapshot_def)

lemmas demo_simps =
  demo_rule_def rule_key_def candidate_rules_def has_rule_def split_path_words eligible_def
  ip_allowed_def host_matches_def

lemma route_spec_matched:
  "route_spec rs host path ip m \<Longrightarrow>
     matched m \<longleftrightarrow> list_ex (eligible host ip) (candidate_rules rs path)"
  by (auto simp: route_spec_def match_hit_def match_miss_def split: if_splits)

section \<open>Consequences of the refinement\<close>

lemma has_rule_iff: "has_rule rs k \<longleftrightarrow> (\<exists>r\<in>set rs. rule_key r = k)"
  by (simp add: has_rule_def list_ex_iff)

lemma candidate_rules_iff:
  "r \<in> set (candidate_rules rs path) \<longleftrightarrow>
     r \<in> set rs \<and> prefix (rule_key r) (split_path path)
     \<and> (rule_key r = [] \<longleftrightarrow> split_path path = [])
     \<and> (\<forall>r'\<in>set rs. prefix (rule_key r') (split_path path) \<longrightarrow>
            length (rule_key r') \<le> length (rule_key r))"
proof (cases "split_path path = []")
  case True
  then show ?thesis by (auto simp: candidate_rules_def)
next
  case False
  show ?thesis
  proof (cases "longest_key (has_rule rs) (split_path path)")
    case None
    then have "r \<in> set rs \<Longrightarrow> prefix (rule_key r) (split_path path) \<Longrightarrow> rule_key r = []"
      by (auto simp: longest_key_None has_rule_iff)
    with False None show ?thesis
      by (auto simp: candidate_rules_def)
  next
    case (Some k)
    note k = longest_key_Some [OF Some]
    have "r \<in> set rs \<and> rule_key r = k \<longleftrightarrow>
       r \<in> set rs \<and> prefix (rule_key r) (split_path path) \<and> rule_key r \<noteq> []
       \<and> (\<forall>r'\<in>set rs. prefix (rule_key r') (split_path path) \<longrightarrow>
              length (rule_key r') \<le> length (rule_key r))" (is "?L \<longleftrightarrow> ?R")
    proof
      assume ?L
      with k show ?R by (auto simp: has_rule_iff not_less [symmetric])
    next
      assume R: ?R
      then have "longest_key (has_rule rs) (split_path path) = Some (rule_key r)"
        by (auto simp: longest_key_eq_Some_iff has_rule_iff not_le [symmetric])
      with R Some show ?L by simp
    qed
    with False Some show ?thesis by (auto simp: candidate_rules_def)
  qed
qed

text \<open>
  The longest prefix wins. A matched request is served by a rule of the list whose prefix
  segments begin the request's segments, and no rule with a longer prefix of the path
  exists, whatever its host and addresses.
\<close>

theorem match_longest_prefix:
  assumes "std_sort srt" and "snapshot_match (finalize srt s) host path ip = Some m" and "matched m"
  shows "\<exists>r\<in>set (vec_elems (snap_rules s)). m = match_hit r \<and> eligible host ip r
     \<and> prefix (rule_key r) (split_path path)
     \<and> (rule_key r = [] \<longleftrightarrow> split_path path = [])
     \<and> (\<forall>r'\<in>set (vec_elems (snap_rules s)). prefix (rule_key r') (split_path path) \<longrightarrow>
            length (rule_key r') \<le> length (rule_key r))"
proof -
  from finalize_match_spec [OF assms(1), of s host path ip] assms(2)
  have spec: "route_spec (vec_elems (snap_rules s)) host path ip m" by simp
  with route_spec_matched [OF spec] assms(3) obtain r where
    "best_of (eligible host ip) (candidate_rules (vec_elems (snap_rules s)) path) r" "m = match_hit r"
    by (auto simp: route_spec_def)
  then show ?thesis by (auto simp: best_of_def candidate_rules_iff)
qed

theorem match_longest_prefix_witness:
  "\<exists>m. snapshot_match (finalize sort_key (demo_snapshot
          [demo_rule ''a.com'' ''/api'' ''general'' 10, demo_rule ''a.com'' ''/api/v2/users'' ''users'' 5]))
          ''a.com'' ''/api/v2/users/123'' ''127.0.0.1'' = Some m
       \<and> cluster_name (match_target m) = ''users''"
proof -
  let ?s = "demo_snapshot
     [demo_rule ''a.com'' ''/api'' ''general'' 10, demo_rule ''a.com'' ''/api/v2/users'' ''users'' 5]"
  obtain m where m: "snapshot_match (finalize sort_key ?s) ''a.com'' ''/api/v2/users/123'' ''127.0.0.1'' = Some m"
    "route_spec (vec_elems (snap_rules ?s)) ''a.com'' ''/api/v2/users/123'' ''127.0.0.1'' m"
    using finalize_match_spec [OF stable_sort.std_sort_axioms] by blast
  then have "matched m" by (simp add: route_spec_matched demo_simps)
  from match_longest_prefix [OF stable_sort.std_sort_axioms m(1) this]
  show ?thesis using m(1)
    by (auto simp: demo_simps match_hit_def)
qed

section \<open>The documented routing\<close>

text \<open>
  Host, then path, then client address: among the rules that cover the path, those whose host
  pattern matches; of these, those with the longest prefix; of these, those that admit the
  client. The rule for \<^verbatim>\<open>/\<close> covers the root path only.
\<close>

definition covers :: "string \<Rightarrow> route_rule \<Rightarrow> bool" where
  "covers path rule \<longleftrightarrow>
     (if path_prefix rule = ''/'' then path = ''/''
      else prefix (split_path (path_prefix rule)) (split_path path))"

definition host_hits :: "route_rule list \<Rightarrow> string \<Rightarrow> string \<Rightarrow> route_rule list" where
  "host_hits rs host path = filter (\<lambda>r. host_documented host (host_pattern r)) (filter (covers path) rs)"

definition longest_prefixes :: "route_rule list \<Rightarrow> route_rule list" where
  "longest_prefixes rs = filter (\<lambda>r. list_all (\<lambda>r'. length (rule_key r') \<le> length (rule_key r)) rs) rs"

definition ip_documented :: "string \<Rightarrow> route_rule \<Rightarrow> bool" where
  "ip_documented ip rule \<longleftrightarrow>
     allowed_client_cidrs rule = [] \<or> list_ex (cidr_documented ip) (allowed_client_cidrs rule)"

definition documented_route :: "route_rule list \<Rightarrow> string \<Rightarrow> string \<Rightarrow> string \<Rightarrow> route_match \<Rightarrow> bool" where
  "documented_route rs host path ip m \<longleftrightarrow>
     (let candidates = longest_prefixes (host_hits rs host path)
      in if list_ex (ip_documented ip) candidates
         then \<exists>r. best_of (ip_documented ip) candidates r \<and> m = match_hit r
         else \<exists>reason. m = match_miss reason \<and> reason \<noteq> kNone
           \<and> (reason = kPathMismatch \<longleftrightarrow> filter (covers path) rs = [])
           \<and> (reason = kClientIpDenied \<longrightarrow> candidates \<noteq> [])
           \<and> (reason = kHostMismatch \<longrightarrow>
                list_ex (\<lambda>r. \<not> host_documented host (host_pattern r)) (filter (covers path) rs)))"

text \<open>
  The inputs it is stated for. Paths start with a slash and have a segment unless they are
  \<^verbatim>\<open>/\<close>; the host and the address are not among those where the text tests go beyond what is
  documented; and no rule of another host hides a shorter prefix of this host.
\<close>

definition canonical_path :: "string \<Rightarrow> bool" where
  "canonical_path path \<longleftrightarrow> path = ''/'' \<or> split_path path \<noteq> []"

definition plain_tests :: "route_rule list \<Rightarrow> string \<Rightarrow> string \<Rightarrow> bool" where
  "plain_tests rs host ip \<longleftrightarrow>
     list_all (\<lambda>r. (host_matches host (host_pattern r) \<longrightarrow> host_documented host (host_pattern r))
       \<and> list_all (\<lambda>cidr. ip_in_cidr ip cidr \<longleftrightarrow> cidr_documented ip cidr) (allowed_client_cidrs r)) rs"

definition hidden :: "route_rule list \<Rightarrow> string \<Rightarrow> string \<Rightarrow> bool" where
  "hidden rs host path \<longleftrightarrow>
     host_hits rs host path \<noteq> []
     \<and> list_ex (\<lambda>r. list_all (\<lambda>r'. length (rule_key r') < length (rule_key r)) (host_hits rs host path))
         (filter (covers path) rs)"

lemma covers_key:
  assumes "canonical_path path" "canonical_path (path_prefix r)"
  shows "covers path r \<longleftrightarrow>
     prefix (rule_key r) (split_path path) \<and> (rule_key r = [] \<longleftrightarrow> split_path path = [])"
  using assms by (auto simp: covers_def canonical_path_def rule_key_def)

lemma plain_eligible:
  assumes "plain_tests rs host ip" "r \<in> set rs"
  shows "host_matches host (host_pattern r) \<longleftrightarrow> host_documented host (host_pattern r)"
    and "ip_allowed ip r \<longleftrightarrow> ip_documented ip r"
proof -
  show "host_matches host (host_pattern r) \<longleftrightarrow> host_documented host (host_pattern r)"
    using assms host_matches_documented by (auto simp: plain_tests_def list_all_iff)
  show "ip_allowed ip r \<longleftrightarrow> ip_documented ip r"
    using assms by (auto simp: plain_tests_def list_all_iff list_ex_iff ip_allowed_def ip_documented_def)
qed

lemma candidates_longest:
  assumes "canonical_path path" "\<forall>r\<in>set rs. canonical_path (path_prefix r)"
  shows "set (candidate_rules rs path) = set (longest_prefixes (filter (covers path) rs))"
proof (rule set_eqI)
  fix r
  have ck: "covers path r' \<longleftrightarrow>
      prefix (rule_key r') (split_path path) \<and> (rule_key r' = [] \<longleftrightarrow> split_path path = [])" if "r' \<in> set rs" for r'
    using covers_key [OF assms(1)] assms(2) that by blast
  have "length (rule_key r') \<le> n"
    if "\<forall>r'\<in>set rs. covers path r' \<longrightarrow> length (rule_key r') \<le> n" "r' \<in> set rs" "prefix (rule_key r') (split_path path)"
    for r' n
    using that ck [of r'] by (cases "rule_key r' = []") auto
  then show "r \<in> set (candidate_rules rs path) \<longleftrightarrow> r \<in> set (longest_prefixes (filter (covers path) rs))"
    using ck by (simp add: candidate_rules_iff longest_prefixes_def list_all_iff) blast
qed

text \<open>With no rule hidden, the host filter may come before or after the longest prefix.\<close>

lemma host_first:
  assumes "\<not> hidden rs host path" "host_hits rs host path \<noteq> []"
  shows "set (longest_prefixes (host_hits rs host path)) =
     {r \<in> set (longest_prefixes (filter (covers path) rs)). host_documented host (host_pattern r)}"
proof (rule set_eqI)
  fix r
  let ?hits = "host_hits rs host path" and ?covering = "filter (covers path) rs"
  have "length (rule_key r') \<le> n"
    if "\<forall>h\<in>set ?hits. length (rule_key h) \<le> n" "r' \<in> set ?covering" for r' n
  proof -
    from assms that(2) obtain h where "h \<in> set ?hits" "length (rule_key r') \<le> length (rule_key h)"
      by (auto simp: hidden_def list_ex_iff list_all_iff not_less)
    with that(1) show ?thesis by (meson order_trans)
  qed
  then show "r \<in> set (longest_prefixes ?hits) \<longleftrightarrow>
      r \<in> {r \<in> set (longest_prefixes ?covering). host_documented host (host_pattern r)}"
    by (auto simp: longest_prefixes_def list_all_iff host_hits_def)
qed

lemma longest_prefixes_empty: "longest_prefixes rs = [] \<longleftrightarrow> rs = []"
proof
  assume e: "longest_prefixes rs = []"
  show "rs = []"
  proof (rule ccontr)
    assume "rs \<noteq> []"
    then have "Max ((\<lambda>r. length (rule_key r)) ` set rs) \<in> (\<lambda>r. length (rule_key r)) ` set rs"
      by (intro Max_in) auto
    then obtain r where "r \<in> set rs" "Max ((\<lambda>r. length (rule_key r)) ` set rs) = length (rule_key r)" by auto
    moreover from this(2) have "\<forall>r'\<in>set rs. length (rule_key r') \<le> length (rule_key r)"
      by (metis (no_types, lifting) List.finite_set Max_ge finite_imageI imageI)
    ultimately show False using e by (auto simp: longest_prefixes_def filter_empty_conv list_all_iff)
  qed
qed (simp add: longest_prefixes_def)

lemma spec_documented:
  assumes "canonical_path path" "\<forall>r\<in>set rs. canonical_path (path_prefix r)"
    and "plain_tests rs host ip" "\<not> hidden rs host path" and "route_spec rs host path ip m"
  shows "documented_route rs host path ip m"
proof -
  let ?covering = "filter (covers path) rs"
  let ?docs = "longest_prefixes (host_hits rs host path)"
  note cand = candidates_longest [OF assms(1,2)]
  have sub: "r \<in> set rs" if "r \<in> set (longest_prefixes ?covering)" for r
    using that by (auto simp: longest_prefixes_def)
  have docs: "set ?docs = {r \<in> set (longest_prefixes ?covering). host_documented host (host_pattern r)}"
  proof (cases "host_hits rs host path = []")
    case True
    then show ?thesis
      by (auto simp: longest_prefixes_def host_hits_def filter_empty_conv)
  qed (rule host_first [OF assms(4)])
  have elig: "r \<in> set (candidate_rules rs path) \<and> eligible host ip r \<longleftrightarrow> r \<in> set ?docs \<and> ip_documented ip r" for r
    using plain_eligible [OF assms(3)] sub by (auto simp: cand docs eligible_def)
  show ?thesis
  proof (cases "list_ex (eligible host ip) (candidate_rules rs path)")
    case True
    with assms(5) obtain r where "best_of (eligible host ip) (candidate_rules rs path) r" "m = match_hit r"
      by (auto simp: route_spec_def)
    moreover from True elig have "list_ex (ip_documented ip) ?docs" by (auto simp: list_ex_iff)
    ultimately show ?thesis
      using elig by (auto simp: documented_route_def best_of_def Let_def)
  next
    case False
    with elig have no: "\<not> list_ex (ip_documented ip) ?docs" by (auto simp: list_ex_iff)
    from False assms(5) obtain reason where
      r: "miss_reason_ok host ip (candidate_rules rs path) reason" "m = match_miss reason"
      by (auto simp: route_spec_def)
    have "candidate_rules rs path = [] \<longleftrightarrow> ?covering = []"
      using cand longest_prefixes_empty [of ?covering] by (metis set_empty)
    moreover have "?docs \<noteq> []" if denied: "reason = kClientIpDenied"
    proof -
      from r(1) denied obtain r' where "r' \<in> set (candidate_rules rs path)" "host_matches host (host_pattern r')"
        by (auto simp: miss_reason_ok_def)
      with plain_eligible(1) [OF assms(3)] sub have "r' \<in> set ?docs" by (simp add: cand docs)
      then show ?thesis by (metis empty_iff empty_set)
    qed
    moreover have "list_ex (\<lambda>r. \<not> host_documented host (host_pattern r)) ?covering" if other: "reason = kHostMismatch"
    proof -
      from r(1) other obtain r' where r': "r' \<in> set (candidate_rules rs path)" "\<not> host_matches host (host_pattern r')"
        by (auto simp: miss_reason_ok_def)
      then have "r' \<in> set ?covering" by (simp add: cand longest_prefixes_def)
      with r'(2) plain_eligible(1) [OF assms(3)] show ?thesis by (auto simp: list_ex_iff)
    qed
    ultimately show ?thesis
      using r no by (auto simp: documented_route_def Let_def miss_reason_ok_def split: fail_reason.splits)
  qed
qed


definition demo_acl :: "route_rule list" where
  "demo_acl =
     [(demo_rule ''*.example.com'' ''/api'' ''inner'' 0)\<lparr>allowed_client_cidrs := [''192.168.1.0/24'']\<rparr>,
      demo_rule ''api.example.com'' ''/api'' ''outer'' 5,
      demo_rule ''*'' ''/'' ''root'' 0]"


section \<open>Independence of the sorting routine\<close>

lemma std_sort_unique:
  assumes "std_sort srt1" "std_sort srt2" "inj_on key (set xs)" "distinct xs"
  shows "srt1 key xs = srt2 key xs"
proof -
  have d: "distinct (srt key xs)" if "std_sort srt" for srt :: "('a \<Rightarrow> int) \<Rightarrow> 'a list \<Rightarrow> 'a list"
    using std_sort.mset_srt [OF that, of key xs] assms(4) mset_eq_imp_distinct_iff by blast
  show ?thesis
    by (rule map_sorted_distinct_set_unique [of key])
       (use assms d in \<open>simp_all add: std_sort.set_srt std_sort.sorted_srt distinct_map\<close>)
qed

lemma candidate_ptrs_distinct: "distinct (candidate_ptrs v path)"
  using distinct_vec_iter [of v]
  by (auto simp: candidate_ptrs_def ptrs_with_key_def Let_def distinct_map_filter split: option.split)

text \<open>
  \<^verbatim>\<open>std::sort\<close> is not stable, yet when the candidates of a path have
  pairwise different priorities, any two sorting routines give the same result, hit or
  miss.
\<close>

theorem match_independent_of_sort:
  assumes "std_sort srt1" "std_sort srt2"
    and "distinct (map priority (candidate_rules (vec_elems (snap_rules s)) path))"
  shows "snapshot_match (finalize srt1 s) host path ip = snapshot_match (finalize srt2 s) host path ip"
proof -
  let ?v = "snap_rules s"
  have "map priority (candidate_rules (vec_elems ?v) path) = map (ptr_priority ?v) (candidate_ptrs ?v path)"
    by (simp add: candidate_ptrs_rules [symmetric] ptr_priority_def [abs_def] o_def)
  with assms(3) have "inj_on (ptr_priority ?v) (set (candidate_ptrs ?v path))"
    by (simp add: distinct_map)
  with std_sort_unique [OF assms(1,2) _ candidate_ptrs_distinct] show ?thesis
    by (simp add: snapshot_match_def find_longest_prefix_rules_finalize assms(1,2))
       (simp add: finalize_def)
qed

theorem match_independent_of_sort_witness:
  "snapshot_match (finalize sort_key (demo_snapshot
       [demo_rule ''*'' ''/api'' ''low'' 100, demo_rule ''*'' ''/api'' ''high'' 1])) ''h'' ''/api/x'' ''1.2.3.4''
   = snapshot_match (finalize (\<lambda>key xs. rev (sort_key (\<lambda>x. - key x) xs)) (demo_snapshot
       [demo_rule ''*'' ''/api'' ''low'' 100, demo_rule ''*'' ''/api'' ''high'' 1])) ''h'' ''/api/x'' ''1.2.3.4''"
proof (rule match_independent_of_sort)
  show "std_sort (sort_key :: (rule_ptr \<Rightarrow> int) \<Rightarrow> rule_ptr list \<Rightarrow> rule_ptr list)"
    by (rule stable_sort.std_sort_axioms)
  show "std_sort (\<lambda>(key :: rule_ptr \<Rightarrow> int) xs. rev (sort_key (\<lambda>x. - key x) xs))"
  proof
    fix key :: "rule_ptr \<Rightarrow> int" and xs
    have "sorted_wrt (\<lambda>x y. key y \<le> key x) (sort_key (\<lambda>x. - key x) xs)"
      using sorted_sort_key [of "\<lambda>x. - key x" xs] by (simp add: sorted_map)
    then show "sorted (map key (rev (sort_key (\<lambda>x. - key x) xs)))"
      by (simp add: sorted_map sorted_wrt_rev)
  qed simp
qed (simp add: demo_simps)

section \<open>The order Host, Path, Client IP\<close>

text \<open>
  The architecture documents ask for host matching before the longest-prefix search:
  the candidates would be the longest-prefix rules among those whose host matches.
\<close>

definition host_first_rules :: "route_rule list \<Rightarrow> string \<Rightarrow> string \<Rightarrow> route_rule list" where
  "host_first_rules rs host path =
     candidate_rules (filter (\<lambda>r. host_matches host (host_pattern r)) rs) path"

text \<open>
  What the code matches, the documented order matches too, with the
  same rule.
\<close>

theorem host_first_sound:
  assumes "std_sort srt" and "snapshot_match (finalize srt s) host path ip = Some m" and "matched m"
  shows "\<exists>r. m = match_hit r
             \<and> best_of (eligible host ip) (host_first_rules (vec_elems (snap_rules s)) host path) r"
proof -
  let ?rs = "vec_elems (snap_rules s)"
  from finalize_match_spec [OF assms(1), of s host path ip] assms(2)
  have spec: "route_spec ?rs host path ip m" by simp
  with route_spec_matched [OF spec] assms(3) obtain r where
    r: "best_of (eligible host ip) (candidate_rules ?rs path) r" "m = match_hit r"
    by (auto simp: route_spec_def)
  have in_first: "r \<in> set (host_first_rules ?rs host path)"
    using r(1) by (auto simp: best_of_def host_first_rules_def candidate_rules_iff eligible_def)
  have "r' \<in> set (candidate_rules ?rs path)"
    if "r' \<in> set (host_first_rules ?rs host path)" for r'
    using that in_first r(1)
    by (auto simp: best_of_def host_first_rules_def candidate_rules_iff) (metis order_trans)
  with in_first r show ?thesis by (auto simp: best_of_def)
qed

theorem host_first_sound_witness:
  "\<exists>r. best_of (eligible ''a.com'' ''1.2.3.4'')
          (host_first_rules [demo_rule ''a.com'' ''/api'' ''c'' 0] ''a.com'' ''/api/x'') r"
proof -
  let ?s = "demo_snapshot [demo_rule ''a.com'' ''/api'' ''c'' 0]"
  obtain m where m: "snapshot_match (finalize sort_key ?s) ''a.com'' ''/api/x'' ''1.2.3.4'' = Some m"
    "route_spec (vec_elems (snap_rules ?s)) ''a.com'' ''/api/x'' ''1.2.3.4'' m"
    using finalize_match_spec [OF stable_sort.std_sort_axioms] by blast
  then have "matched m" by (simp add: route_spec_matched demo_simps)
  from host_first_sound [OF stable_sort.std_sort_axioms m(1) this] show ?thesis by auto
qed

text \<open>
  The converse fails. Whenever a longer prefix belongs to rules of other
  hosts only, a request for a host that has a rule at a shorter prefix is refused with a
  host mismatch, although the documented order would serve it.
\<close>

theorem longer_prefix_hides_host:
  assumes "std_sort srt" and "vec_elems (snap_rules s) = [r1, r2]"
    and "rule_key r1 = a" and "rule_key r2 = a @ b" and "b \<noteq> []" and "split_path path = a @ b @ c"
    and "a \<noteq> []" and "eligible host ip r1" and "\<not> host_matches host (host_pattern r2)"
  shows "snapshot_match (finalize srt s) host path ip = Some (match_miss kHostMismatch)
         \<and> best_of (eligible host ip) (host_first_rules (vec_elems (snap_rules s)) host path) r1"
proof -
  have cand: "r \<in> set (candidate_rules [r1, r2] path) \<longleftrightarrow> r = r2" for r
    using assms(3-7) by (auto simp: candidate_rules_iff)
  then have no: "\<not> list_ex (eligible host ip) (candidate_rules [r1, r2] path)"
    using assms(9) by (auto simp: list_ex_iff eligible_def)
  have "r2 \<in> set (candidate_rules [r1, r2] path)" by (simp only: cand)
  then have ne: "candidate_rules [r1, r2] path \<noteq> []" by (cases "candidate_rules [r1, r2] path") simp_all
  from finalize_match_spec [OF assms(1), of s host path ip] obtain m where
    m: "snapshot_match (finalize srt s) host path ip = Some m" "route_spec [r1, r2] host path ip m"
    by (auto simp: assms(2))
  from m(2) no obtain reason where
    r: "miss_reason_ok host ip (candidate_rules [r1, r2] path) reason" "m = match_miss reason"
    by (auto simp: route_spec_def)
  from r(1) ne cand assms(9) have "reason = kHostMismatch"
    by (auto simp: miss_reason_ok_def split: fail_reason.splits)
  moreover have "r \<in> set (host_first_rules [r1, r2] host path) \<longleftrightarrow> r = r1" for r
    using assms(3-9) by (auto simp: host_first_rules_def candidate_rules_iff eligible_def)
  ultimately show ?thesis using m r assms(2,8) by (auto simp: best_of_def)
qed

theorem longer_prefix_hides_host_witness:
  "snapshot_match (finalize sort_key (demo_snapshot
      [demo_rule ''a.com'' ''/api'' ''a'' 0, demo_rule ''b.com'' ''/api/v2'' ''b'' 0]))
      ''a.com'' ''/api/v2/users'' ''1.2.3.4'' = Some (match_miss kHostMismatch)"
  using longer_prefix_hides_host [OF stable_sort.std_sort_axioms,
      of "demo_snapshot [demo_rule ''a.com'' ''/api'' ''a'' 0, demo_rule ''b.com'' ''/api/v2'' ''b'' 0]"
         "demo_rule ''a.com'' ''/api'' ''a'' 0" "demo_rule ''b.com'' ''/api/v2'' ''b'' 0"
         "[''api'']" "[''v2'']" "''/api/v2/users''" "[''users'']" "''a.com''" "''1.2.3.4''"]
  by (simp add: demo_simps)

section \<open>Pointers into the rule vector\<close>

lemma match_loop_deref_cong:
  assumes "\<forall>p\<in>set ps. vec_deref v' p = vec_deref v p"
  shows "match_loop v' host ip reason ps = match_loop v host ip reason ps"
  using assms by (induction ps arbitrary: reason) (auto split: option.split)

lemma vec_push_back_deref:
  assumes "vec_deref v p \<noteq> None"
  shows "vec_deref (vec_push_back grow r v) p =
           (if length (vec_elems v) < vec_cap v then vec_deref v p else None)"
  using assms by (auto simp: vec_deref_def vec_push_back_def nth_append split: if_splits)

text \<open>
  C22 (type): \<open>finalize\<close> builds a well-formed trie. Every node's rules are pairwise different
  pointers, ordered by priority, and the pointers found at the end of a path of segments are
  exactly those into the rule vector, all valid, whose rule has these segments as its
  prefix: each rule is stored once, at its own node.
\<close>

theorem finalize_well_formed:
  assumes "std_sort srt"
  shows "\<exists>root. snap_root (finalize srt s) = Some root
     \<and> (\<forall>k. sorted (map (ptr_priority (snap_rules s)) (rules_at root k)) \<and> distinct (rules_at root k)
          \<and> set (rules_at root k) = {p. \<exists>r. vec_deref (snap_rules s) p = Some r \<and> rule_key r = k})"
proof -
  let ?v = "snap_rules s"
  let ?root = "sort_rules srt (ptr_priority ?v) (build_trie ?v)"
  have at: "rules_at ?root k = srt (ptr_priority ?v) (ptrs_with_key ?v k)" for k
    using assms by (simp add: rules_at_sort_rules rules_at_build_trie)
  have "distinct (ptrs_with_key ?v k)" for k
    using distinct_vec_iter [of ?v] by (simp add: ptrs_with_key_def distinct_map_filter)
  then have "distinct (rules_at ?root k)" for k
    using std_sort.mset_srt [OF assms, of "ptr_priority ?v" "ptrs_with_key ?v k"]
    by (simp add: at) (metis mset_eq_imp_distinct_iff)
  moreover have "sorted (map (ptr_priority ?v) (rules_at ?root k))" for k
    by (simp add: at std_sort.sorted_srt [OF assms])
  moreover have "set (rules_at ?root k) = {p. \<exists>r. vec_deref ?v p = Some r \<and> rule_key r = k}" for k
    by (auto simp: at std_sort.set_srt [OF assms] ptrs_with_key_iff rule_key_def)
  ultimately show ?thesis by (simp add: finalize_def)
qed

theorem finalize_well_formed_witness:
  "\<exists>root. snap_root (finalize sort_key (demo_snapshot [demo_rule ''*'' ''/a'' ''c'' 5])) = Some root
     \<and> set (rules_at root [''a'']) = {RulePtr 1 0}"
proof -
  let ?s = "demo_snapshot [demo_rule ''*'' ''/a'' ''c'' 5]"
  obtain root where root: "snap_root (finalize sort_key ?s) = Some root"
    "\<And>k. set (rules_at root k) = {p. \<exists>r. vec_deref (snap_rules ?s) p = Some r \<and> rule_key r = k}"
    using finalize_well_formed [OF stable_sort.std_sort_axioms, of ?s] by blast
  have "(\<exists>r. vec_deref (snap_rules ?s) p = Some r \<and> rule_key r = [''a'']) \<longleftrightarrow> p = RulePtr 1 0" for p
    by (cases p) (auto simp: vec_deref_def demo_snapshot_def add_rule_def vec_push_back_def new_snapshot_def
        demo_rule_def rule_key_def split_path_words)
  then have "set (rules_at root [''a'']) = {RulePtr 1 0}" by (simp only: root(2) singleton_conv)
  with root(1) show ?thesis by blast
qed

section \<open>Prefixes without a slash\<close>

text \<open>
  A rule whose prefix does not begin with a slash becomes a rule for the root: it serves exactly
  the requests without segments, among them every target that does not begin with a slash, and no
  request whose path begins with its prefix.
\<close>

theorem slashless_prefix_serves_root:
  assumes "std_sort srt" "vec_elems (snap_rules s) = [r]" "take 1 (path_prefix r) \<noteq> ''/''" "eligible host ip r"
  shows "snapshot_match (finalize srt s) host path ip =
     Some (if take 1 path \<noteq> ''/'' \<or> slash_words path = [] then match_hit r else match_miss kPathMismatch)"
proof -
  have key: "rule_key r = []" using assms(3) by (simp add: rule_key_def split_path_words)
  have segs: "split_path path = [] \<longleftrightarrow> take 1 path \<noteq> ''/'' \<or> slash_words path = []"
    by (simp add: split_path_words)
  have cand: "set (candidate_rules [r] path) = (if split_path path = [] then {r} else {})"
  proof (rule set_eqI)
    show "x \<in> set (candidate_rules [r] path) \<longleftrightarrow> x \<in> (if split_path path = [] then {r} else {})" for x
      using key by (auto simp: candidate_rules_iff)
  qed
  from finalize_match_spec [OF assms(1), of s host path ip] obtain m where
    m: "snapshot_match (finalize srt s) host path ip = Some m" "route_spec [r] host path ip m"
    by (auto simp: assms(2))
  show ?thesis
  proof (cases "split_path path = []")
    case True
    then have "set (candidate_rules [r] path) = {r}" using cand by simp
    with m(2) assms(4) have "m = match_hit r" by (auto simp: route_spec_def list_ex_iff best_of_def)
    with True m(1) segs show ?thesis by simp
  next
    case False
    then have "candidate_rules [r] path = []" using cand by simp
    with m(2) obtain reason where "miss_reason_ok host ip [] reason" "m = match_miss reason"
      by (auto simp: route_spec_def)
    then have "m = match_miss kPathMismatch" by (cases reason) (simp_all add: miss_reason_ok_def)
    with False m(1) segs show ?thesis by simp
  qed
qed

theorem slashless_prefix_serves_root_witness:
  "snapshot_match (finalize sort_key (demo_snapshot [demo_rule ''*'' ''api'' ''c'' 0])) ''h'' ''/api'' ''1.2.3.4''
     = Some (match_miss kPathMismatch)"
  using slashless_prefix_serves_root [OF stable_sort.std_sort_axioms,
      of "demo_snapshot [demo_rule ''*'' ''api'' ''c'' 0]" "demo_rule ''*'' ''api'' ''c'' 0" "''h''" "''1.2.3.4''" "''/api''"]
  by (simp add: demo_simps)

text \<open>
  The trie holds pointers into the rule vector, so a rule added after
  \<open>finalize\<close> either is not seen at all, when the vector had room for it, or has moved
  every rule: then each request with a candidate reads freed memory, and only a new
  \<open>finalize\<close> makes the snapshot usable again.
\<close>

theorem add_rule_after_finalize:
  assumes "std_sort srt"
  shows "snapshot_match (add_rule grow r (finalize srt s)) host path ip =
    (if length (vec_elems (snap_rules s)) < vec_cap (snap_rules s)
     then snapshot_match (finalize srt s) host path ip
     else if candidate_rules (vec_elems (snap_rules s)) path = []
     then Some (match_miss kPathMismatch) else None)
   \<and> (\<exists>m. snapshot_match (finalize srt (add_rule grow r (finalize srt s))) host path ip = Some m)"
proof (intro conjI)
  let ?v = "snap_rules s" and ?f = "finalize srt s"
  let ?ps = "srt (ptr_priority ?v) (candidate_ptrs ?v path)"
  have set_ps: "set ?ps = set (candidate_ptrs ?v path)" by (rule std_sort.set_srt [OF assms])
  have lhs: "snapshot_match (add_rule grow r ?f) host path ip =
        match_loop (vec_push_back grow r ?v) host ip kNone ?ps"
    using find_longest_prefix_rules_finalize [OF assms, of s path]
    by (simp add: snapshot_match_def find_longest_prefix_rules_def add_rule_def)
       (simp add: finalize_def)
  have rhs: "snapshot_match ?f host path ip = match_loop ?v host ip kNone ?ps"
    by (simp add: snapshot_match_def find_longest_prefix_rules_finalize [OF assms])
       (simp add: finalize_def)
  have valid: "\<forall>p\<in>set ?ps. vec_deref ?v p \<noteq> None"
    using candidate_ptrs_deref by (simp add: set_ps)
  have empty: "?ps = [] \<longleftrightarrow> candidate_rules (vec_elems ?v) path = []"
    using candidate_ptrs_rules [of ?v path]
    by (metis std_sort.srt_eq_Nil [OF assms] map_is_Nil_conv)
  show "snapshot_match (add_rule grow r ?f) host path ip =
    (if length (vec_elems ?v) < vec_cap ?v then snapshot_match ?f host path ip
     else if candidate_rules (vec_elems ?v) path = []
     then Some (match_miss kPathMismatch) else None)"
  proof (cases "length (vec_elems ?v) < vec_cap ?v")
    case True
    with valid lhs rhs match_loop_deref_cong [of ?ps "vec_push_back grow r ?v" ?v]
    show ?thesis by (simp add: vec_push_back_deref)
  next
    case False
    then show ?thesis
      using lhs empty valid by (cases ?ps) (auto simp: vec_push_back_deref)
  qed
  show "\<exists>m. snapshot_match (finalize srt (add_rule grow r ?f)) host path ip = Some m"
    using finalize_match_spec [OF assms] by blast
qed

theorem add_rule_after_finalize_witness:
  "snapshot_match (add_rule (\<lambda>n. 2 * n + 1) (demo_rule ''*'' ''/b'' ''b'' 0)
     (finalize sort_key (demo_snapshot [demo_rule ''*'' ''/a'' ''a'' 0]))) ''h'' ''/a'' ''1.2.3.4'' = None"
  using add_rule_after_finalize [OF stable_sort.std_sort_axioms,
      of "\<lambda>n. 2 * n + 1" "demo_rule ''*'' ''/b'' ''b'' 0"
         "demo_snapshot [demo_rule ''*'' ''/a'' ''a'' 0]" "''h''" "''/a''" "''1.2.3.4''"]
  by (simp add: demo_simps) (simp add: demo_snapshot_def add_rule_def vec_push_back_def new_snapshot_def)

end
