(* ===== verification/Request_Context.thy ===== *)
theory Request_Context imports Prelude "HOL-Library.AList" begin

text \<open>
  \<^verbatim>\<open>include/netp2/protocol/request_context.h\<close>: the request context, the parse errors and
  their HTTP status and description; and \<^verbatim>\<open>std::stoull\<close> and \<^verbatim>\<open>std::tolower\<close> as the codec
  uses them. A \<^verbatim>\<open>string_view\<close> into the request buffer is its offset and length. An
  \<^verbatim>\<open>unordered_map\<close> is an association list with distinct keys, whose order nothing reads.
\<close>

section \<open>Request context\<close>

record sview =
  sv_off :: nat
  sv_len :: nat

definition view_text :: "string \<Rightarrow> sview \<Rightarrow> string" where
  "view_text buffer v = str_sub buffer (sv_off v) (sv_len v)"

definition empty_view :: sview where
  "empty_view = \<lparr>sv_off = 0, sv_len = 0\<rparr>"

record request_context =
  req_method :: string
  req_target :: string
  version :: string
  host :: string
  headers :: "(string \<times> string) list"
  body :: sview
  client_endpoint :: string
  trace_parent :: string
  content_length :: "64 word"
  has_content_length :: bool

definition empty_context :: request_context where
  "empty_context = \<lparr>req_method = [], req_target = [], version = [], host = [], headers = [],
     body = empty_view, client_endpoint = [], trace_parent = [], content_length = 0,
     has_content_length = False\<rparr>"

section \<open>Parse errors\<close>

datatype parse_error =
    kSuccess | kNeedMoreData | kInvalidRequestLine | kMissingHost | kHeaderTooLarge
  | kTooManyHeaders | kContentLengthMismatch | kInternalError

fun parse_error_to_http_status :: "parse_error \<Rightarrow> int" where
  "parse_error_to_http_status kSuccess = 200"
| "parse_error_to_http_status kNeedMoreData = 400"
| "parse_error_to_http_status kInvalidRequestLine = 400"
| "parse_error_to_http_status kMissingHost = 400"
| "parse_error_to_http_status kHeaderTooLarge = 431"
| "parse_error_to_http_status kTooManyHeaders = 431"
| "parse_error_to_http_status kContentLengthMismatch = 400"
| "parse_error_to_http_status kInternalError = 500"

fun parse_error_to_string :: "parse_error \<Rightarrow> string" where
  "parse_error_to_string kSuccess = ''success''"
| "parse_error_to_string kNeedMoreData = ''need more data''"
| "parse_error_to_string kInvalidRequestLine = ''invalid request line''"
| "parse_error_to_string kMissingHost = ''missing host header''"
| "parse_error_to_string kHeaderTooLarge = ''header too large''"
| "parse_error_to_string kTooManyHeaders = ''too many headers''"
| "parse_error_to_string kContentLengthMismatch = ''content-length mismatch''"
| "parse_error_to_string kInternalError = ''internal error''"

section \<open>Library functions of the codec\<close>

text \<open>\<^verbatim>\<open>std::tolower\<close> in the C locale, which the program never changes.\<close>

definition tolower :: "char \<Rightarrow> char" where
  "tolower c = (if (65::nat) \<le> of_char c \<and> of_char c \<le> (90::nat) then char_of (of_char c + 32 :: nat) else c)"

definition to_lower :: "string \<Rightarrow> string" where
  "to_lower s = map tolower s"

lemma tolower_idem [simp]: "tolower (tolower c) = tolower c"
proof (cases "(65::nat) \<le> of_char c \<and> of_char c \<le> (90::nat)")
  case True
  then have "(of_char (char_of (of_char c + 32 :: nat)) :: nat) = of_char c + 32"
    by (simp add: of_char_of)
  with True show ?thesis by (simp add: tolower_def)
qed (auto simp: tolower_def)

lemma to_lower_idem [simp]: "to_lower (to_lower s) = to_lower s"
  by (simp add: to_lower_def)

lemma length_to_lower [simp]: "length (to_lower s) = length s"
  by (simp add: to_lower_def)

datatype std_exception = invalid_argument | out_of_range

definition is_space :: "char \<Rightarrow> bool" where
  "is_space c \<longleftrightarrow> c = CHR '' '' \<or> ((9::nat) \<le> of_char c \<and> of_char c \<le> (13::nat))"

text \<open>
  \<^verbatim>\<open>std::stoull(s)\<close>: leading white space, an optional sign, then the longest run of
  decimal digits; what follows is ignored, and a minus sign negates modulo \<open>2 ^ 64\<close>.
\<close>

definition stoull :: "string \<Rightarrow> std_exception + 64 word" where
  "stoull s =
     (let t = dropWhile is_space s;
          negative = (take 1 t = ''-'');
          u = (if take 1 t = ''-'' \<or> take 1 t = ''+'' then drop 1 t else t);
          digits = takeWhile is_digit u;
          n = dec_val digits
      in if digits = [] then Inl invalid_argument
         else if 2 ^ 64 \<le> n then Inl out_of_range
         else Inr (if negative then - of_nat n else of_nat n))"

lemma is_digit_not_space: "is_digit c \<Longrightarrow> \<not> is_space c"
  by (auto simp: is_digit_def is_space_def)

lemma is_digit_not_sign: "is_digit c \<Longrightarrow> c \<noteq> CHR ''-'' \<and> c \<noteq> CHR ''+''"
  by (auto simp: is_digit_def)

lemma stoull_digits:
  assumes "\<forall>c\<in>set ds. is_digit c" "ds \<noteq> []" "rest = [] \<or> \<not> is_digit (hd rest)"
  shows "stoull (ds @ rest) = (if 2 ^ 64 \<le> dec_val ds then Inl out_of_range else Inr (of_nat (dec_val ds)))"
proof -
  obtain c cs where ds: "ds = c # cs" using assms(2) by (cases ds) auto
  then have c: "is_digit c" using assms(1) by simp
  have sp: "dropWhile is_space (ds @ rest) = ds @ rest"
    using ds is_digit_not_space [OF c] by simp
  have sign: "take 1 (ds @ rest) \<noteq> ''-''" "take 1 (ds @ rest) \<noteq> ''+''"
    using ds is_digit_not_sign [OF c] by auto
  have tw: "takeWhile is_digit (ds @ rest) = ds"
    using assms(1,3) by (cases rest) (simp_all add: takeWhile_append2)
  show ?thesis
    using assms(2) by (simp only: stoull_def Let_def sp sign tw if_False simp_thms)
qed

text \<open>
  The decimal text of a 64-bit value, followed by anything that does not
  continue the number, is read back as that value; a text that denotes a larger number
  is refused.
\<close>

theorem stoull_to_dec:
  assumes "rest = [] \<or> \<not> is_digit (hd rest)"
  shows "stoull (to_dec n @ rest) = (if 2 ^ 64 \<le> n then Inl out_of_range else Inr (of_nat n))"
  using stoull_digits [of "to_dec n" rest] to_dec_digits assms by simp

theorem stoull_to_dec_witness:
  "stoull (to_dec 13 @ ''abc'') = Inr 13 \<and> stoull (to_dec (2 ^ 64)) = Inl out_of_range"
  using stoull_to_dec [of "''abc''" 13] stoull_to_dec [of "[]" "2 ^ 64"] by (simp add: is_digit_def)

end
