(* ===== verification/Http1_Codec.thy ===== *)
theory Http1_Codec imports Request_Context begin

text \<open>
  \<^verbatim>\<open>src/protocol/http1_codec.cpp\<close>: the callbacks the codec registers with llhttp, saving
  a header, \<^verbatim>\<open>parse\<close> and \<^verbatim>\<open>reset\<close>. llhttp itself is not part of the repository: it is the
  record of functions \<open>'p llhttp\<close> over an abstract parser state, and what the codec
  relies on is the hypothesis \<open>llhttp_script\<close>: llhttp calls the registered callbacks one
  after the other, and stops with an error of its own as soon as one returns non-zero.
\<close>

section \<open>State\<close>

record codec_config =
  max_header_size :: nat
  max_headers :: nat
  require_host_header :: bool

definition default_codec_config :: codec_config where
  "default_codec_config = \<lparr>max_header_size = 8192, max_headers = 100, require_host_header = True\<rparr>"

text \<open>
  The fields of \<^verbatim>\<open>Impl\<close> the callbacks use. \<open>attached\<close> says whether \<^verbatim>\<open>ctx_\<close> is non-null and
  \<open>ctx_ref\<close> is the context it points to.
\<close>

record codec_state =
  codec_cfg :: codec_config
  attached :: bool
  ctx_ref :: request_context
  current_header_field :: string
  current_header_value :: string
  total_header_size :: nat
  pending_error :: parse_error

datatype llhttp_event =
    OnMessageBegin
  | OnUrl sview
  | OnHeaderField sview
  | OnHeaderValue sview
  | OnHeadersComplete
  | OnBody sview
  | OnMessageComplete

datatype llhttp_errno =
    HPE_OK | HPE_PAUSED_UPGRADE | HPE_INVALID_METHOD | HPE_INVALID_URL | HPE_INVALID_VERSION
  | HPE_OTHER nat

record 'p llhttp =
  llhttp_init :: 'p
  llhttp_reset :: "'p \<Rightarrow> 'p"
  llhttp_execute :: "(codec_state \<Rightarrow> llhttp_event \<Rightarrow> codec_state \<times> int) \<Rightarrow> codec_state \<Rightarrow>
      'p \<Rightarrow> string \<Rightarrow> codec_state \<times> llhttp_errno \<times> 'p"
  http_major :: "'p \<Rightarrow> nat"
  http_minor :: "'p \<Rightarrow> nat"
  parser_method :: "'p \<Rightarrow> nat"
  llhttp_method_name :: "nat \<Rightarrow> string"

record 'p codec =
  parser :: 'p
  cstate :: codec_state

definition new_codec :: "'p llhttp \<Rightarrow> codec_config \<Rightarrow> 'p codec" where
  "new_codec ll cfg =
     \<lparr>parser = llhttp_init ll,
      cstate = \<lparr>codec_cfg = cfg, attached = False, ctx_ref = empty_context,
        current_header_field = [], current_header_value = [], total_header_size = 0,
        pending_error = kSuccess\<rparr>\<rparr>"

section \<open>Callbacks\<close>

text \<open>What \<^verbatim>\<open>save_current_header\<close> does to the context, for a field and a value.\<close>

definition store_header :: "request_context \<Rightarrow> string \<times> string \<Rightarrow> request_context" where
  "store_header ctx fv =
     (case fv of (field, value) \<Rightarrow>
        let field_lower = to_lower field;
            ctx1 = (if field_lower = ''host'' then ctx\<lparr>host := value\<rparr> else ctx);
            ctx2 = (if field_lower = ''content-length'' then
                      (case stoull value of
                         Inl _ \<Rightarrow> ctx1
                       | Inr n \<Rightarrow> ctx1\<lparr>content_length := n, has_content_length := True\<rparr>)
                    else ctx1)
        in ctx2\<lparr>headers := AList.update field_lower value (headers ctx2)\<rparr>)"

definition save_current_header :: "codec_state \<Rightarrow> codec_state" where
  "save_current_header s =
     (if \<not> attached s then s
      else s\<lparr>ctx_ref := store_header (ctx_ref s) (current_header_field s, current_header_value s),
             current_header_field := [], current_header_value := []\<rparr>)"

definition check_header_size :: "codec_state \<Rightarrow> codec_state \<times> int" where
  "check_header_size s =
     (if total_header_size s > max_header_size (codec_cfg s)
      then (s\<lparr>pending_error := kHeaderTooLarge\<rparr>, -1) else (s, 0))"

definition on_url :: "string \<Rightarrow> codec_state \<Rightarrow> codec_state \<times> int" where
  "on_url at s =
     (if attached s then (s\<lparr>ctx_ref := (ctx_ref s)\<lparr>req_target := req_target (ctx_ref s) @ at\<rparr>\<rparr>, 0)
      else (s, 0))"

definition on_header_field :: "string \<Rightarrow> codec_state \<Rightarrow> codec_state \<times> int" where
  "on_header_field at s =
     (let s1 = (if current_header_value s \<noteq> [] then save_current_header s else s)
      in check_header_size (s1\<lparr>current_header_field := current_header_field s1 @ at,
                               total_header_size := total_header_size s1 + length at\<rparr>))"

definition on_header_value :: "string \<Rightarrow> codec_state \<Rightarrow> codec_state \<times> int" where
  "on_header_value at s =
     check_header_size (s\<lparr>current_header_value := current_header_value s @ at,
                          total_header_size := total_header_size s + length at\<rparr>)"

definition on_headers_complete :: "codec_state \<Rightarrow> codec_state \<times> int" where
  "on_headers_complete s =
     (let s1 = (if current_header_field s \<noteq> [] then save_current_header s else s)
      in if attached s1 \<and> length (headers (ctx_ref s1)) > max_headers (codec_cfg s1)
         then (s1\<lparr>pending_error := kTooManyHeaders\<rparr>, -1) else (s1, 0))"

definition on_body :: "sview \<Rightarrow> codec_state \<Rightarrow> codec_state \<times> int" where
  "on_body span s =
     (if attached s then (s\<lparr>ctx_ref := (ctx_ref s)\<lparr>body := span\<rparr>\<rparr>, 0) else (s, 0))"

definition on_message_begin :: "codec_state \<Rightarrow> codec_state \<times> int" where
  [simp]: "on_message_begin s = (s, 0)"

definition on_message_complete :: "codec_state \<Rightarrow> codec_state \<times> int" where
  [simp]: "on_message_complete s = (s, 0)"

text \<open>The callbacks as registered in the constructor; a span is text of the buffer.\<close>

fun callback :: "string \<Rightarrow> codec_state \<Rightarrow> llhttp_event \<Rightarrow> codec_state \<times> int" where
  "callback buffer s OnMessageBegin = on_message_begin s"
| "callback buffer s (OnUrl span) = on_url (view_text buffer span) s"
| "callback buffer s (OnHeaderField span) = on_header_field (view_text buffer span) s"
| "callback buffer s (OnHeaderValue span) = on_header_value (view_text buffer span) s"
| "callback buffer s OnHeadersComplete = on_headers_complete s"
| "callback buffer s (OnBody span) = on_body span s"
| "callback buffer s OnMessageComplete = on_message_complete s"

section \<open>parse and reset\<close>

definition clear_context :: "request_context \<Rightarrow> request_context" where
  "clear_context ctx = ctx\<lparr>req_method := [], req_target := [], version := [], host := [],
     headers := [], body := empty_view, content_length := 0, has_content_length := False\<rparr>"

definition begin_parse :: "request_context \<Rightarrow> codec_state \<Rightarrow> codec_state" where
  "begin_parse ctx s = s\<lparr>attached := True, ctx_ref := clear_context ctx,
     current_header_field := [], current_header_value := [], total_header_size := 0,
     pending_error := kSuccess\<rparr>"

text \<open>The checks of \<^verbatim>\<open>parse\<close> after \<^verbatim>\<open>llhttp_execute\<close> has returned.\<close>

definition finish_parse ::
  "'p llhttp \<Rightarrow> codec_state \<Rightarrow> llhttp_errno \<Rightarrow> 'p \<Rightarrow> parse_error \<times> request_context"
where
  "finish_parse ll s err p =
     (if err \<noteq> HPE_OK \<and> err \<noteq> HPE_PAUSED_UPGRADE then
        (if err = HPE_INVALID_METHOD \<or> err = HPE_INVALID_URL \<or> err = HPE_INVALID_VERSION
         then kInvalidRequestLine else kInternalError, ctx_ref s)
      else if pending_error s \<noteq> kSuccess then (pending_error s, ctx_ref s)
      else
        let ctx = (ctx_ref s)\<lparr>
              version := ''HTTP/'' @ to_dec (http_major ll p) @ ''.'' @ to_dec (http_minor ll p),
              req_method := llhttp_method_name ll (parser_method ll p)\<rparr>
        in if require_host_header (codec_cfg s) \<and> http_major ll p = 1 \<and> http_minor ll p \<ge> 1
              \<and> host ctx = [] then (kMissingHost, ctx)
           else if has_content_length ctx \<and> sv_len (body ctx) \<noteq> unat (content_length ctx)
           then (kContentLengthMismatch, ctx)
           else (kSuccess, ctx))"

definition parse ::
  "'p llhttp \<Rightarrow> string \<Rightarrow> request_context \<Rightarrow> 'p codec \<Rightarrow> parse_error \<times> request_context \<times> 'p codec"
where
  "parse ll buffer ctx c =
     (let (s, err, p) = llhttp_execute ll (callback buffer) (begin_parse ctx (cstate c)) (parser c) buffer;
          (result, out) = finish_parse ll s err p
      in (result, out, \<lparr>parser = p, cstate = s\<lparr>ctx_ref := out\<rparr>\<rparr>))"

definition reset_codec :: "'p llhttp \<Rightarrow> 'p codec \<Rightarrow> 'p codec" where
  "reset_codec ll c =
     \<lparr>parser = llhttp_reset ll (parser c),
      cstate = (cstate c)\<lparr>current_header_field := [], current_header_value := [],
        total_header_size := 0, pending_error := kSuccess, attached := False\<rparr>\<rparr>"

section \<open>What the codec relies on\<close>

text \<open>
  Callbacks run in the order of the events; the flag tells whether one returned non-zero,
  after which no other runs.
\<close>

fun run_callbacks :: "('s \<Rightarrow> 'e \<Rightarrow> 's \<times> int) \<Rightarrow> 's \<Rightarrow> 'e list \<Rightarrow> 's \<times> bool" where
  "run_callbacks cb s [] = (s, False)"
| "run_callbacks cb s (e # es) =
     (case cb s e of (s', rc) \<Rightarrow> if rc = 0 then run_callbacks cb s' es else (s', True))"

definition callback_errno :: "llhttp_errno \<Rightarrow> bool" where
  "callback_errno e \<longleftrightarrow> (case e of HPE_OTHER _ \<Rightarrow> True | _ \<Rightarrow> False)"

text \<open>
  \<open>llhttp_script ll p buffer evs err\<close>: on parser state \<open>p\<close> and this buffer, llhttp's
  events are \<open>evs\<close> and its own verdict is \<open>err\<close>. A callback that returns non-zero makes
  it return an error that is neither success nor one of its parse errors
  (\<^verbatim>\<open>HPE_USER\<close> for a data callback, \<^verbatim>\<open>HPE_CB_HEADERS_COMPLETE\<close>), as its documentation says.
\<close>

definition llhttp_script ::
  "'p llhttp \<Rightarrow> 'p \<Rightarrow> string \<Rightarrow> llhttp_event list \<Rightarrow> llhttp_errno \<Rightarrow> bool"
where
  "llhttp_script ll p buffer evs err \<longleftrightarrow>
     (\<forall>cb s t e q. llhttp_execute ll cb s p buffer = (t, e, q) \<longrightarrow>
        t = fst (run_callbacks cb s evs)
        \<and> (if snd (run_callbacks cb s evs) then callback_errno e else e = err))"

lemma run_callbacks_append:
  "run_callbacks cb s (es @ fs) =
     (case run_callbacks cb s es of (s', refused) \<Rightarrow>
        if refused then (s', True) else run_callbacks cb s' fs)"
  by (induction es arbitrary: s) (auto split: prod.split)

text \<open>A run that no callback refused keeps every relation the accepting callbacks keep.\<close>

lemma run_callbacks_invariant:
  assumes step: "\<And>s e s'. cb s e = (s', 0) \<Longrightarrow> P s \<Longrightarrow> P s'"
  shows "run_callbacks cb s es = (t, False) \<Longrightarrow> P s \<Longrightarrow> P t"
  by (induction es arbitrary: s) (auto split: prod.splits if_splits dest: step)

lemmas callback_defs =
  on_url_def on_header_field_def on_header_value_def on_headers_complete_def on_body_def
  check_header_size_def save_current_header_def Let_def

lemma callback_accepts:
  assumes "callback buffer s e = (s', 0)"
  shows "pending_error s' = pending_error s \<and> codec_cfg s' = codec_cfg s \<and> attached s' = attached s"
  using assms by (cases e) (auto simp: callback_defs split: if_splits)

lemma run_callbacks_accepts:
  assumes "run_callbacks (callback buffer) s es = (t, False)"
  shows "pending_error t = pending_error s \<and> codec_cfg t = codec_cfg s \<and> attached t = attached s"
  using assms
proof (induction es arbitrary: s)
  case (Cons e es)
  then obtain s' where "callback buffer s e = (s', 0)" "run_callbacks (callback buffer) s' es = (t, False)"
    by (auto split: prod.splits if_splits)
  with Cons.IH callback_accepts show ?case by metis
qed simp

text \<open>The bytes of header names and values among the events.\<close>

fun header_bytes :: "string \<Rightarrow> llhttp_event \<Rightarrow> nat" where
  "header_bytes buffer (OnHeaderField span) = length (view_text buffer span)"
| "header_bytes buffer (OnHeaderValue span) = length (view_text buffer span)"
| "header_bytes buffer _ = 0"

lemma callback_total:
  assumes "callback buffer s e = (s', 0)"
  shows "total_header_size s' = total_header_size s + header_bytes buffer e
     \<and> (total_header_size s \<le> max_header_size (codec_cfg s) \<longrightarrow>
          total_header_size s' \<le> max_header_size (codec_cfg s))"
  using assms by (cases e) (auto simp: callback_defs split: if_splits)

lemma run_callbacks_total:
  assumes "run_callbacks (callback buffer) s es = (t, False)"
  shows "total_header_size t = total_header_size s + sum_list (map (header_bytes buffer) es)
     \<and> (total_header_size s \<le> max_header_size (codec_cfg s) \<longrightarrow>
          total_header_size t \<le> max_header_size (codec_cfg s))"
  using assms
proof (induction es arbitrary: s)
  case (Cons e es)
  then obtain s' where s': "callback buffer s e = (s', 0)" "run_callbacks (callback buffer) s' es = (t, False)"
    by (auto split: prod.splits if_splits)
  from callback_accepts [OF s'(1)] callback_total [OF s'(1)] Cons.IH [OF s'(2)]
  show ?case by auto
qed simp

lemma begin_parse_simps [simp]:
  "attached (begin_parse ctx s)" "pending_error (begin_parse ctx s) = kSuccess"
  "codec_cfg (begin_parse ctx s) = codec_cfg s" "total_header_size (begin_parse ctx s) = 0"
  "current_header_field (begin_parse ctx s) = []" "current_header_value (begin_parse ctx s) = []"
  "ctx_ref (begin_parse ctx s) = clear_context ctx"
  by (simp_all add: begin_parse_def)

lemma llhttp_scriptD:
  "llhttp_script ll p buffer evs err \<Longrightarrow> llhttp_execute ll cb s p buffer = (t, e, q) \<Longrightarrow>
   t = fst (run_callbacks cb s evs)
   \<and> (if snd (run_callbacks cb s evs) then callback_errno e else e = err)"
  unfolding llhttp_script_def by blast

text \<open>The two outcomes of \<^verbatim>\<open>parse\<close> under the contract of llhttp.\<close>

lemma parse_refused:
  assumes "llhttp_script ll (parser c) buffer evs err"
    and "snd (run_callbacks (callback buffer) (begin_parse ctx (cstate c)) evs)"
  shows "fst (parse ll buffer ctx c) = kInternalError"
proof -
  obtain t e p where x: "llhttp_execute ll (callback buffer) (begin_parse ctx (cstate c)) (parser c) buffer = (t, e, p)"
    by (cases "llhttp_execute ll (callback buffer) (begin_parse ctx (cstate c)) (parser c) buffer") auto
  from llhttp_scriptD [OF assms(1) x] assms(2) have "callback_errno e" by simp
  with x show ?thesis
    by (auto simp: parse_def finish_parse_def callback_errno_def split: llhttp_errno.splits)
qed

lemma parse_accepted:
  assumes "llhttp_script ll (parser c) buffer evs err"
    and "run_callbacks (callback buffer) (begin_parse ctx (cstate c)) evs = (t, False)"
  shows "\<exists>p. parse ll buffer ctx c =
     (fst (finish_parse ll t err p), snd (finish_parse ll t err p),
      \<lparr>parser = p, cstate = t\<lparr>ctx_ref := snd (finish_parse ll t err p)\<rparr>\<rparr>)"
proof -
  obtain t' e p where x: "llhttp_execute ll (callback buffer) (begin_parse ctx (cstate c)) (parser c) buffer = (t', e, p)"
    by (cases "llhttp_execute ll (callback buffer) (begin_parse ctx (cstate c)) (parser c) buffer") auto
  from llhttp_scriptD [OF assms(1) x] assms(2) have "t' = t" "e = err" by simp_all
  with x show ?thesis by (auto simp: parse_def split: prod.split)
qed

section \<open>The invariant of the request context\<close>

definition context_ok :: "request_context \<Rightarrow> bool" where
  [inv_defs]: "context_ok ctx \<longleftrightarrow>
     distinct (map fst (headers ctx))
     \<and> (\<forall>k\<in>fst ` set (headers ctx). to_lower k = k)
     \<and> host ctx = (case map_of (headers ctx) ''host'' of None \<Rightarrow> [] | Some v \<Rightarrow> v)
     \<and> (has_content_length ctx \<longrightarrow> ''content-length'' \<in> fst ` set (headers ctx))"

lemma store_header_headers [simp]:
  "headers (store_header ctx (f, v)) = AList.update (to_lower f) v (headers ctx)"
  by (simp add: store_header_def Let_def split: sum.split)

lemma store_header_host [simp]:
  "host (store_header ctx (f, v)) = (if to_lower f = ''host'' then v else host ctx)"
  by (simp add: store_header_def Let_def split: sum.split)

lemma store_header_has_length [simp]:
  "has_content_length (store_header ctx (f, v)) \<longleftrightarrow>
     has_content_length ctx \<or> to_lower f = ''content-length'' \<and> (\<exists>n. stoull v = Inr n)"
  by (auto simp: store_header_def Let_def split: sum.split)

lemma store_header_target [simp]:
  "req_target (store_header ctx (f, v)) = req_target ctx"
  "body (store_header ctx (f, v)) = body ctx"
  "client_endpoint (store_header ctx (f, v)) = client_endpoint ctx"
  "trace_parent (store_header ctx (f, v)) = trace_parent ctx"
  by (simp_all add: store_header_def Let_def split: sum.split)

lemma fst_set_update: "fst ` set (AList.update k v al) = insert k (fst ` set al)"
  using dom_update [of k v al] by (simp add: dom_map_of_conv_image_fst)

lemma context_ok_store_header: "context_ok ctx \<Longrightarrow> context_ok (store_header ctx (f, v))"
  unfolding context_ok_def
  by (intro conjI) (simp_all add: distinct_update fst_set_update update_conv)

lemma context_ok_clear: "context_ok (clear_context ctx)"
  by (simp add: context_ok_def clear_context_def)

lemma context_ok_simps [simp]:
  "context_ok (ctx\<lparr>req_target := x\<rparr>) = context_ok ctx"
  "context_ok (ctx\<lparr>body := b\<rparr>) = context_ok ctx"
  "context_ok (ctx\<lparr>version := y, req_method := z\<rparr>) = context_ok ctx"
  by (simp_all add: context_ok_def)

lemma callback_context_ok:
  "context_ok (ctx_ref s) \<Longrightarrow> context_ok (ctx_ref (fst (callback buffer s e)))"
  by (cases e) (auto simp: callback_defs context_ok_store_header)

interpretation codec_callbacks:
  machine "\<lambda>s e. fst (callback buffer s e)" "\<lambda>s. context_ok (ctx_ref s)" for buffer
  by unfold_locales (rule callback_context_ok)

lemma run_callbacks_foldl:
  "\<exists>n. fst (run_callbacks cb s es) = foldl (\<lambda>s e. fst (cb s e)) s (take n es)"
proof (induction es arbitrary: s)
  case (Cons e es)
  obtain s' rc where cb: "cb s e = (s', rc)" by fastforce
  show ?case
  proof (cases "rc = 0")
    case True
    from Cons.IH [of s'] obtain n where
      "fst (run_callbacks cb s' es) = foldl (\<lambda>s e. fst (cb s e)) s' (take n es)" by blast
    with True cb show ?thesis by (intro exI [of _ "Suc n"]) simp
  next
    case False
    with cb show ?thesis by (intro exI [of _ "Suc 0"]) simp
  qed
qed simp

lemma finish_parse_context_ok:
  "context_ok (ctx_ref s) \<Longrightarrow> context_ok (snd (finish_parse ll s err p))"
  by (simp add: finish_parse_def Let_def)

text \<open>
  C28 (invariant): whatever the outcome of \<open>parse\<close>, the context it leaves has header
  names that are lower case and distinct, a host that is the value stored under
  \<^verbatim>\<open>host\<close>, and a content length only when that header was stored.
\<close>

theorem parse_context_ok:
  assumes "llhttp_script ll (parser c) buffer evs err"
  shows "context_ok (fst (snd (parse ll buffer ctx c)))"
proof -
  obtain t e p where x: "llhttp_execute ll (callback buffer) (begin_parse ctx (cstate c)) (parser c) buffer = (t, e, p)"
    by (cases "llhttp_execute ll (callback buffer) (begin_parse ctx (cstate c)) (parser c) buffer") auto
  obtain n where "t = foldl (\<lambda>s e. fst (callback buffer s e)) (begin_parse ctx (cstate c)) (take n evs)"
    using llhttp_scriptD [OF assms x] run_callbacks_foldl by metis
  then have "context_ok (ctx_ref t)"
    using codec_callbacks.inv_run [of "begin_parse ctx (cstate c)" buffer "take n evs"]
    by (simp add: context_ok_clear)
  with x finish_parse_context_ok [of t ll e p] show ?thesis
    by (auto simp: parse_def split: prod.splits)
qed

text \<open>
  A parser that plays a fixed list of events: the instance of \<open>'p llhttp\<close> on which the
  statements below are exercised.
\<close>

definition scripted :: "llhttp_event list \<Rightarrow> llhttp_errno \<Rightarrow> nat \<Rightarrow> nat \<Rightarrow> string \<Rightarrow> unit llhttp" where
  "scripted evs err major minor meth =
     \<lparr>llhttp_init = (), llhttp_reset = (\<lambda>p. p),
      llhttp_execute = (\<lambda>cb s p buffer.
        case run_callbacks cb s evs of (t, refused) \<Rightarrow>
          (t, if refused then HPE_OTHER 24 else err, ())),
      http_major = (\<lambda>_. major), http_minor = (\<lambda>_. minor), parser_method = (\<lambda>_. 0),
      llhttp_method_name = (\<lambda>_. meth)\<rparr>"

lemma scripted_script: "llhttp_script (scripted evs err major minor meth) p buffer evs err"
  by (auto simp: llhttp_script_def scripted_def callback_errno_def split: prod.splits)

theorem parse_context_ok_witness:
  "context_ok (fst (snd (parse (scripted [OnHeaderField \<lparr>sv_off = 0, sv_len = 4\<rparr>,
       OnHeaderValue \<lparr>sv_off = 5, sv_len = 1\<rparr>, OnHeadersComplete] HPE_OK 1 1 ''GET'')
     ''HoSt:a'' empty_context (new_codec (scripted [] HPE_OK 1 1 ''GET'') default_codec_config))))"
  by (rule parse_context_ok [OF scripted_script])

section \<open>Limits\<close>

lemma parse_codes:
  assumes "llhttp_script ll (parser c) buffer evs err"
  shows "fst (parse ll buffer ctx c) \<notin> {kHeaderTooLarge, kTooManyHeaders, kNeedMoreData}"
proof (cases "run_callbacks (callback buffer) (begin_parse ctx (cstate c)) evs")
  case (Pair t refused)
  show ?thesis
  proof (cases refused)
    case True
    with Pair parse_refused [OF assms, of ctx] show ?thesis by simp
  next
    case False
    with Pair have t: "run_callbacks (callback buffer) (begin_parse ctx (cstate c)) evs = (t, False)"
      by simp
    from run_callbacks_accepts [OF t] have "pending_error t = kSuccess" by simp
    moreover from parse_accepted [OF assms t] obtain p where
      "fst (parse ll buffer ctx c) = fst (finish_parse ll t err p)" by auto
    ultimately show ?thesis by (simp add: finish_parse_def Let_def)
  qed
qed

text \<open>
  The codes for oversized headers, too many headers and incomplete input are
  never the result of \<open>parse\<close>: a callback that records a limit violation also makes
  llhttp fail, and the failure is reported first, as an internal error.
\<close>

theorem parse_never_reports_limits:
  assumes "llhttp_script ll (parser c) buffer evs err"
  shows "fst (parse ll buffer ctx c) \<noteq> kHeaderTooLarge
     \<and> fst (parse ll buffer ctx c) \<noteq> kTooManyHeaders
     \<and> fst (parse ll buffer ctx c) \<noteq> kNeedMoreData"
  using parse_codes [OF assms, of ctx] by simp

definition tiny_codec :: "unit codec" where
  "tiny_codec = new_codec (scripted [] HPE_OK 1 1 ''GET'')
     \<lparr>max_header_size = 2, max_headers = 1, require_host_header = True\<rparr>"

theorem parse_never_reports_limits_witness:
  "fst (parse (scripted [OnHeaderField \<lparr>sv_off = 0, sv_len = 3\<rparr>] HPE_OK 1 1 ''GET'') ''abc''
     empty_context tiny_codec) \<noteq> kHeaderTooLarge"
  using parse_never_reports_limits [OF scripted_script] by blast

lemma oversized_refused:
  assumes "llhttp_script ll (parser c) buffer evs err"
    and "max_header_size (codec_cfg (cstate c)) < sum_list (map (header_bytes buffer) evs)"
  shows "fst (parse ll buffer ctx c) = kInternalError"
proof (cases "run_callbacks (callback buffer) (begin_parse ctx (cstate c)) evs")
  case (Pair t refused)
  have refused
  proof (rule ccontr)
    assume "\<not> refused"
    with Pair have "run_callbacks (callback buffer) (begin_parse ctx (cstate c)) evs = (t, False)"
      by simp
    from run_callbacks_total [OF this] assms(2) show False by auto
  qed
  with Pair parse_refused [OF assms(1), of ctx] show ?thesis by simp
qed

text \<open>
  A request whose header names and values exceed the configured size is
  rejected, with the status of an internal error, 500.
\<close>

theorem oversized_headers_rejected:
  assumes "llhttp_script ll (parser c) buffer evs err"
    and "max_header_size (codec_cfg (cstate c)) < sum_list (map (header_bytes buffer) evs)"
  shows "fst (parse ll buffer ctx c) = kInternalError
     \<and> parse_error_to_http_status (fst (parse ll buffer ctx c)) = 500"
  using oversized_refused [OF assms, of ctx] by simp

theorem oversized_headers_rejected_witness:
  "fst (parse (scripted [OnHeaderField \<lparr>sv_off = 0, sv_len = 3\<rparr>] HPE_OK 1 1 ''GET'') ''abc''
     empty_context tiny_codec) = kInternalError"
  using oversized_headers_rejected [OF scripted_script, where c = tiny_codec]
  by (simp add: tiny_codec_def new_codec_def view_text_def str_sub_def)

section \<open>A complete message\<close>

text \<open>
  llhttp may deliver a name or a value in several pieces. A header is the pieces of its
  name and the pieces of its value; only the concatenations matter.
\<close>

type_synonym header_spans = "sview list \<times> sview list"

definition spans_text :: "string \<Rightarrow> sview list \<Rightarrow> string" where
  "spans_text buffer vs = concat (map (view_text buffer) vs)"

definition header_events :: "header_spans \<Rightarrow> llhttp_event list" where
  "header_events h = map OnHeaderField (fst h) @ map OnHeaderValue (snd h)"

definition header_text :: "string \<Rightarrow> header_spans \<Rightarrow> string \<times> string" where
  "header_text buffer h = (spans_text buffer (fst h), spans_text buffer (snd h))"

definition headers_size :: "string \<Rightarrow> header_spans list \<Rightarrow> nat" where
  "headers_size buffer hs =
     sum_list (map (\<lambda>h. length (fst (header_text buffer h)) + length (snd (header_text buffer h))) hs)"

definition message_events ::
  "sview list \<Rightarrow> header_spans list \<Rightarrow> sview list \<Rightarrow> llhttp_event list"
where
  "message_events us hs bs =
     OnMessageBegin # map OnUrl us @ concat (map header_events hs) @ OnHeadersComplete
       # map OnBody bs @ [OnMessageComplete]"

text \<open>The context of a complete message: the target, the headers in order, the last body piece.\<close>

definition message_context ::
  "string \<Rightarrow> request_context \<Rightarrow> sview list \<Rightarrow> header_spans list \<Rightarrow> sview list \<Rightarrow> request_context"
where
  "message_context buffer ctx us hs bs =
     (let ctx1 = foldl store_header ((clear_context ctx)\<lparr>req_target := spans_text buffer us\<rparr>)
                   (map (header_text buffer) hs)
      in if bs = [] then ctx1 else ctx1\<lparr>body := last bs\<rparr>)"

lemma spans_text_simps [simp]:
  "spans_text buffer [] = []"
  "spans_text buffer (v # vs) = view_text buffer v @ spans_text buffer vs"
  by (simp_all add: spans_text_def)

lemma run_urls:
  "attached s \<Longrightarrow> run_callbacks (callback buffer) s (map OnUrl us) =
     (s\<lparr>ctx_ref := (ctx_ref s)\<lparr>req_target := req_target (ctx_ref s) @ spans_text buffer us\<rparr>\<rparr>, False)"
  by (induction us arbitrary: s) (simp_all add: on_url_def)

lemma run_bodies:
  "attached s \<Longrightarrow> run_callbacks (callback buffer) s (map OnBody bs) =
     (if bs = [] then s else s\<lparr>ctx_ref := (ctx_ref s)\<lparr>body := last bs\<rparr>\<rparr>, False)"
  by (induction bs arbitrary: s) (simp_all add: on_body_def)

lemma run_field_pieces:
  "current_header_value s = [] \<Longrightarrow>
   total_header_size s + length (spans_text buffer fs) \<le> max_header_size (codec_cfg s) \<Longrightarrow>
   run_callbacks (callback buffer) s (map OnHeaderField fs) =
     (s\<lparr>current_header_field := current_header_field s @ spans_text buffer fs,
        total_header_size := total_header_size s + length (spans_text buffer fs)\<rparr>, False)"
  by (induction fs arbitrary: s) (simp_all add: on_header_field_def check_header_size_def)

lemma run_value_pieces:
  "total_header_size s + length (spans_text buffer vs) \<le> max_header_size (codec_cfg s) \<Longrightarrow>
   run_callbacks (callback buffer) s (map OnHeaderValue vs) =
     (s\<lparr>current_header_value := current_header_value s @ spans_text buffer vs,
        total_header_size := total_header_size s + length (spans_text buffer vs)\<rparr>, False)"
  by (induction vs arbitrary: s) (simp_all add: on_header_value_def check_header_size_def)

text \<open>The first piece of a name saves the header before it.\<close>

definition settle :: "codec_state \<Rightarrow> codec_state" where
  "settle s = (if current_header_value s \<noteq> [] then save_current_header s else s)"

lemma settle_simps [simp]:
  "codec_cfg (settle s) = codec_cfg s" "total_header_size (settle s) = total_header_size s"
  "attached (settle s) = attached s" "pending_error (settle s) = pending_error s"
  "attached s \<Longrightarrow> current_header_value (settle s) = []"
  by (simp_all add: settle_def save_current_header_def)

lemma settle_field:
  "attached s \<Longrightarrow> current_header_value s \<noteq> [] \<or> current_header_field s = [] \<Longrightarrow>
   current_header_field (settle s) = []"
  by (auto simp: settle_def save_current_header_def)

lemma run_header:
  assumes "attached s" "current_header_value s \<noteq> [] \<or> current_header_field s = []"
    and "spans_text buffer fs \<noteq> []"
    and "total_header_size s + length (spans_text buffer fs) + length (spans_text buffer vs)
           \<le> max_header_size (codec_cfg s)"
  shows "run_callbacks (callback buffer) s (header_events (fs, vs)) =
     ((settle s)\<lparr>current_header_field := spans_text buffer fs,
        current_header_value := spans_text buffer vs,
        total_header_size := total_header_size s + length (spans_text buffer fs)
                               + length (spans_text buffer vs)\<rparr>, False)"
proof -
  from assms(3) obtain f fs' where fs: "fs = f # fs'" by (cases fs) auto
  have cb: "callback buffer s (OnHeaderField f) = callback buffer (settle s) (OnHeaderField f)"
    using assms(1) by (simp add: on_header_field_def settle_def save_current_header_def)
  then have "run_callbacks (callback buffer) s (map OnHeaderField fs) =
      run_callbacks (callback buffer) (settle s) (map OnHeaderField fs)"
    by (simp add: fs)
  also have "\<dots> = ((settle s)\<lparr>current_header_field := spans_text buffer fs,
        total_header_size := total_header_size s + length (spans_text buffer fs)\<rparr>, False)"
    using assms by (simp add: run_field_pieces settle_field)
  finally show ?thesis
    using assms by (simp add: header_events_def run_callbacks_append run_value_pieces)
qed

definition headers_nonempty :: "string \<Rightarrow> header_spans list \<Rightarrow> bool" where
  "headers_nonempty buffer hs \<longleftrightarrow>
     (\<forall>h\<in>set hs. fst (header_text buffer h) \<noteq> [] \<and> snd (header_text buffer h) \<noteq> [])"

lemma run_headers:
  assumes "attached s" "current_header_value s = [] \<longleftrightarrow> current_header_field s = []"
    and "headers_nonempty buffer hs"
    and "total_header_size s + headers_size buffer hs \<le> max_header_size (codec_cfg s)"
  shows "\<exists>t. run_callbacks (callback buffer) s (concat (map header_events hs)) = (t, False)
     \<and> ctx_ref (settle t) = foldl store_header (ctx_ref (settle s)) (map (header_text buffer) hs)
     \<and> (current_header_value t = [] \<longleftrightarrow> current_header_field t = [])"
  using assms
proof (induction hs arbitrary: s)
  case Nil
  then show ?case by simp
next
  case (Cons h hs)
  obtain fs vs where h: "h = (fs, vs)" by (cases h)
  let ?s = "(settle s)\<lparr>current_header_field := spans_text buffer fs,
        current_header_value := spans_text buffer vs,
        total_header_size := total_header_size s + length (spans_text buffer fs)
                               + length (spans_text buffer vs)\<rparr>"
  have ne: "spans_text buffer fs \<noteq> []" "spans_text buffer vs \<noteq> []"
    using Cons.prems(3) by (auto simp: headers_nonempty_def header_text_def h)
  have run: "run_callbacks (callback buffer) s (header_events h) = (?s, False)"
    using run_header [of s buffer fs vs] Cons.prems ne
    by (auto simp: h headers_size_def header_text_def)
  have "ctx_ref (settle ?s) = store_header (ctx_ref (settle s)) (header_text buffer h)"
    using ne Cons.prems(1) by (simp add: settle_def [of ?s] save_current_header_def header_text_def h)
  moreover have "attached ?s" using Cons.prems(1) by simp
  moreover have "current_header_value ?s = [] \<longleftrightarrow> current_header_field ?s = []" using ne by simp
  moreover have "headers_nonempty buffer hs" using Cons.prems(3) by (simp add: headers_nonempty_def)
  moreover have "total_header_size ?s + headers_size buffer hs \<le> max_header_size (codec_cfg ?s)"
    using Cons.prems(4) by (simp add: headers_size_def header_text_def h)
  ultimately obtain t where
    "run_callbacks (callback buffer) ?s (concat (map header_events hs)) = (t, False)"
    "ctx_ref (settle t) = foldl store_header (store_header (ctx_ref (settle s)) (header_text buffer h))
       (map (header_text buffer) hs)"
    "current_header_value t = [] \<longleftrightarrow> current_header_field t = []"
    using Cons.IH [of ?s] by metis
  then show ?case using run by (simp add: run_callbacks_append)
qed

lemma headers_foldl_target:
  "headers (foldl store_header ctx fvs) = foldl (\<lambda>al (f, v). AList.update (to_lower f) v al) (headers ctx) fvs"
  by (induction fvs arbitrary: ctx) (auto split: prod.split)

lemma map_of_headers_foldl:
  "map_of (headers (foldl store_header ctx fvs)) k =
     (case map_of (rev (map (\<lambda>(f, v). (to_lower f, v)) fvs)) k of
        Some v \<Rightarrow> Some v | None \<Rightarrow> map_of (headers ctx) k)"
  by (induction fvs arbitrary: ctx)
     (auto simp: update_conv map_add_def split: option.splits prod.split)

lemma run_message:
  assumes "headers_nonempty buffer hs"
    and "headers_size buffer hs \<le> max_header_size (codec_cfg s)"
    and "length (headers (message_context buffer ctx us hs bs)) \<le> max_headers (codec_cfg s)"
  shows "\<exists>t. run_callbacks (callback buffer) (begin_parse ctx s) (message_events us hs bs) = (t, False)
     \<and> ctx_ref t = message_context buffer ctx us hs bs"
proof -
  let ?b = "begin_parse ctx s"
  let ?u = "?b\<lparr>ctx_ref := (ctx_ref ?b)\<lparr>req_target := req_target (ctx_ref ?b) @ spans_text buffer us\<rparr>\<rparr>"
  have u: "ctx_ref (settle ?u) = (clear_context ctx)\<lparr>req_target := spans_text buffer us\<rparr>"
    by (simp add: settle_def clear_context_def)
  from run_headers [of ?u buffer hs] assms obtain t where
    t: "run_callbacks (callback buffer) ?u (concat (map header_events hs)) = (t, False)"
      "ctx_ref (settle t) = foldl store_header (ctx_ref (settle ?u)) (map (header_text buffer) hs)"
      "current_header_value t = [] \<longleftrightarrow> current_header_field t = []"
    by auto
  from run_callbacks_accepts [OF t(1)] have acc: "attached t" "codec_cfg t = codec_cfg s" by simp_all
  let ?m = "foldl store_header ((clear_context ctx)\<lparr>req_target := spans_text buffer us\<rparr>)
              (map (header_text buffer) hs)"
  have m: "ctx_ref (settle t) = ?m" using t(2) u by simp
  have "headers (message_context buffer ctx us hs bs) = headers ?m"
    by (simp add: message_context_def Let_def)
  then have "\<not> max_headers (codec_cfg s) < length (headers (ctx_ref (settle t)))"
    using m assms(3) by simp
  moreover have "(if current_header_field t \<noteq> [] then save_current_header t else t) = settle t"
    using t(3) by (simp add: settle_def)
  ultimately have complete: "callback buffer t OnHeadersComplete = (settle t, 0)"
    using acc by (simp add: on_headers_complete_def)
  have "run_callbacks (callback buffer) ?b (map OnUrl us) = (?u, False)"
    by (simp add: run_urls)
  with t(1) complete acc have "run_callbacks (callback buffer) ?b (message_events us hs bs)
      = (if bs = [] then settle t else (settle t)\<lparr>ctx_ref := (ctx_ref (settle t))\<lparr>body := last bs\<rparr>\<rparr>, False)"
    by (simp add: message_events_def run_callbacks_append run_bodies del: begin_parse_simps(7))
  with m show ?thesis by (auto simp: message_context_def Let_def)
qed

lemma foldl_store_header_simps [simp]:
  "req_target (foldl store_header ctx fvs) = req_target ctx"
  "body (foldl store_header ctx fvs) = body ctx"
  "client_endpoint (foldl store_header ctx fvs) = client_endpoint ctx"
  "trace_parent (foldl store_header ctx fvs) = trace_parent ctx"
  by (induction fvs arbitrary: ctx) auto

lemma message_context_simps:
  "req_target (message_context buffer ctx us hs bs) = spans_text buffer us"
  "body (message_context buffer ctx us hs bs) = (if bs = [] then empty_view else last bs)"
  "map_of (headers (message_context buffer ctx us hs bs)) k =
     map_of (rev (map (\<lambda>h. (to_lower (fst (header_text buffer h)), snd (header_text buffer h))) hs)) k"
  by (auto simp: message_context_def Let_def clear_context_def map_of_headers_foldl case_prod_unfold
      o_def split: option.split)

text \<open>The value under which a message's header is stored: the last one of that name.\<close>

definition message_header :: "string \<Rightarrow> header_spans list \<Rightarrow> string \<Rightarrow> string option" where
  "message_header buffer hs k =
     map_of (rev (map (\<lambda>h. (to_lower (fst (header_text buffer h)), snd (header_text buffer h))) hs)) k"

lemma parse_message_aux:
  assumes "llhttp_script ll (parser c) buffer (message_events us hs bs) HPE_OK"
    and "headers_nonempty buffer hs"
    and "headers_size buffer hs \<le> max_header_size (codec_cfg (cstate c))"
    and "length (headers (message_context buffer ctx us hs bs)) \<le> max_headers (codec_cfg (cstate c))"
  shows "\<exists>p t. ctx_ref t = message_context buffer ctx us hs bs \<and> codec_cfg t = codec_cfg (cstate c)
     \<and> pending_error t = kSuccess
     \<and> parse ll buffer ctx c =
     (fst (finish_parse ll t HPE_OK p), snd (finish_parse ll t HPE_OK p),
      \<lparr>parser = p, cstate = t\<lparr>ctx_ref := snd (finish_parse ll t HPE_OK p)\<rparr>\<rparr>)"
proof -
  from run_message [OF assms(2-4)] obtain t where
    t: "run_callbacks (callback buffer) (begin_parse ctx (cstate c)) (message_events us hs bs) = (t, False)"
      "ctx_ref t = message_context buffer ctx us hs bs" by blast
  from run_callbacks_accepts [OF t(1)] have "pending_error t = kSuccess" "codec_cfg t = codec_cfg (cstate c)"
    by simp_all
  with parse_accepted [OF assms(1) t(1)] t(2) show ?thesis by blast
qed

lemma context_ok_foldl: "context_ok ctx \<Longrightarrow> context_ok (foldl store_header ctx fvs)"
  by (induction fvs arbitrary: ctx) (auto simp: context_ok_store_header)

lemma message_context_ok: "context_ok (message_context buffer ctx us hs bs)"
  by (simp add: message_context_def Let_def context_ok_foldl context_ok_clear)

lemma message_host:
  "host (message_context buffer ctx us hs bs) =
     (case message_header buffer hs ''host'' of None \<Rightarrow> [] | Some v \<Rightarrow> v)"
  using message_context_ok [of buffer ctx us hs bs]
  by (simp add: context_ok_def message_context_simps message_header_def)

text \<open>
  The length a message declares: the last of its \<^verbatim>\<open>Content-Length\<close> values that \<^verbatim>\<open>std::stoull\<close>
  reads.
\<close>

definition declared_lengths :: "string \<Rightarrow> header_spans \<Rightarrow> 64 word list" where
  "declared_lengths buffer h =
     (if to_lower (fst (header_text buffer h)) = ''content-length''
      then (case stoull (snd (header_text buffer h)) of Inl _ \<Rightarrow> [] | Inr n \<Rightarrow> [n]) else [])"

definition declared_length :: "string \<Rightarrow> header_spans list \<Rightarrow> 64 word option" where
  "declared_length buffer hs =
     (let ns = concat (map (declared_lengths buffer) hs) in if ns = [] then None else Some (last ns))"

definition stored_length :: "request_context \<Rightarrow> 64 word option" where
  "stored_length ctx = (if has_content_length ctx then Some (content_length ctx) else None)"

lemma stored_length_store:
  "stored_length (store_header ctx (header_text buffer h)) =
     (case declared_lengths buffer h of [] \<Rightarrow> stored_length ctx | n # _ \<Rightarrow> Some n)"
  by (cases "header_text buffer h")
     (auto simp: stored_length_def declared_lengths_def store_header_def Let_def split: sum.split)

lemma stored_length_foldl:
  "stored_length (foldl store_header ctx (map (header_text buffer) hs)) =
     (case declared_length buffer hs of None \<Rightarrow> stored_length ctx | Some n \<Rightarrow> Some n)"
proof (induction hs rule: rev_induct)
  case (snoc h hs)
  have "declared_lengths buffer h = [] \<or> (\<exists>n. declared_lengths buffer h = [n])"
    by (auto simp: declared_lengths_def split: sum.split)
  with snoc show ?case by (auto simp: stored_length_store declared_length_def Let_def)
qed (simp add: declared_length_def)

lemma message_length: "stored_length (message_context buffer ctx us hs bs) = declared_length buffer hs"
proof -
  have "stored_length (c\<lparr>body := b\<rparr>) = stored_length c" for c b by (simp add: stored_length_def)
  moreover have "stored_length ((clear_context ctx)\<lparr>req_target := x\<rparr>) = None" for x
    by (simp add: stored_length_def clear_context_def)
  ultimately show ?thesis
    by (simp add: message_context_def Let_def stored_length_foldl split: option.split)
qed

text \<open>
  C13 (functional): on a complete message whose header names and values are non-empty, which is
  within the limits and whose body, if any, comes in one piece, \<open>parse\<close> returns the target, the
  last value of every header under its lower-case name, the content length the headers declare,
  and the body; the result is \<open>kMissingHost\<close> exactly for an HTTP/1.1 (or later 1.x) request
  without a host when one is required, then \<open>kContentLengthMismatch\<close> exactly when the headers
  declare a length that is not the size of the body, and success otherwise.
\<close>

theorem parse_message:
  assumes "llhttp_script ll (parser c) buffer (message_events us hs bs) HPE_OK"
    and "headers_nonempty buffer hs"
    and "headers_size buffer hs \<le> max_header_size (codec_cfg (cstate c))"
    and "length (headers (message_context buffer ctx us hs bs)) \<le> max_headers (codec_cfg (cstate c))"
    and "length bs \<le> 1"
  shows "case parse ll buffer ctx c of (result, out, c') \<Rightarrow>
     req_target out = spans_text buffer us
     \<and> map_of (headers out) = message_header buffer hs
     \<and> body out = (case bs of [] \<Rightarrow> empty_view | b # _ \<Rightarrow> b)
     \<and> (if has_content_length out then Some (content_length out) else None) = declared_length buffer hs
     \<and> req_method out = llhttp_method_name ll (parser_method ll (parser c'))
     \<and> result =
         (if require_host_header (codec_cfg (cstate c)) \<and> http_major ll (parser c') = 1
             \<and> http_minor ll (parser c') \<ge> 1 \<and> message_header buffer hs ''host'' \<in> {None, Some []}
          then kMissingHost
          else if map_option unat (declared_length buffer hs) \<in> {None, Some (sum_list (map sv_len bs))}
          then kSuccess else kContentLengthMismatch)"
proof -
  from parse_message_aux [OF assms(1-4)] obtain p t where
    t: "ctx_ref t = message_context buffer ctx us hs bs" "codec_cfg t = codec_cfg (cstate c)"
      "pending_error t = kSuccess" and
    p: "parse ll buffer ctx c = (fst (finish_parse ll t HPE_OK p), snd (finish_parse ll t HPE_OK p),
          \<lparr>parser = p, cstate = t\<lparr>ctx_ref := snd (finish_parse ll t HPE_OK p)\<rparr>\<rparr>)"
    by blast
  let ?m = "message_context buffer ctx us hs bs"
  have headers: "map_of (headers ?m) = message_header buffer hs"
    by (rule ext) (simp add: message_context_simps message_header_def)
  have body: "body ?m = (case bs of [] \<Rightarrow> empty_view | b # _ \<Rightarrow> b)"
    "sv_len (case bs of [] \<Rightarrow> empty_view | b # _ \<Rightarrow> b) = sum_list (map sv_len bs)"
    using assms(5) by (cases bs; simp add: message_context_simps empty_view_def)+
  have len: "declared_length buffer hs = (if has_content_length ?m then Some (content_length ?m) else None)"
    using message_length [of buffer ctx us hs bs] by (simp add: stored_length_def)
  show ?thesis
    unfolding p using t
    by (auto simp: finish_parse_def Let_def message_context_simps(1) message_host headers body len split: option.splits)
qed

theorem parse_message_witness:
  "case parse (scripted (message_events [\<lparr>sv_off = 0, sv_len = 1\<rparr>]
        [([\<lparr>sv_off = 1, sv_len = 2\<rparr>, \<lparr>sv_off = 3, sv_len = 2\<rparr>], [\<lparr>sv_off = 5, sv_len = 1\<rparr>])]
        [\<lparr>sv_off = 6, sv_len = 2\<rparr>]) HPE_OK 1 1 ''GET'') ''/HOsTabc'' empty_context
      (new_codec (scripted [] HPE_OK 1 1 ''GET'') default_codec_config) of (result, out, c') \<Rightarrow>
     req_target out = ''/'' \<and> map_of (headers out) ''host'' = Some ''a''
     \<and> body out = \<lparr>sv_off = 6, sv_len = 2\<rparr>"
proof -
  let ?us = "[\<lparr>sv_off = 0, sv_len = 1\<rparr>]"
  let ?hs = "[([\<lparr>sv_off = 1, sv_len = 2\<rparr>, \<lparr>sv_off = 3, sv_len = 2\<rparr>], [\<lparr>sv_off = 5, sv_len = 1\<rparr>])]"
  let ?bs = "[\<lparr>sv_off = 6, sv_len = 2\<rparr>]"
  let ?ll = "scripted (message_events ?us ?hs ?bs) HPE_OK 1 1 ''GET''"
  have ht: "header_text ''/HOsTabc'' (?hs ! 0) = (''HOsT'', ''a'')"
    by (simp add: header_text_def view_text_def str_sub_def)
  have low: "to_lower ''HOsT'' = ''host''" by code_simp
  have ctx: "length (headers (message_context ''/HOsTabc'' empty_context ?us ?hs ?bs)) \<le> 100"
    using ht by (simp add: message_context_def clear_context_def Let_def)
  have spans: "view_text ''/HOsTabc'' \<lparr>sv_off = 0, sv_len = 1\<rparr> = ''/''"
    by (simp add: view_text_def str_sub_def)
  from ht low have hdr: "message_header ''/HOsTabc'' ?hs ''host'' = Some ''a''"
    by (simp add: message_header_def)
  have "headers_nonempty ''/HOsTabc'' ?hs" "headers_size ''/HOsTabc'' ?hs \<le> 8192"
    using ht by (simp_all add: headers_nonempty_def headers_size_def)
  with ctx parse_message [OF scripted_script [where major = 1 and minor = 1 and meth = "''GET''"], where buffer = "''/HOsTabc''" and hs = ?hs
      and c = "new_codec (scripted [] HPE_OK 1 1 ''GET'') default_codec_config" and ctx = empty_context and us = ?us and bs = ?bs]
  show ?thesis
    by (simp add: new_codec_def default_codec_config_def spans hdr del: One_nat_def split: prod.splits)
qed

section \<open>An empty header value\<close>

text \<open>
  A header with an empty value is not saved when the next name starts, so the next name is
  appended to it.
\<close>

lemma run_empty_values:
  assumes "spans_text buffer es = []" "total_header_size s \<le> max_header_size (codec_cfg s)"
  shows "run_callbacks (callback buffer) s (map OnHeaderValue es) = (s, False)"
  using assms run_value_pieces [of s buffer es] by simp

lemma run_merged_header:
  assumes "attached s" "current_header_value s = []" "spans_text buffer es = []"
    and "total_header_size s + length (spans_text buffer fs) \<le> max_header_size (codec_cfg s)"
  shows "run_callbacks (callback buffer) s (header_events (fs, es) @ header_events (gs, vs)) =
     run_callbacks (callback buffer) s (header_events (fs @ gs, vs))"
proof -
  from assms(2,4) obtain t where t: "run_callbacks (callback buffer) s (map OnHeaderField fs) = (t, False)"
    "total_header_size t \<le> max_header_size (codec_cfg t)"
    by (simp add: run_field_pieces)
  with run_empty_values [OF assms(3) t(2)] show ?thesis
    by (simp add: header_events_def run_callbacks_append)
qed

definition empty_value_events ::
  "sview list \<Rightarrow> header_spans \<Rightarrow> header_spans \<Rightarrow> llhttp_event list"
where
  "empty_value_events us h g =
     OnMessageBegin # map OnUrl us @ (header_events h @ header_events g)
       @ [OnHeadersComplete, OnMessageComplete]"

lemma run_empty_value_events:
  assumes "spans_text buffer es = []"
    and "length (spans_text buffer fs) \<le> max_header_size (codec_cfg s)"
  shows "run_callbacks (callback buffer) (begin_parse ctx s) (empty_value_events us (fs, es) (gs, vs)) =
     run_callbacks (callback buffer) (begin_parse ctx s) (message_events us [(fs @ gs, vs)] [])"
proof -
  let ?b = "begin_parse ctx s"
  let ?u = "?b\<lparr>ctx_ref := (ctx_ref ?b)\<lparr>req_target := req_target (ctx_ref ?b) @ spans_text buffer us\<rparr>\<rparr>"
  have urls: "run_callbacks (callback buffer) ?b (map OnUrl us) = (?u, False)" by (simp add: run_urls)
  have start: "run_callbacks (callback buffer) ?b (OnMessageBegin # map OnUrl us @ R)
      = run_callbacks (callback buffer) ?u R" for R
    using urls by (simp add: run_callbacks_append del: begin_parse_simps(7))
  have merged: "run_callbacks (callback buffer) ?u (header_events (fs, es) @ header_events (gs, vs)) =
      run_callbacks (callback buffer) ?u (header_events (fs @ gs, vs))"
    by (rule run_merged_header) (use assms in simp_all)
  show ?thesis
    unfolding empty_value_events_def message_events_def start
    by (simp only: run_callbacks_append [of _ _ "header_events (fs, es) @ header_events (gs, vs)"]
        merged list.map concat.simps append_Nil append_Nil2 append_Cons run_callbacks_append [symmetric])
qed

lemma spans_text_append [simp]: "spans_text buffer (fs @ gs) = spans_text buffer fs @ spans_text buffer gs"
  by (simp add: spans_text_def)

text \<open>
  When the first of two headers has an empty value, the names run together:
  the request ends up with a single header, under both names concatenated, and with no
  host unless that concatenation is \<^verbatim>\<open>host\<close>.
\<close>

theorem empty_value_merges:
  assumes "llhttp_script ll (parser c) buffer (empty_value_events us (fs, es) (gs, vs)) HPE_OK"
    and "spans_text buffer es = []" "spans_text buffer fs \<noteq> []" "spans_text buffer vs \<noteq> []"
    and "length (spans_text buffer fs) + length (spans_text buffer gs) + length (spans_text buffer vs)
           \<le> max_header_size (codec_cfg (cstate c))"
    and "1 \<le> max_headers (codec_cfg (cstate c))"
  shows "headers (fst (snd (parse ll buffer ctx c))) =
       [(to_lower (spans_text buffer fs @ spans_text buffer gs), spans_text buffer vs)]
     \<and> host (fst (snd (parse ll buffer ctx c))) =
       (if to_lower (spans_text buffer fs @ spans_text buffer gs) = ''host''
        then spans_text buffer vs else [])"
proof -
  let ?hs = "[(fs @ gs, vs)]"
  have ctx: "headers (message_context buffer ctx us ?hs []) =
      [(to_lower (spans_text buffer fs @ spans_text buffer gs), spans_text buffer vs)]"
    "host (message_context buffer ctx us ?hs []) =
       (if to_lower (spans_text buffer fs @ spans_text buffer gs) = ''host''
        then spans_text buffer vs else [])"
    by (simp_all add: message_context_def header_text_def clear_context_def Let_def)
  have "headers_nonempty buffer ?hs" "headers_size buffer ?hs \<le> max_header_size (codec_cfg (cstate c))"
    "length (headers (message_context buffer ctx us ?hs [])) \<le> max_headers (codec_cfg (cstate c))"
    using assms ctx by (simp_all add: headers_nonempty_def headers_size_def header_text_def)
  from run_message [OF this] obtain t where
    t: "run_callbacks (callback buffer) (begin_parse ctx (cstate c)) (message_events us ?hs []) = (t, False)"
      "ctx_ref t = message_context buffer ctx us ?hs []" by blast
  have "run_callbacks (callback buffer) (begin_parse ctx (cstate c))
      (empty_value_events us (fs, es) (gs, vs)) = (t, False)"
    using run_empty_value_events [of buffer es fs "cstate c"] assms t(1) by simp
  from parse_accepted [OF assms(1) this] obtain p where
    "fst (snd (parse ll buffer ctx c)) = snd (finish_parse ll t HPE_OK p)" by auto
  then show ?thesis using t(2) ctx by (simp add: finish_parse_def Let_def)
qed

theorem empty_value_merges_witness:
  "headers (fst (snd (parse
      (scripted (empty_value_events [] ([\<lparr>sv_off = 0, sv_len = 1\<rparr>], [\<lparr>sv_off = 1, sv_len = 0\<rparr>])
         ([\<lparr>sv_off = 1, sv_len = 4\<rparr>], [\<lparr>sv_off = 5, sv_len = 1\<rparr>])) HPE_OK 1 1 ''GET'')
      ''xhosta'' empty_context (new_codec (scripted [] HPE_OK 1 1 ''GET'') default_codec_config))))
   = [(to_lower ''xhost'', ''a'')]"
  using empty_value_merges [OF scripted_script [where major = 1 and minor = 1 and meth = "''GET''"], where buffer = "''xhosta''"
      and es = "[\<lparr>sv_off = 1, sv_len = 0\<rparr>]" and fs = "[\<lparr>sv_off = 0, sv_len = 1\<rparr>]"
      and vs = "[\<lparr>sv_off = 5, sv_len = 1\<rparr>]" and gs = "[\<lparr>sv_off = 1, sv_len = 4\<rparr>]"
      and c = "new_codec (scripted [] HPE_OK 1 1 ''GET'') default_codec_config" and us = "[]" and ctx = empty_context]
  by (simp add: new_codec_def default_codec_config_def view_text_def str_sub_def)

section \<open>Incomplete input\<close>

text \<open>
  Llhttp also returns success when the buffer ends inside the request line; as
  the version it reports is then not 1.x with x at least 1, \<open>parse\<close> reports a complete,
  successful request, without any header.
\<close>

theorem incomplete_request_succeeds:
  assumes "llhttp_script ll (parser c) buffer (OnMessageBegin # map OnUrl us) HPE_OK"
    and "parse ll buffer ctx c = (result, out, c')"
    and "\<not> (http_major ll (parser c') = 1 \<and> http_minor ll (parser c') \<ge> 1)"
  shows "result = kSuccess \<and> req_target out = spans_text buffer us \<and> headers out = []"
proof -
  let ?b = "begin_parse ctx (cstate c)"
  let ?u = "?b\<lparr>ctx_ref := (ctx_ref ?b)\<lparr>req_target := req_target (ctx_ref ?b) @ spans_text buffer us\<rparr>\<rparr>"
  have "run_callbacks (callback buffer) ?b (OnMessageBegin # map OnUrl us) = (?u, False)"
    by (simp add: run_urls)
  from parse_accepted [OF assms(1) this] assms(2,3) show ?thesis
    by (auto simp: finish_parse_def Let_def clear_context_def)
qed

theorem incomplete_request_succeeds_witness:
  "fst (parse (scripted [OnMessageBegin, OnUrl \<lparr>sv_off = 4, sv_len = 2\<rparr>] HPE_OK 0 0 ''GET'')
     ''GET /x'' empty_context (new_codec (scripted [] HPE_OK 0 0 ''GET'') default_codec_config)) = kSuccess"
proof -
  let ?ll = "scripted (OnMessageBegin # map OnUrl [\<lparr>sv_off = 4, sv_len = 2\<rparr>]) HPE_OK 0 0 ''GET''"
  let ?c = "new_codec (scripted [] HPE_OK 0 0 ''GET'') default_codec_config"
  obtain r out c' where p: "parse ?ll ''GET /x'' empty_context ?c = (r, out, c')" by (metis prod_cases3)
  have "r = kSuccess"
    using incomplete_request_succeeds [OF scripted_script p] by (simp add: scripted_def)
  with p show ?thesis by simp
qed

section \<open>Independence of earlier parses\<close>

text \<open>
  C36 (equivalence): a parse does not see what came before. For any llhttp, its result depends on
  the buffer, the configuration, llhttp's own state, and the two fields of the context that
  \<^verbatim>\<open>parse\<close> does not clear: everything else an earlier parse left in the codec and in the
  output context, whether or not it failed, is erased.
\<close>

theorem parse_forgets:
  assumes "parser c1 = parser c2" "codec_cfg (cstate c1) = codec_cfg (cstate c2)"
    and "client_endpoint ctx1 = client_endpoint ctx2" "trace_parent ctx1 = trace_parent ctx2"
  shows "parse ll buffer ctx1 c1 = parse ll buffer ctx2 c2"
proof -
  have "clear_context ctx1 = clear_context ctx2"
    using assms(3,4) by (cases ctx1; cases ctx2) (simp add: clear_context_def)
  then have "begin_parse ctx1 (cstate c1) = begin_parse ctx2 (cstate c2)"
    using assms(2) by (cases "cstate c1"; cases "cstate c2") (simp add: begin_parse_def)
  with assms(1) show ?thesis by (simp add: parse_def)
qed

theorem parse_forgets_witness:
  "parse (scripted [] HPE_OK 1 1 ''GET'') ''x'' (empty_context\<lparr>host := ''old''\<rparr>)
     (tiny_codec\<lparr>cstate := (cstate tiny_codec)\<lparr>current_header_field := ''Host'', pending_error := kHeaderTooLarge\<rparr>\<rparr>)
   = parse (scripted [] HPE_OK 1 1 ''GET'') ''x'' empty_context tiny_codec"
  by (rule parse_forgets) simp_all

end
