(* ===== verification/Object_Handles.thy ===== *)
theory Object_Handles imports Route_Snapshot Http1_Codec begin

text \<open>
  The public classes \<^verbatim>\<open>Http1Codec\<close> (\<^verbatim>\<open>src/protocol/http1_codec.cpp\<close>) and \<^verbatim>\<open>RouteSnapshot\<close>
  (\<^verbatim>\<open>src/routing/route_snapshot.cpp\<close>) hold nothing but a \<^verbatim>\<open>unique_ptr\<close> to their \<^verbatim>\<open>Impl\<close>: they can be
  moved, not copied, and each call goes through the pointer. An \<^verbatim>\<open>Impl\<close> of the codec has
  given its own address to llhttp, which hands it back to the callbacks. Dereferencing the null
  pointer of a moved-from object is the value \<open>None\<close>.
\<close>

section \<open>Objects that own an implementation\<close>

text \<open>\<open>objs v\<close>: the object \<open>v\<close> if it is alive, with its pointer, which is null after a move.\<close>

record 'i obj_store =
  impls :: "nat \<rightharpoonup> 'i"
  next_impl :: nat
  objs :: "nat \<rightharpoonup> nat option"

definition empty_store :: "'i obj_store" where
  "empty_store = \<lparr>impls = Map.empty, next_impl = 0, objs = Map.empty\<rparr>"

text \<open>\<^verbatim>\<open>std::make_unique<Impl>\<close>: the implementation may depend on its own address.\<close>

definition obj_new :: "(nat \<Rightarrow> 'i) \<Rightarrow> nat \<Rightarrow> 'i obj_store \<Rightarrow> 'i obj_store" where
  "obj_new build v s = s\<lparr>impls := (impls s)(next_impl s \<mapsto> build (next_impl s)),
     next_impl := Suc (next_impl s), objs := (objs s)(v \<mapsto> Some (next_impl s))\<rparr>"

definition free_impl :: "nat option \<Rightarrow> 'i obj_store \<Rightarrow> 'i obj_store" where
  "free_impl p s = (case p of None \<Rightarrow> s | Some a \<Rightarrow> s\<lparr>impls := (impls s)(a := None)\<rparr>)"

definition obj_destroy :: "nat \<Rightarrow> 'i obj_store \<Rightarrow> 'i obj_store option" where
  "obj_destroy v s =
     (case objs s v of
        None \<Rightarrow> None
      | Some p \<Rightarrow> Some ((free_impl p s)\<lparr>objs := (objs s)(v := None)\<rparr>))"

definition obj_move_construct :: "nat \<Rightarrow> nat \<Rightarrow> 'i obj_store \<Rightarrow> 'i obj_store option" where
  "obj_move_construct v w s =
     (case objs s w of
        None \<Rightarrow> None
      | Some p \<Rightarrow> Some (s\<lparr>objs := (objs s)(w \<mapsto> None, v \<mapsto> p)\<rparr>))"

text \<open>\<^verbatim>\<open>v = std::move(w)\<close> is \<^verbatim>\<open>reset(w.release())\<close>: on itself it changes nothing.\<close>

definition obj_move_assign :: "nat \<Rightarrow> nat \<Rightarrow> 'i obj_store \<Rightarrow> 'i obj_store option" where
  "obj_move_assign v w s =
     (case (objs s v, objs s w) of
        (Some q, Some p) \<Rightarrow>
          if v = w then Some s
          else Some ((free_impl q s)\<lparr>objs := (objs s)(w \<mapsto> None, v \<mapsto> p)\<rparr>)
      | _ \<Rightarrow> None)"

text \<open>\<^verbatim>\<open>impl_->f(...)\<close>.\<close>

definition obj_call ::
  "(nat \<Rightarrow> 'i \<Rightarrow> ('r \<times> 'i) option) \<Rightarrow> nat \<Rightarrow> 'i obj_store \<Rightarrow> ('r \<times> 'i obj_store) option"
where
  "obj_call meth v s =
     (case objs s v of
        Some (Some a) \<Rightarrow>
          (case impls s a of
             None \<Rightarrow> None
           | Some x \<Rightarrow>
               (case meth a x of
                  None \<Rightarrow> None
                | Some (r, x') \<Rightarrow> Some (r, s\<lparr>impls := (impls s)(a \<mapsto> x')\<rparr>)))
      | _ \<Rightarrow> None)"

text \<open>A program over such objects: \<open>'c\<close> are the constructor's arguments, \<open>'m\<close> the calls.\<close>

datatype ('c, 'm) obj_op =
    Construct nat 'c
  | Destroy nat
  | MoveConstruct nat nat
  | MoveAssign nat nat
  | Call nat 'm

fun obj_step ::
  "('c \<Rightarrow> nat \<Rightarrow> 'i) \<Rightarrow> ('m \<Rightarrow> nat \<Rightarrow> 'i \<Rightarrow> ('r \<times> 'i) option) \<Rightarrow> 'i obj_store \<Rightarrow> ('c, 'm) obj_op \<Rightarrow> 'i obj_store option"
where
  "obj_step build meth s (Construct v c) = Some (obj_new (build c) v s)"
| "obj_step build meth s (Destroy v) = obj_destroy v s"
| "obj_step build meth s (MoveConstruct v w) = obj_move_construct v w s"
| "obj_step build meth s (MoveAssign v w) = obj_move_assign v w s"
| "obj_step build meth s (Call v m) = map_option snd (obj_call (meth m) v s)"

text \<open>
  What the language and the programmer see to: objects are constructed once and used while they
  live, a moved-from object is only assigned or destroyed, and calls are \<open>legal\<close>.
\<close>

fun obj_guard :: "('m \<Rightarrow> 'i \<Rightarrow> bool) \<Rightarrow> 'i obj_store \<Rightarrow> ('c, 'm) obj_op \<Rightarrow> bool" where
  "obj_guard legal s (Construct v c) \<longleftrightarrow> objs s v = None"
| "obj_guard legal s (Destroy v) \<longleftrightarrow> objs s v \<noteq> None"
| "obj_guard legal s (MoveConstruct v w) \<longleftrightarrow> objs s v = None \<and> objs s w \<noteq> None"
| "obj_guard legal s (MoveAssign v w) \<longleftrightarrow> objs s v \<noteq> None \<and> objs s w \<noteq> None"
| "obj_guard legal s (Call v m) \<longleftrightarrow>
     (case objs s v of Some (Some a) \<Rightarrow> (case impls s a of Some x \<Rightarrow> legal m x | None \<Rightarrow> False) | _ \<Rightarrow> False)"

text \<open>
  A well-formed store: a pointer that is not null belongs to one object and points to a live
  implementation that is well formed for its address; every implementation has an owner.
\<close>

definition store_ok :: "(nat \<Rightarrow> 'i \<Rightarrow> bool) \<Rightarrow> 'i obj_store \<Rightarrow> bool" where
  [inv_defs]: "store_ok impl_ok s \<longleftrightarrow>
     (\<forall>v a. objs s v = Some (Some a) \<longrightarrow> (\<exists>x. impls s a = Some x \<and> impl_ok a x))
     \<and> (\<forall>v w a. objs s v = Some (Some a) \<and> objs s w = Some (Some a) \<longrightarrow> v = w)
     \<and> (\<forall>a. impls s a \<noteq> None \<longrightarrow> (\<exists>v. objs s v = Some (Some a)))
     \<and> (\<forall>a\<ge>next_impl s. impls s a = None)"

lemma empty_store_ok: "store_ok impl_ok empty_store"
  by (simp add: store_ok_def empty_store_def)

lemma store_okD:
  assumes "store_ok impl_ok s"
  shows "objs s v = Some (Some a) \<Longrightarrow> \<exists>x. impls s a = Some x \<and> impl_ok a x"
    and "objs s v = Some (Some a) \<Longrightarrow> objs s w = Some (Some a) \<Longrightarrow> v = w"
    and "impls s a = Some x \<Longrightarrow> \<exists>v. objs s v = Some (Some a)"
    and "next_impl s \<le> a \<Longrightarrow> impls s a = None"
  using assms unfolding store_ok_def by blast+

text \<open>Giving up a pointer frees its implementation, and no other object can tell.\<close>

lemma free_ok:
  assumes "store_ok impl_ok s" "objs s v = Some q"
  shows "store_ok impl_ok ((free_impl q s)\<lparr>objs := (objs s)(v \<mapsto> None)\<rparr>)"
proof (cases q)
  case None
  with assms have "(objs s)(v \<mapsto> None) = objs s" by auto
  with None assms(1) show ?thesis by (simp add: free_impl_def)
next
  case (Some a)
  note ok = store_okD [OF assms(1)]
  let ?s = "(free_impl q s)\<lparr>objs := (objs s)(v \<mapsto> None)\<rparr>"
  have "\<exists>x. impls ?s b = Some x \<and> impl_ok b x" if "objs ?s w = Some (Some b)" for w b
    using that ok(1) [of w b] ok(2) [of w b v] assms(2) Some
    by (auto simp: free_impl_def split: if_splits)
  moreover have "w = u" if "objs ?s w = Some (Some b)" "objs ?s u = Some (Some b)" for w u b
    using that ok(2) [of w b u] by (auto split: if_splits)
  moreover have "\<exists>w. objs ?s w = Some (Some b)" if "impls ?s b \<noteq> None" for b
  proof -
    from that Some obtain x where "b \<noteq> a" "impls s b = Some x" by (auto simp: free_impl_def split: if_splits)
    with ok(3) obtain w where "objs s w = Some (Some b)" by blast
    moreover have "w \<noteq> v" using calculation assms(2) Some \<open>b \<noteq> a\<close> by auto
    ultimately show ?thesis by auto
  qed
  moreover have "impls ?s b = None" if "next_impl ?s \<le> b" for b
    using that ok(4) [of b] Some by (auto simp: free_impl_def)
  ultimately show ?thesis unfolding store_ok_def by blast
qed

text \<open>A pointer changes hands.\<close>

lemma transfer_ok:
  assumes "store_ok impl_ok s" "objs s v \<in> {None, Some None}" "objs s w = Some p" "v \<noteq> w"
  shows "store_ok impl_ok (s\<lparr>objs := (objs s)(w \<mapsto> None, v \<mapsto> p)\<rparr>)"
proof -
  note ok = store_okD [OF assms(1)]
  let ?s = "s\<lparr>objs := (objs s)(w \<mapsto> None, v \<mapsto> p)\<rparr>"
  have src: "objs s (if u = v then w else u) = Some (Some b) \<and> u \<noteq> w" if "objs ?s u = Some (Some b)" for u b
    using that assms(3,4) by (auto split: if_splits)
  have "\<exists>x. impls ?s b = Some x \<and> impl_ok b x" if "objs ?s u = Some (Some b)" for u b
    using ok(1) [OF src [OF that, THEN conjunct1]] by simp
  moreover have "u = u'" if "objs ?s u = Some (Some b)" "objs ?s u' = Some (Some b)" for u u' b
    using ok(2) [of "if u = v then w else u" b "if u' = v then w else u'"] src [OF that(1)] src [OF that(2)]
    by (metis (full_types))
  moreover have "\<exists>u. objs ?s u = Some (Some b)" if b: "impls ?s b \<noteq> None" for b
  proof -
    from b obtain x where "impls s b = Some x" by auto
    with ok(3) obtain u where u: "objs s u = Some (Some b)" by blast
    show ?thesis
    proof (cases "u = w")
      case True
      with u assms(3) have "objs ?s v = Some (Some b)" by simp
      then show ?thesis by blast
    next
      case False
      with u assms(2) have "objs ?s u = Some (Some b)" by auto
      then show ?thesis by blast
    qed
  qed
  moreover have "impls ?s b = None" if "next_impl ?s \<le> b" for b
    using that ok(4) [of b] by simp
  ultimately show ?thesis unfolding store_ok_def by blast
qed

lemma forget_ok:
  assumes "store_ok impl_ok s" "objs s v = Some None"
  shows "store_ok impl_ok (s\<lparr>objs := (objs s)(v := None)\<rparr>)"
  using assms unfolding store_ok_def by (auto split: if_splits) (metis option.distinct(1) option.sel)

lemma call_ok:
  assumes "store_ok impl_ok s" "objs s v = Some (Some a)" "impls s a = Some x" "impl_ok a x'"
  shows "store_ok impl_ok (s\<lparr>impls := (impls s)(a \<mapsto> x')\<rparr>)"
  using assms unfolding store_ok_def by auto

text \<open>The contract of a class: what its constructor and its methods see to.\<close>

locale pimpl_class =
  fixes build :: "'c \<Rightarrow> nat \<Rightarrow> 'i"
    and meth :: "'m \<Rightarrow> nat \<Rightarrow> 'i \<Rightarrow> ('r \<times> 'i) option"
    and legal :: "'m \<Rightarrow> 'i \<Rightarrow> bool"
    and impl_ok :: "nat \<Rightarrow> 'i \<Rightarrow> bool"
  assumes build_ok: "impl_ok a (build c a)"
    and meth_ok: "impl_ok a x \<Longrightarrow> legal m x \<Longrightarrow> \<exists>r x'. meth m a x = Some (r, x') \<and> impl_ok a x'"
begin

lemma construct_ok:
  assumes "store_ok impl_ok s" "objs s v = None"
  shows "store_ok impl_ok (obj_new (build c) v s)"
proof -
  note ok = store_okD [OF assms(1)]
  have fresh: "objs s w \<noteq> Some (Some (next_impl s))" for w
    using ok(1) [of w "next_impl s"] ok(4) [of "next_impl s"] by auto
  have "\<exists>x. impls (obj_new (build c) v s) a = Some x \<and> impl_ok a x"
    if "objs (obj_new (build c) v s) w = Some (Some a)" for w a
    using that ok(1) [of w a] build_ok by (auto simp: obj_new_def split: if_splits)
  moreover have "w = u"
    if "objs (obj_new (build c) v s) w = Some (Some a)" "objs (obj_new (build c) v s) u = Some (Some a)" for w u a
    using that ok(2) [of w a u] fresh by (auto simp: obj_new_def split: if_splits)
  moreover have "\<exists>w. objs (obj_new (build c) v s) w = Some (Some a)"
    if "impls (obj_new (build c) v s) a \<noteq> None" for a
  proof (cases "a = next_impl s")
    case False
    with that obtain x where "impls s a = Some x" by (auto simp: obj_new_def)
    with ok(3) obtain w where "objs s w = Some (Some a)" by blast
    moreover from this have "w \<noteq> v" using assms(2) by auto
    ultimately show ?thesis by (auto simp: obj_new_def)
  qed (auto simp: obj_new_def)
  moreover have "impls (obj_new (build c) v s) a = None" if "next_impl (obj_new (build c) v s) \<le> a" for a
    using that ok(4) [of a] by (auto simp: obj_new_def)
  ultimately show ?thesis unfolding store_ok_def by blast
qed

lemma step_ok:
  assumes "store_ok impl_ok s" "obj_guard legal s e"
  shows "\<exists>s'. obj_step build meth s e = Some s' \<and> store_ok impl_ok s'"
proof (cases e)
  case (Construct v c)
  with construct_ok assms show ?thesis by simp
next
  case (Destroy v)
  with assms obtain p where p: "objs s v = Some p" by auto
  let ?t = "(free_impl p s)\<lparr>objs := (objs s)(v \<mapsto> None)\<rparr>"
  have "store_ok impl_ok (?t\<lparr>objs := (objs ?t)(v := None)\<rparr>)"
    by (rule forget_ok [OF free_ok [OF assms(1) p]]) simp
  then have "store_ok impl_ok ((free_impl p s)\<lparr>objs := (objs s)(v := None)\<rparr>)" by simp
  with Destroy p show ?thesis by (simp add: obj_destroy_def)
next
  case (MoveConstruct v w)
  with assms(2) obtain p where p: "objs s v = None" "objs s w = Some p" by auto
  then have "v \<noteq> w" by auto
  with p MoveConstruct transfer_ok [OF assms(1), of v w p] show ?thesis
    by (auto simp: obj_move_construct_def)
next
  case (MoveAssign v w)
  with assms(2) obtain q p where qp: "objs s v = Some q" "objs s w = Some p" by auto
  show ?thesis
  proof (cases "v = w")
    case True
    with MoveAssign qp assms(1) show ?thesis by (simp add: obj_move_assign_def)
  next
    case False
    let ?s = "(free_impl q s)\<lparr>objs := (objs s)(v \<mapsto> None)\<rparr>"
    have "store_ok impl_ok (?s\<lparr>objs := (objs ?s)(w \<mapsto> None, v \<mapsto> p)\<rparr>)"
      using transfer_ok [OF free_ok [OF assms(1) qp(1)], of v w p] qp(2) False by simp
    moreover have "((objs s)(v \<mapsto> None))(w \<mapsto> None, v \<mapsto> p) = (objs s)(w \<mapsto> None, v \<mapsto> p)"
      using False by auto
    ultimately show ?thesis using MoveAssign qp False by (simp add: obj_move_assign_def)
  qed
next
  case (Call v m)
  with assms(2) obtain a x where x: "objs s v = Some (Some a)" "impls s a = Some x" "legal m x"
    by (auto split: option.splits)
  with store_okD(1) [OF assms(1), of v a] have "impl_ok a x" by auto
  from meth_ok [OF this x(3)] obtain r x' where "meth m a x = Some (r, x')" "impl_ok a x'" by blast
  with Call x call_ok [OF assms(1) x(1,2)] show ?thesis by (auto simp: obj_call_def)
qed

end

sublocale pimpl_class \<subseteq> guarded_machine "obj_step build meth" "obj_guard legal" "store_ok impl_ok"
  by unfold_locales (rule step_ok)

context pimpl_class begin

text \<open>Programs over the class are defined throughout and end with a well-formed store.\<close>

lemma objects_ok:
  "guarded_run (obj_step build meth) (obj_guard legal) empty_store ops \<Longrightarrow>
   \<exists>s. run_option (obj_step build meth) empty_store ops = Some s \<and> store_ok impl_ok s"
  using run_defined [OF empty_store_ok] .

end

section \<open>The codec\<close>

text \<open>\<open>parser_data\<close> is \<^verbatim>\<open>parser_.data\<close>, the address the callbacks work on.\<close>

record 'p codec_impl =
  impl_codec :: "'p codec"
  parser_data :: nat

definition new_codec_impl :: "'p llhttp \<Rightarrow> codec_config \<Rightarrow> nat \<Rightarrow> 'p codec_impl" where
  "new_codec_impl ll cfg this = \<lparr>impl_codec = new_codec ll cfg, parser_data = this\<rparr>"

datatype codec_method = Parse string request_context | Reset

text \<open>
  The two methods through the pointer. \<open>None\<close>: the callbacks would work on another address than
  the implementation that is parsing.
\<close>

fun codec_call ::
  "'p llhttp \<Rightarrow> codec_method \<Rightarrow> nat \<Rightarrow> 'p codec_impl \<Rightarrow> ((parse_error \<times> request_context) option \<times> 'p codec_impl) option"
where
  "codec_call ll (Parse buffer ctx) this x =
     (if parser_data x \<noteq> this then None
      else case parse ll buffer ctx (impl_codec x) of
             (result, out, c) \<Rightarrow> Some (Some (result, out), x\<lparr>impl_codec := c\<rparr>))"
| "codec_call ll Reset this x = Some (None, x\<lparr>impl_codec := reset_codec ll (impl_codec x)\<rparr>)"

definition codec_impl_ok :: "nat \<Rightarrow> 'p codec_impl \<Rightarrow> bool" where
  "codec_impl_ok this x \<longleftrightarrow> parser_data x = this"

interpretation codec_class: pimpl_class "new_codec_impl ll" "codec_call ll" "\<lambda>_ _. True" codec_impl_ok for ll
proof unfold_locales
  show "codec_impl_ok a (new_codec_impl ll c a)" for ll :: "'p llhttp" and c a
    by (simp add: codec_impl_ok_def new_codec_impl_def)
  show "\<exists>r x'. codec_call ll m a x = Some (r, x') \<and> codec_impl_ok a x'"
    if "codec_impl_ok a x" for ll :: "'p llhttp" and m a x
    using that by (cases m) (auto simp: codec_impl_ok_def split: prod.split)
qed

text \<open>
  C21 (type): codec objects stay well formed. Whatever is constructed, moved, assigned,
  destroyed, parsed and reset, within the rules of the language, nothing is undefined; each
  object that was not moved from owns a live implementation alone, whose callbacks work on
  itself; and no implementation is left without an owner.
\<close>

theorem codec_objects_ok:
  assumes "guarded_run (obj_step (new_codec_impl ll) (codec_call ll)) (obj_guard (\<lambda>_ _. True)) empty_store ops"
  shows "\<exists>s. run_option (obj_step (new_codec_impl ll) (codec_call ll)) empty_store ops = Some s
     \<and> store_ok (\<lambda>this x. parser_data x = this) s"
  using codec_class.objects_ok [OF assms] by (simp add: codec_impl_ok_def [abs_def])

theorem codec_objects_ok_witness:
  "\<exists>s. run_option (obj_step (new_codec_impl (scripted [] HPE_OK 1 0 ''GET'')) (codec_call (scripted [] HPE_OK 1 0 ''GET'')))
       empty_store [Construct 0 default_codec_config, MoveConstruct 1 0, Construct 2 default_codec_config, MoveAssign 1 2] = Some s
     \<and> store_ok (\<lambda>this x. parser_data x = this) s"
  by (rule codec_objects_ok)
     (simp add: empty_store_def obj_new_def obj_move_construct_def obj_move_assign_def)

text \<open>
  Moving a codec is invisible to its user. A call on the object that was
  moved to, by construction or assignment, gives what it would have given on the source, and the
  source is then null.
\<close>

theorem call_after_move:
  assumes "store_ok impl_ok s" "objs s w = Some (Some a)" "v \<noteq> w"
    and "obj_move_construct v w s = Some s' \<or> obj_move_assign v w s = Some s'"
  shows "map_option fst (obj_call meth v s') = map_option fst (obj_call meth w s)
    \<and> objs s' w = Some None \<and> obj_call meth w s' = None"
proof -
  from assms(2-4) have objs: "objs s' = (objs s)(w \<mapsto> None, v \<mapsto> Some a)"
    by (auto simp: obj_move_construct_def obj_move_assign_def split: option.splits)
  moreover have "impls s' a = impls s a"
    using assms(2-4) store_okD(2) [OF assms(1), of v a w]
    by (auto simp: obj_move_construct_def obj_move_assign_def free_impl_def split: option.splits)
  ultimately show ?thesis
    using assms(2,3) by (auto simp: obj_call_def split: option.splits)
qed

definition demo_store :: "unit codec_impl obj_store" where
  "demo_store = obj_new (new_codec_impl (scripted [] HPE_OK 1 0 ''GET'') default_codec_config) 0 empty_store"

theorem call_after_move_witness:
  "\<exists>s'. obj_move_construct 1 0 demo_store = Some s'
     \<and> map_option fst (obj_call (codec_call (scripted [] HPE_OK 1 0 ''GET'') (Parse ''x'' empty_context)) 1 s')
       = map_option fst (obj_call (codec_call (scripted [] HPE_OK 1 0 ''GET'') (Parse ''x'' empty_context)) 0 demo_store)"
proof -
  have ok: "store_ok codec_impl_ok demo_store"
    unfolding demo_store_def by (rule codec_class.construct_ok [OF empty_store_ok]) (simp add: empty_store_def)
  have o: "objs demo_store 0 = Some (Some 0)" by (simp add: demo_store_def obj_new_def empty_store_def)
  then obtain s' where "obj_move_construct 1 0 demo_store = Some s'" by (simp add: obj_move_construct_def)
  with call_after_move [OF ok o, of 1 s' "codec_call (scripted [] HPE_OK 1 0 ''GET'') (Parse ''x'' empty_context)"]
  show ?thesis by simp
qed

section \<open>The route snapshot\<close>

datatype snapshot_method =
    AddRule route_rule
  | Finalize
  | Match string string string
  | RuleCount

datatype snapshot_result = NoResult | Matched route_match | Counted nat

text \<open>The four methods; \<open>srt\<close> and \<open>grow\<close> are the standard library's.\<close>

fun snapshot_call ::
  "((rule_ptr \<Rightarrow> int) \<Rightarrow> rule_ptr list \<Rightarrow> rule_ptr list) \<Rightarrow> (nat \<Rightarrow> nat) \<Rightarrow> snapshot_method \<Rightarrow> nat \<Rightarrow> route_snapshot
     \<Rightarrow> (snapshot_result \<times> route_snapshot) option"
where
  "snapshot_call srt grow (AddRule rule) this x = Some (NoResult, add_rule grow rule x)"
| "snapshot_call srt grow Finalize this x = Some (NoResult, finalize srt x)"
| "snapshot_call srt grow (Match h path client_ip) this x =
     map_option (\<lambda>m. (Matched m, x)) (snapshot_match x h path client_ip)"
| "snapshot_call srt grow RuleCount this x = Some (Counted (rule_count x), x)"

text \<open>The order of use the classes of the program keep to: rules are added before \<^verbatim>\<open>finalize\<close>.\<close>

fun in_order :: "snapshot_method \<Rightarrow> route_snapshot \<Rightarrow> bool" where
  "in_order (AddRule rule) x \<longleftrightarrow> snap_root x = None"
| "in_order _ x \<longleftrightarrow> True"

definition snapshot_ok :: "nat \<Rightarrow> route_snapshot \<Rightarrow> bool" where
  "snapshot_ok this x \<longleftrightarrow> snap_root x = None \<or> (\<exists>srt s. std_sort srt \<and> x = finalize srt s)"

lemma match_before_finalize: "snap_root x = None \<Longrightarrow> snapshot_match x h path ip = Some (match_miss kPathMismatch)"
  by (simp add: snapshot_match_def find_longest_prefix_rules_def)

lemma snapshot_ok_match: "snapshot_ok this x \<Longrightarrow> \<exists>m. snapshot_match x h path ip = Some m"
  unfolding snapshot_ok_def using match_before_finalize finalize_match_spec by blast

lemma snapshot_call_ok:
  assumes "std_sort srt" "snapshot_ok this x" "in_order m x"
  shows "\<exists>r x'. snapshot_call srt grow m this x = Some (r, x') \<and> snapshot_ok this x'"
proof (cases m)
  case (AddRule rule)
  with assms(3) show ?thesis by (simp add: snapshot_ok_def add_rule_def)
next
  case Finalize
  with assms(1) show ?thesis by (auto simp: snapshot_ok_def)
next
  case (Match h path ip)
  with snapshot_ok_match [OF assms(2), of h path ip] assms(2) show ?thesis by auto
qed (use assms(2) in simp)

lemma new_snapshot_ok: "snapshot_ok this new_snapshot"
  by (simp add: snapshot_ok_def new_snapshot_def)

lemma snapshot_class_of: "std_sort srt \<Longrightarrow> pimpl_class (\<lambda>_ _. new_snapshot) (snapshot_call srt grow) in_order snapshot_ok"
  by unfold_locales (rule new_snapshot_ok, rule snapshot_call_ok)

interpretation snapshot_class: pimpl_class "\<lambda>_ _. new_snapshot" "snapshot_call sort_key grow" in_order snapshot_ok
  for grow
  by (rule snapshot_class_of [OF stable_sort.std_sort_axioms])

text \<open>
  C35 (safety): with rules added before \<^verbatim>\<open>finalize\<close> and not after, route snapshots can be
  constructed, moved, matched, finalized again and destroyed in any way the language allows: no
  match reads a dangling rule pointer, since moving a snapshot does not move its rules.
\<close>

theorem snapshot_objects_safe:
  assumes "std_sort srt"
    and "guarded_run (obj_step (\<lambda>_ _. new_snapshot) (snapshot_call srt grow)) (obj_guard in_order) empty_store ops"
  shows "\<exists>s. run_option (obj_step (\<lambda>_ _. new_snapshot) (snapshot_call srt grow)) empty_store ops = Some s
     \<and> store_ok snapshot_ok s"
  using pimpl_class.objects_ok [OF snapshot_class_of [OF assms(1)] assms(2)] .

theorem snapshot_objects_safe_witness:
  "\<exists>s. run_option (obj_step (\<lambda>_ _. new_snapshot) (snapshot_call sort_key (\<lambda>n. 2 * n + 1))) empty_store
      [Construct 0 (), Call 0 (AddRule (demo_rule ''*'' ''/a'' ''c'' 1)), MoveConstruct 1 0, Call 1 Finalize] = Some s
     \<and> store_ok snapshot_ok s"
  by (rule snapshot_objects_safe [OF stable_sort.std_sort_axioms])
     (simp add: empty_store_def obj_new_def obj_move_construct_def obj_call_def new_snapshot_def)

end
