(* ===== verification/Metrics.thy ===== *)
theory Metrics imports Prelude "HOL-Library.Multiset" begin

text \<open>
  \<^verbatim>\<open>src/observability/metrics.cpp\<close>: one shard of 64-bit atomic counters per worker, the
  registry of weak pointers to them, the pointer each thread is bound to, and the
  Prometheus text that sums the shards. A thread that counts through the pointer to a shard
  that has been destroyed is undefined behaviour, the value \<open>None\<close>.
\<close>

section \<open>State\<close>

record worker_metrics_shard =
  accepts_total :: "64 word"
  requests_total :: "64 word"
  responses_2xx_total :: "64 word"
  responses_4xx_total :: "64 word"
  responses_5xx_total :: "64 word"
  bytes_in_total :: "64 word"
  bytes_out_total :: "64 word"

definition new_shard :: worker_metrics_shard where
  "new_shard = \<lparr>accepts_total = 0, requests_total = 0, responses_2xx_total = 0,
     responses_4xx_total = 0, responses_5xx_total = 0, bytes_in_total = 0, bytes_out_total = 0\<rparr>"

text \<open>The fields, to speak of any of them.\<close>

datatype counter =
  Accepts | Requests | Responses2xx | Responses4xx | Responses5xx | BytesIn | BytesOut

fun counter_of :: "worker_metrics_shard \<Rightarrow> counter \<Rightarrow> 64 word" where
  "counter_of s Accepts = accepts_total s"
| "counter_of s Requests = requests_total s"
| "counter_of s Responses2xx = responses_2xx_total s"
| "counter_of s Responses4xx = responses_4xx_total s"
| "counter_of s Responses5xx = responses_5xx_total s"
| "counter_of s BytesIn = bytes_in_total s"
| "counter_of s BytesOut = bytes_out_total s"

fun fetch_add :: "counter \<Rightarrow> 64 word \<Rightarrow> worker_metrics_shard \<Rightarrow> worker_metrics_shard" where
  "fetch_add Accepts n s = s\<lparr>accepts_total := accepts_total s + n\<rparr>"
| "fetch_add Requests n s = s\<lparr>requests_total := requests_total s + n\<rparr>"
| "fetch_add Responses2xx n s = s\<lparr>responses_2xx_total := responses_2xx_total s + n\<rparr>"
| "fetch_add Responses4xx n s = s\<lparr>responses_4xx_total := responses_4xx_total s + n\<rparr>"
| "fetch_add Responses5xx n s = s\<lparr>responses_5xx_total := responses_5xx_total s + n\<rparr>"
| "fetch_add BytesIn n s = s\<lparr>bytes_in_total := bytes_in_total s + n\<rparr>"
| "fetch_add BytesOut n s = s\<lparr>bytes_out_total := bytes_out_total s + n\<rparr>"

lemma counter_of_fetch_add [simp]:
  "counter_of (fetch_add c n s) d = (if d = c then counter_of s d + n else counter_of s d)"
  by (cases c; cases d) simp_all

lemma counter_of_new_shard [simp]: "counter_of new_shard c = 0"
  by (cases c) (simp_all add: new_shard_def)

text \<open>
  The registry: the shards that are alive, the weak pointers in registration order, the
  thread-local pointers.
\<close>

record metrics_registry =
  live_shards :: "nat \<rightharpoonup> worker_metrics_shard"
  weak_shards :: "nat list"
  tls_worker_shard :: "nat \<Rightarrow> nat option"
  next_shard :: nat

definition new_registry :: metrics_registry where
  "new_registry = \<lparr>live_shards = (\<lambda>_. None), weak_shards = [], tls_worker_shard = (\<lambda>_. None), next_shard = 0\<rparr>"

section \<open>Operations\<close>

definition create_worker_shard :: "metrics_registry \<Rightarrow> nat \<times> metrics_registry" where
  "create_worker_shard r =
     (next_shard r,
      r\<lparr>live_shards := (live_shards r)(next_shard r \<mapsto> new_shard),
        weak_shards := weak_shards r @ [next_shard r], next_shard := Suc (next_shard r)\<rparr>)"

definition bind_thread_local_shard :: "nat \<Rightarrow> nat \<Rightarrow> metrics_registry \<Rightarrow> metrics_registry" where
  "bind_thread_local_shard t i r = r\<lparr>tls_worker_shard := (tls_worker_shard r)(t := Some i)\<rparr>"

definition unbind_thread_local_shard :: "nat \<Rightarrow> metrics_registry \<Rightarrow> metrics_registry" where
  "unbind_thread_local_shard t r = r\<lparr>tls_worker_shard := (tls_worker_shard r)(t := None)\<rparr>"

text \<open>The last \<^verbatim>\<open>shared_ptr\<close> to a shard is gone: it is destroyed and its weak pointer expires.\<close>

definition drop_shard :: "nat \<Rightarrow> metrics_registry \<Rightarrow> metrics_registry" where
  "drop_shard i r = r\<lparr>live_shards := (live_shards r)(i := None)\<rparr>"

text \<open>One atomic addition through the thread-local pointer.\<close>

definition thread_add :: "nat \<Rightarrow> counter \<Rightarrow> 64 word \<Rightarrow> metrics_registry \<Rightarrow> metrics_registry option" where
  "thread_add t c n r =
     (case tls_worker_shard r t of
        None \<Rightarrow> Some r
      | Some i \<Rightarrow>
          (case live_shards r i of
             None \<Rightarrow> None
           | Some s \<Rightarrow> Some (r\<lparr>live_shards := (live_shards r)(i \<mapsto> fetch_add c n s)\<rparr>)))"

definition record_accept :: "nat \<Rightarrow> metrics_registry \<Rightarrow> metrics_registry option" where
  "record_accept t r =
     (if tls_worker_shard r t = None then Some r else thread_add t Accepts 1 r)"

definition record_request :: "nat \<Rightarrow> 64 word \<Rightarrow> metrics_registry \<Rightarrow> metrics_registry option" where
  "record_request t bytes_in r =
     (if tls_worker_shard r t = None then Some r
      else Option.bind (thread_add t Requests 1 r) (thread_add t BytesIn bytes_in))"

definition record_response ::
  "nat \<Rightarrow> int \<Rightarrow> 64 word \<Rightarrow> metrics_registry \<Rightarrow> metrics_registry option"
where
  "record_response t status_code bytes_out r =
     (if tls_worker_shard r t = None then Some r
      else
        Option.bind
          (if status_code \<ge> 200 \<and> status_code < 300 then thread_add t Responses2xx 1 r
           else if status_code \<ge> 400 \<and> status_code < 500 then thread_add t Responses4xx 1 r
           else if status_code \<ge> 500 \<and> status_code < 600 then thread_add t Responses5xx 1 r
           else Some r)
          (thread_add t BytesOut bytes_out))"

text \<open>The sums of \<^verbatim>\<open>render_prometheus\<close>: the shards whose weak pointer can be locked.\<close>

definition total :: "metrics_registry \<Rightarrow> counter \<Rightarrow> 64 word" where
  "total r c =
     foldl (\<lambda>sum i. case live_shards r i of None \<Rightarrow> sum | Some s \<Rightarrow> sum + counter_of s c)
       0 (weak_shards r)"

definition newline :: string where
  "newline = [CHR 0x0A]"

definition render_lines :: "metrics_registry \<Rightarrow> string list" where
  "render_lines r =
     [''# HELP netp2_accepts_total Total accepted TCP connections.'',
      ''# TYPE netp2_accepts_total counter'',
      ''netp2_accepts_total '' @ to_dec (unat (total r Accepts)),
      ''# HELP netp2_requests_total Total handled HTTP requests.'',
      ''# TYPE netp2_requests_total counter'',
      ''netp2_requests_total '' @ to_dec (unat (total r Requests)),
      ''# HELP netp2_responses_total Total HTTP responses by status class.'',
      ''# TYPE netp2_responses_total counter'',
      ''netp2_responses_total{code=\"2xx\"} '' @ to_dec (unat (total r Responses2xx)),
      ''netp2_responses_total{code=\"4xx\"} '' @ to_dec (unat (total r Responses4xx)),
      ''netp2_responses_total{code=\"5xx\"} '' @ to_dec (unat (total r Responses5xx)),
      ''# HELP netp2_bytes_in_total Total request bytes read.'',
      ''# TYPE netp2_bytes_in_total counter'',
      ''netp2_bytes_in_total '' @ to_dec (unat (total r BytesIn)),
      ''# HELP netp2_bytes_out_total Total response bytes written.'',
      ''# TYPE netp2_bytes_out_total counter'',
      ''netp2_bytes_out_total '' @ to_dec (unat (total r BytesOut))]"

definition render_prometheus :: "metrics_registry \<Rightarrow> string" where
  "render_prometheus r = concat (map (\<lambda>line. line @ newline) (render_lines r))"

section \<open>The registry's invariant\<close>

definition registry_ok :: "metrics_registry \<Rightarrow> bool" where
  [inv_defs]: "registry_ok r \<longleftrightarrow>
     distinct (weak_shards r) \<and> (\<forall>i\<in>set (weak_shards r). i < next_shard r)
     \<and> dom (live_shards r) \<subseteq> set (weak_shards r)
     \<and> (\<forall>t i. tls_worker_shard r t = Some i \<longrightarrow> live_shards r i \<noteq> None)"

lemma new_registry_ok: "registry_ok new_registry"
  by (simp add: registry_ok_def new_registry_def)

text \<open>
  What the workers do with the registry. A worker binds its thread to a shard it owns, and
  its thread owns a share until it has unbound it: no shard a thread is bound to is dropped.
\<close>

datatype registry_event =
    CreateShard
  | Bind nat nat
  | Unbind nat
  | DropShard nat
  | Add nat counter "64 word"

fun registry_step :: "metrics_registry \<Rightarrow> registry_event \<Rightarrow> metrics_registry option" where
  "registry_step r CreateShard = Some (snd (create_worker_shard r))"
| "registry_step r (Bind t i) = Some (bind_thread_local_shard t i r)"
| "registry_step r (Unbind t) = Some (unbind_thread_local_shard t r)"
| "registry_step r (DropShard i) = Some (drop_shard i r)"
| "registry_step r (Add t c n) = thread_add t c n r"

fun owned_use :: "metrics_registry \<Rightarrow> registry_event \<Rightarrow> bool" where
  "owned_use r (Bind t i) \<longleftrightarrow> live_shards r i \<noteq> None"
| "owned_use r (DropShard i) \<longleftrightarrow> (\<forall>t. tls_worker_shard r t \<noteq> Some i)"
| "owned_use r _ \<longleftrightarrow> True"

text \<open>The ownership the workers observe, along a whole run.\<close>

abbreviation owned_run :: "metrics_registry \<Rightarrow> registry_event list \<Rightarrow> bool" where
  "owned_run \<equiv> guarded_run registry_step owned_use"

abbreviation registry_run :: "metrics_registry \<Rightarrow> registry_event list \<Rightarrow> metrics_registry option" where
  "registry_run \<equiv> run_option registry_step"

lemma bound_live:
  assumes "registry_ok r" "tls_worker_shard r t = Some i"
  obtains s where "live_shards r i = Some s" "i \<in> set (weak_shards r)"
proof -
  from assms have "live_shards r i \<noteq> None" unfolding registry_ok_def by blast
  then obtain s where s: "live_shards r i = Some s" by blast
  then have "i \<in> dom (live_shards r)" by (simp add: dom_def)
  with assms(1) s show thesis by (intro that) (auto simp: registry_ok_def)
qed

lemma registry_ok_step:
  assumes "registry_ok r" "owned_use r e"
  shows "\<exists>r'. registry_step r e = Some r' \<and> registry_ok r'"
proof (cases e)
  case (Add t c n)
  show ?thesis
  proof (cases "tls_worker_shard r t")
    case None
    with Add assms(1) show ?thesis by (simp add: thread_add_def)
  next
    case (Some i)
    with assms(1) obtain s where "live_shards r i = Some s" "i \<in> set (weak_shards r)" by (rule bound_live)
    with Add Some assms(1) show ?thesis by (auto simp: thread_add_def registry_ok_def)
  qed
qed (use assms in \<open>auto simp: registry_ok_def create_worker_shard_def bind_thread_local_shard_def
       unbind_thread_local_shard_def drop_shard_def dom_def split: if_splits\<close>)

interpretation registry: guarded_machine registry_step owned_use registry_ok
  by unfold_locales (rule registry_ok_step)

text \<open>
  As long as no shard is dropped while a thread is bound to it, no sequence of
  creating, binding, counting and dropping reads or writes a destroyed shard.
\<close>

theorem metrics_no_dangling:
  assumes "owned_run new_registry es"
  shows "registry_run new_registry es \<noteq> None"
  using registry.run_defined [OF new_registry_ok assms] by auto

theorem metrics_no_dangling_witness:
  "registry_run new_registry [CreateShard, Bind 7 0, Add 7 Accepts 1, Unbind 7, DropShard 0] \<noteq> None"
  by (rule metrics_no_dangling)
     (simp add: new_registry_def create_worker_shard_def bind_thread_local_shard_def
       unbind_thread_local_shard_def thread_add_def)

section \<open>Totals\<close>

definition shard_value :: "metrics_registry \<Rightarrow> counter \<Rightarrow> nat \<Rightarrow> 64 word" where
  "shard_value r c i = (case live_shards r i of None \<Rightarrow> 0 | Some s \<Rightarrow> counter_of s c)"

lemma total_sum_list: "total r c = sum_list (map (shard_value r c) (weak_shards r))"
proof -
  have "foldl (\<lambda>sum i. case live_shards r i of None \<Rightarrow> sum | Some s \<Rightarrow> sum + counter_of s c) a is
      = a + sum_list (map (shard_value r c) is)" for a "is"
    by (induction "is" arbitrary: a) (auto simp: shard_value_def add.assoc split: option.split)
  then show ?thesis by (simp add: total_def)
qed

lemma sum_list_update1:
  fixes f g :: "nat \<Rightarrow> 64 word"
  assumes "distinct xs" "i \<in> set xs" "\<And>j. j \<noteq> i \<Longrightarrow> g j = f j"
  shows "sum_list (map g xs) = sum_list (map f xs) + (g i - f i)"
  using assms(1,2)
proof (induction xs)
  case (Cons x xs)
  show ?case
  proof (cases "x = i")
    case True
    with Cons.prems have "map g xs = map f xs" by (intro map_cong assms(3)) auto
    then have "sum_list (map g xs) = sum_list (map f xs)" by (rule arg_cong)
    with True show ?thesis by simp
  next
    case False
    with Cons assms(3) [of x] show ?thesis by (simp add: algebra_simps)
  qed
qed simp

text \<open>What an addition by a thread counts for: nothing when the thread is not bound.\<close>

definition counted :: "metrics_registry \<Rightarrow> counter \<Rightarrow> nat \<times> counter \<times> 64 word \<Rightarrow> 64 word" where
  "counted r d e = (case e of (t, c, n) \<Rightarrow> if c = d \<and> tls_worker_shard r t \<noteq> None then n else 0)"

lemma thread_add_total:
  assumes "registry_ok r"
  shows "\<exists>r'. thread_add t c n r = Some r' \<and> registry_ok r' \<and> tls_worker_shard r' = tls_worker_shard r
     \<and> (\<forall>d. total r' d = total r d + counted r d (t, c, n))"
proof (cases "tls_worker_shard r t")
  case None
  with assms show ?thesis by (simp add: thread_add_def counted_def)
next
  case (Some i)
  with assms obtain s where s: "live_shards r i = Some s" "i \<in> set (weak_shards r)" by (rule bound_live)
  let ?r = "r\<lparr>live_shards := (live_shards r)(i \<mapsto> fetch_add c n s)\<rparr>"
  have "thread_add t c n r = Some ?r" using Some s by (simp add: thread_add_def)
  moreover have "registry_ok ?r" using registry_ok_step [OF assms, of "Add t c n"] Some s
    by (simp add: thread_add_def)
  moreover have "total ?r d = total r d + counted r d (t, c, n)" for d
  proof -
    have "distinct (weak_shards r)" "i \<in> set (weak_shards r)"
      using assms s by (simp_all add: registry_ok_def)
    then have "sum_list (map (shard_value ?r d) (weak_shards r)) =
        sum_list (map (shard_value r d) (weak_shards r)) + (shard_value ?r d i - shard_value r d i)"
      by (rule sum_list_update1) (simp add: shard_value_def)
    then show ?thesis using Some s by (simp add: total_sum_list shard_value_def counted_def)
  qed
  ultimately show ?thesis by simp
qed

fun adds :: "(nat \<times> counter \<times> 64 word) list \<Rightarrow> metrics_registry \<Rightarrow> metrics_registry option" where
  "adds [] r = Some r"
| "adds ((t, c, n) # es) r = Option.bind (thread_add t c n r) (adds es)"

lemma adds_total:
  assumes "registry_ok r"
  shows "\<exists>r'. adds es r = Some r' \<and> registry_ok r' \<and> tls_worker_shard r' = tls_worker_shard r
     \<and> (\<forall>d. total r' d = total r d + sum_list (map (counted r d) es))"
  using assms
proof (induction es arbitrary: r)
  case (Cons e es)
  obtain t c n where e: "e = (t, c, n)" by (cases e)
  from thread_add_total [OF Cons.prems, of t c n] obtain r1 where
    r1: "thread_add t c n r = Some r1" "registry_ok r1" "tls_worker_shard r1 = tls_worker_shard r"
      "\<And>d. total r1 d = total r d + counted r d (t, c, n)" by blast
  then have "counted r1 = counted r" by (intro ext) (simp add: counted_def)
  with Cons.IH [OF r1(2)] r1 show ?case by (auto simp: e add.assoc)
qed simp

text \<open>The calls the workers make, and the additions each is.\<close>

datatype metric_call = Accept | Request "64 word" | Response int "64 word"

fun record_call :: "nat \<Rightarrow> metric_call \<Rightarrow> metrics_registry \<Rightarrow> metrics_registry option" where
  "record_call t Accept r = record_accept t r"
| "record_call t (Request n) r = record_request t n r"
| "record_call t (Response status n) r = record_response t status n r"

definition status_counter :: "int \<Rightarrow> counter option" where
  "status_counter status =
     (if 200 \<le> status \<and> status < 300 then Some Responses2xx
      else if 400 \<le> status \<and> status < 500 then Some Responses4xx
      else if 500 \<le> status \<and> status < 600 then Some Responses5xx
      else None)"

fun call_adds :: "metric_call \<Rightarrow> (counter \<times> 64 word) list" where
  "call_adds Accept = [(Accepts, 1)]"
| "call_adds (Request n) = [(Requests, 1), (BytesIn, n)]"
| "call_adds (Response status n) =
     (case status_counter status of None \<Rightarrow> [] | Some c \<Rightarrow> [(c, 1)]) @ [(BytesOut, n)]"

fun contribution :: "counter \<Rightarrow> metric_call \<Rightarrow> 64 word" where
  "contribution d Accept = (if d = Accepts then 1 else 0)"
| "contribution d (Request n) = (if d = Requests then 1 else if d = BytesIn then n else 0)"
| "contribution d (Response status n) =
     (if d = BytesOut then n else if status_counter status = Some d then 1 else 0)"

lemma thread_add_tls: "thread_add t c n r = Some r' \<Longrightarrow> tls_worker_shard r' = tls_worker_shard r"
  by (auto simp: thread_add_def split: option.splits)

lemma adds_single: "adds [(t, c, n)] = thread_add t c n"
  by (rule ext) (simp add: bind_eq_Some_conv split: Option.bind_splits)

text \<open>A call is its additions, one after the other.\<close>

lemma record_call_adds: "record_call t call r = adds (map (Pair t) (call_adds call)) r"
proof (cases "tls_worker_shard r t")
  case None
  then show ?thesis
    by (cases call)
       (auto simp: record_accept_def record_request_def record_response_def thread_add_def
         status_counter_def split: option.split)
next
  case (Some i)
  then show ?thesis
    by (cases call)
       (auto simp: record_accept_def record_request_def record_response_def status_counter_def
         adds_single simp del: adds.simps(1))
qed

lemma sum_call_adds:
  assumes "tls_worker_shard r t \<noteq> None"
  shows "sum_list (map (counted r d \<circ> Pair t) (call_adds call)) = contribution d call"
  using assms by (cases call) (auto simp: counted_def status_counter_def)

lemma sum_list_mset:
  fixes f :: "'a \<Rightarrow> 'b :: comm_monoid_add"
  assumes "mset xs = mset ys"
  shows "sum_list (map f xs) = sum_list (map f ys)"
proof -
  have "sum_mset (mset (map f xs)) = sum_mset (mset (map f ys))"
    by (simp only: mset_map assms)
  then show ?thesis by (simp only: sum_mset_sum_list)
qed

definition interleaves :: "(nat \<times> counter \<times> 64 word) list \<Rightarrow> (nat \<times> metric_call) list \<Rightarrow> bool" where
  "interleaves es calls \<longleftrightarrow>
     mset es = mset (concat (map (\<lambda>(t, call). map (Pair t) (call_adds call)) calls))"

lemma metrics_totals_aux:
  assumes "registry_ok r" "interleaves es calls"
    and "\<forall>(t, call)\<in>set calls. tls_worker_shard r t \<noteq> None"
  shows "\<exists>r'. adds es r = Some r'
     \<and> (\<forall>d. total r' d = total r d + sum_list (map (contribution d \<circ> snd) calls))"
proof -
  have "sum_list (map (counted r d) es) = sum_list (map (contribution d \<circ> snd) calls)" for d
  proof -
    have "sum_list (map (counted r d) es) =
        sum_list (map (counted r d) (concat (map (\<lambda>(t, call). map (Pair t) (call_adds call)) calls)))"
      using assms(2) unfolding interleaves_def by (rule sum_list_mset)
    also have "\<dots> = sum_list (map (contribution d \<circ> snd) calls)"
      using assms(3)
    proof (induction calls)
      case (Cons x calls)
      obtain t call where "x = (t, call)" by (cases x)
      with Cons sum_call_adds [of r t d call] show ?case by simp
    qed simp
    finally show ?thesis .
  qed
  with adds_total [OF assms(1), of es] show ?thesis by auto
qed

text \<open>
  C18 (functional): every recording call is its atomic additions one after the other, and in
  whatever order the atomic additions of the calls of all workers
  interleave, each counter's total grows by exactly what the calls contribute, modulo
  \<open>2 ^ 64\<close>: one per accept, one and its bytes per request, its bytes and one in the class of
  its status per response.
\<close>

theorem metrics_totals:
  assumes "registry_ok r" "interleaves es calls"
    and "\<forall>(t, call)\<in>set calls. tls_worker_shard r t \<noteq> None"
  shows "(\<forall>t call q. record_call t call q = adds (map (Pair t) (call_adds call)) q)
    \<and> (\<exists>r'. adds es r = Some r'
     \<and> (\<forall>d. total r' d = total r d + sum_list (map (contribution d \<circ> snd) calls)))"
  using metrics_totals_aux [OF assms] record_call_adds by blast

text \<open>A registry with one shard, to which thread 7 is bound.\<close>

definition demo_registry :: metrics_registry where
  "demo_registry = bind_thread_local_shard 7 0 (snd (create_worker_shard new_registry))"

lemma demo_registry_simps:
  "registry_ok demo_registry" "tls_worker_shard demo_registry 7 = Some 0"
  "live_shards demo_registry 0 = Some new_shard" "total demo_registry c = 0"
  by (simp_all add: demo_registry_def new_registry_def create_worker_shard_def
      bind_thread_local_shard_def registry_ok_def total_def)

theorem metrics_totals_witness:
  "\<exists>r'. adds [(7, BytesOut, 20), (7, Accepts, 1), (7, Responses4xx, 1)] demo_registry = Some r'
     \<and> total r' Responses4xx = 1 \<and> total r' BytesOut = 20"
proof -
  have "interleaves [(7, BytesOut, 20), (7, Accepts, 1), (7, Responses4xx, 1)] [(7, Accept), (7, Response 404 20)]"
    by (simp add: interleaves_def status_counter_def)
  from metrics_totals [OF demo_registry_simps(1) this, THEN conjunct2] show ?thesis
    by (auto simp: demo_registry_simps status_counter_def)
qed

text \<open>
  When a shard is destroyed, everything it had counted disappears from the
  exported totals: they are not monotone counters.
\<close>

theorem dropped_shard_uncounted:
  assumes "registry_ok r" "live_shards r i = Some s"
  shows "total (drop_shard i r) c = total r c - counter_of s c"
proof -
  have "i \<in> dom (live_shards r)" using assms(2) by (simp add: dom_def)
  then have "distinct (weak_shards r)" "i \<in> set (weak_shards r)"
    using assms(1) by (auto simp: registry_ok_def)
  then have "sum_list (map (shard_value (drop_shard i r) c) (weak_shards r)) =
      sum_list (map (shard_value r c) (weak_shards r)) + (shard_value (drop_shard i r) c i - shard_value r c i)"
    by (rule sum_list_update1) (simp add: shard_value_def drop_shard_def)
  then show ?thesis
    using assms(2) by (simp add: total_sum_list shard_value_def drop_shard_def)
qed

theorem dropped_shard_uncounted_witness:
  "total (drop_shard 0 demo_registry) Accepts = total demo_registry Accepts - counter_of new_shard Accepts"
  by (rule dropped_shard_uncounted [OF demo_registry_simps(1,3)])

section \<open>The exposition text\<close>

fun lines_from :: "string \<Rightarrow> string \<Rightarrow> string list" where
  "lines_from cur [] = (if cur = [] then [] else [rev cur])"
| "lines_from cur (c # cs) =
     (if c = CHR 0x0A then rev cur # lines_from [] cs else lines_from (c # cur) cs)"

text \<open>The value a scraper reads for a sample name: the number on the line that starts with it.\<close>

definition scrape :: "string \<Rightarrow> string \<Rightarrow> nat option" where
  "scrape name text_body =
     map_option (\<lambda>line. dec_val (drop (Suc (length name)) line))
       (find (\<lambda>line. str_starts_with line (name @ '' '')) (lines_from [] text_body))"

fun sample_name :: "counter \<Rightarrow> string" where
  "sample_name Accepts = ''netp2_accepts_total''"
| "sample_name Requests = ''netp2_requests_total''"
| "sample_name Responses2xx = ''netp2_responses_total{code=\"2xx\"}''"
| "sample_name Responses4xx = ''netp2_responses_total{code=\"4xx\"}''"
| "sample_name Responses5xx = ''netp2_responses_total{code=\"5xx\"}''"
| "sample_name BytesIn = ''netp2_bytes_in_total''"
| "sample_name BytesOut = ''netp2_bytes_out_total''"

lemma lines_from_line:
  "CHR 0x0A \<notin> set line \<Longrightarrow> lines_from cur (line @ CHR 0x0A # cs) = (rev cur @ line) # lines_from [] cs"
  by (induction line arbitrary: cur) auto

lemma lines_from_concat:
  "\<forall>line\<in>set ls. CHR 0x0A \<notin> set line \<Longrightarrow> lines_from [] (concat (map (\<lambda>line. line @ newline) ls)) = ls"
  by (induction ls) (simp_all add: newline_def lines_from_line)

lemma to_dec_no_newline: "CHR 0x0A \<notin> set (to_dec n)"
  using to_dec_digits [of "CHR 0x0A" n] by (auto simp: is_digit_def)

lemma render_lines_no_newline: "\<forall>line\<in>set (render_lines r). CHR 0x0A \<notin> set line"
  by (simp add: render_lines_def to_dec_no_newline)

text \<open>
  A scraper that reads the exposition text gets, under every sample name,
  exactly the total of that counter.
\<close>

theorem scrape_render:
  "scrape (sample_name c) (render_prometheus r) = Some (unat (total r c))"
proof -
  have "lines_from [] (render_prometheus r) = render_lines r"
    unfolding render_prometheus_def by (rule lines_from_concat [OF render_lines_no_newline])
  then show ?thesis
    by (cases c) (simp_all add: scrape_def render_lines_def)
qed

end
