(* ===== verification/Spine.thy ===== *)
theory Spine imports Route_Snapshot Http1_Codec Metrics begin

text \<open>
  \<^verbatim>\<open>src/runtime/spine.cpp\<close>: what one worker does with its connections. The construction of
  the spine with its default routes, the accept loop, and the coroutine that handles one
  connection, cut at its suspension points: each event is what a \<^verbatim>\<open>co_await\<close> gives back. Boost.Asio is
  outside the repository, so every result of it is an argument. The current route
  snapshot is the value of the snapshot manager (\<open>None\<close> for a null pointer).
\<close>

section \<open>Responses\<close>

definition crlf :: string where
  "crlf = [CHR 0x0D, CHR 0x0A]"

text \<open>A status code is printed as a decimal integer.\<close>

definition show_int :: "int \<Rightarrow> string" where
  "show_int i = (if i < 0 then ''-'' @ to_dec (nat (- i)) else to_dec (nat i))"

definition text_plain :: string where
  "text_plain = ''text/plain; charset=utf-8''"

definition build_http_response :: "int \<Rightarrow> string \<Rightarrow> string \<Rightarrow> string \<Rightarrow> string" where
  "build_http_response status_code reason body_text content_type =
     ''HTTP/1.1 '' @ show_int status_code @ '' '' @ reason @ crlf
     @ ''Content-Length: '' @ to_dec (length body_text) @ crlf
     @ ''Connection: close'' @ crlf
     @ ''Content-Type: '' @ content_type @ crlf
     @ crlf
     @ body_text"

definition kLegacyPhaseABody :: string where
  "kLegacyPhaseABody = ''netp2 phase-a'' @ newline"

definition kMockUpstreamBody :: string where
  "kMockUpstreamBody = ''mock upstream ok'' @ newline"

definition kNotFoundBody :: string where
  "kNotFoundBody = ''route not found'' @ newline"

definition kMethodNotAllowedBody :: string where
  "kMethodNotAllowedBody = ''method not allowed'' @ newline"

definition kMetricsPath :: string where
  "kMetricsPath = ''/metrics''"

text \<open>The body \<^verbatim>\<open>mock_upstream_call\<close> returns once it is resumed.\<close>

definition mock_upstream_call :: "string \<Rightarrow> string" where
  "mock_upstream_call path =
     (if path = ''/'' \<or> str_starts_with path ''/proxy''
      then (if path = ''/'' then kLegacyPhaseABody else kMockUpstreamBody)
      else kMockUpstreamBody)"

section \<open>The spine\<close>

record spine_config =
  listen_address :: string
  listen_port :: "16 word"
  enable_reuse_port :: bool
  enable_executor_affinity_checks :: bool

definition default_spine_config :: spine_config where
  "default_spine_config = \<lparr>listen_address = ''127.0.0.1'', listen_port = 18080,
     enable_reuse_port = False, enable_executor_affinity_checks = True\<rparr>"

text \<open>What the operating system answers to the calls of the constructor, in their order.\<close>

record listen_env =
  address_valid :: bool
  open_ok :: bool
  reuse_address_ok :: bool
  reuse_port_supported :: bool
  reuse_port_ok :: bool
  bind_ok :: bool
  listen_ok :: bool
  bound_port :: "16 word"

datatype startup_error =
    InvalidAddress | OpenFailed | ReuseAddressFailed | ReusePortFailed | ReusePortUnsupported
  | BindFailed | ListenFailed

record spine =
  spine_cfg :: spine_config
  acceptor_open :: bool
  acceptor_port :: "16 word"
  accept_loops :: nat
  affinity_violations :: "64 word"
  route_config :: "route_snapshot option"

definition rule_proxy :: route_rule where
  "rule_proxy = \<lparr>host_pattern = ''*'', path_prefix = ''/proxy/mock'', allowed_client_cidrs = [],
     target = \<lparr>cluster_name = ''mock-upstream'', path_rewrite = []\<rparr>, priority = 10\<rparr>"

definition rule_root :: route_rule where
  "rule_root = \<lparr>host_pattern = ''*'', path_prefix = ''/'', allowed_client_cidrs = [],
     target = \<lparr>cluster_name = ''root-service'', path_rewrite = []\<rparr>, priority = 100\<rparr>"

definition default_snapshot ::
  "((rule_ptr \<Rightarrow> int) \<Rightarrow> rule_ptr list \<Rightarrow> rule_ptr list) \<Rightarrow> (nat \<Rightarrow> nat) \<Rightarrow> route_snapshot"
where
  "default_snapshot srt grow =
     finalize srt (add_rule grow rule_root (add_rule grow rule_proxy new_snapshot))"

definition new_spine ::
  "((rule_ptr \<Rightarrow> int) \<Rightarrow> rule_ptr list \<Rightarrow> rule_ptr list) \<Rightarrow> (nat \<Rightarrow> nat) \<Rightarrow> listen_env \<Rightarrow> spine_config
     \<Rightarrow> startup_error + spine"
where
  "new_spine srt grow env cfg =
     (if \<not> address_valid env then Inl InvalidAddress
      else if \<not> open_ok env then Inl OpenFailed
      else if \<not> reuse_address_ok env then Inl ReuseAddressFailed
      else if enable_reuse_port cfg \<and> \<not> reuse_port_supported env then Inl ReusePortUnsupported
      else if enable_reuse_port cfg \<and> \<not> reuse_port_ok env then Inl ReusePortFailed
      else if \<not> bind_ok env then Inl BindFailed
      else if \<not> listen_ok env then Inl ListenFailed
      else Inr \<lparr>spine_cfg = cfg, acceptor_open = True, acceptor_port = bound_port env,
                 accept_loops = 0, affinity_violations = 0,
                 route_config = Some (default_snapshot srt grow)\<rparr>)"

definition reload_route_config :: "route_snapshot option \<Rightarrow> spine \<Rightarrow> spine" where
  "reload_route_config snapshot s = s\<lparr>route_config := snapshot\<rparr>"

definition start_spine :: "spine \<Rightarrow> spine" where
  "start_spine s = s\<lparr>accept_loops := Suc (accept_loops s)\<rparr>"

definition stop_spine :: "spine \<Rightarrow> spine" where
  "stop_spine s = s\<lparr>acceptor_open := False\<rparr>"

text \<open>\<^verbatim>\<open>local_endpoint\<close> throws on a closed acceptor.\<close>

definition spine_local_port :: "spine \<Rightarrow> 16 word option" where
  "spine_local_port s = (if acceptor_open s then Some (acceptor_port s) else None)"

definition is_open :: "spine \<Rightarrow> bool" where
  [simp]: "is_open s = acceptor_open s"

definition affinity_violation_count :: "spine \<Rightarrow> 64 word" where
  [simp]: "affinity_violation_count s = affinity_violations s"

text \<open>Both affinity checks compare two addresses; \<open>same\<close> is the answer.\<close>

definition check_executor_affinity :: "bool \<Rightarrow> spine \<Rightarrow> bool \<times> spine" where
  "check_executor_affinity same s =
     (if \<not> same then (False, s\<lparr>affinity_violations := affinity_violations s + 1\<rparr>) else (True, s))"

section \<open>Answering a request\<close>

text \<open>
  The part of \<^verbatim>\<open>handle_connection\<close> between the read and the next suspension point: the
  response, or the call of the upstream for a target. \<open>None\<close> is undefined behaviour: the
  snapshot pointer is null, or the match reads a dangling rule pointer.
\<close>

datatype reply = Reply int string | CallUpstream string

definition dispatch ::
  "'p llhttp \<Rightarrow> route_snapshot option \<Rightarrow> string \<Rightarrow> string \<Rightarrow> reply option"
where
  "dispatch ll snapshot metrics_body request_view =
     (case parse ll request_view empty_context (new_codec ll default_codec_config) of
        (parse_result, ctx, _) \<Rightarrow>
          if parse_result \<noteq> kSuccess then
            (let response_status_code = parse_error_to_http_status parse_result;
                 error_desc = parse_error_to_string parse_result
             in Some (Reply response_status_code
                       (build_http_response response_status_code ''Bad Request'' error_desc text_plain)))
          else if req_method ctx \<noteq> ''GET'' then
            Some (Reply 405 (build_http_response 405 ''Method Not Allowed'' kMethodNotAllowedBody text_plain))
          else if req_target ctx = kMetricsPath then
            Some (Reply 200 (build_http_response 200 ''OK'' metrics_body
                               ''text/plain; version=0.0.4; charset=utf-8''))
          else
            (case snapshot of
               None \<Rightarrow> None
             | Some route_snapshot \<Rightarrow>
                 (case snapshot_match route_snapshot (host ctx) (req_target ctx) ''127.0.0.1'' of
                    None \<Rightarrow> None
                  | Some route_match \<Rightarrow>
                      if matched route_match then Some (CallUpstream (req_target ctx))
                      else Some (Reply 404
                                  (build_http_response 404 ''Not Found'' kNotFoundBody text_plain)))))"

section \<open>The coroutine of a connection\<close>

text \<open>Its suspension points, in the order it passes them; \<open>PcCrashed\<close> is undefined behaviour.\<close>

datatype conn_pc =
    PcStart | PcCoroutine | PcRead | PcUpstream | PcPost | PcRecheck | PcWrite | PcShutdown
  | PcDone | PcCrashed

fun pc_rank :: "conn_pc \<Rightarrow> nat" where
  "pc_rank PcStart = 0" | "pc_rank PcCoroutine = 1" | "pc_rank PcRead = 2" | "pc_rank PcUpstream = 3"
| "pc_rank PcPost = 4" | "pc_rank PcRecheck = 5" | "pc_rank PcWrite = 6" | "pc_rank PcShutdown = 7"
| "pc_rank PcDone = 8" | "pc_rank PcCrashed = 9"

lemma pc_rank_inject: "pc_rank x = pc_rank y \<Longrightarrow> x = y"
  by (cases x; cases y) simp_all

instantiation conn_pc :: linorder
begin

definition less_eq_conn_pc :: "conn_pc \<Rightarrow> conn_pc \<Rightarrow> bool" where
  "less_eq_conn_pc x y \<longleftrightarrow> pc_rank x \<le> pc_rank y"

definition less_conn_pc :: "conn_pc \<Rightarrow> conn_pc \<Rightarrow> bool" where
  "less_conn_pc x y \<longleftrightarrow> pc_rank x < pc_rank y"

instance
  by standard (auto simp: less_eq_conn_pc_def less_conn_pc_def dest: pc_rank_inject)

end

datatype io_error = eof | other_io_error nat

text \<open>
  What resumes the coroutine: the answers of the affinity checks, the bytes and error of
  the read (with the snapshot and the metrics text of that moment), the upstream's yield, the
  post back to the executor, the errors of the write and of the shutdown.
\<close>

datatype conn_event =
    SocketAffinity bool
  | CoroutineAffinity bool
  | ReadDone string "io_error option" "route_snapshot option" string
  | UpstreamYield
  | Posted
  | WriteDone "io_error option"
  | ShutdownDone "io_error option"

text \<open>
  What the coroutine does to the outside, in order: what it reads from and writes to its socket,
  each with the error code it gets, and what it counts.
\<close>

datatype conn_effect =
    AffinityViolation
  | ReadSocket nat "io_error option"
  | RecordRequest nat
  | SendResponse string "io_error option"
  | RecordResponse int nat

text \<open>An end of file is not an error here: what was read before it is the request.\<close>

definition read_ok :: "io_error option \<Rightarrow> bool" where
  "read_ok read_ec \<longleftrightarrow> read_ec = None \<or> read_ec = Some eof"

record connection =
  conn_pc :: conn_pc
  upstream_path :: string
  response_status_code :: int
  response_payload :: string
  conn_log :: "conn_effect list"

definition new_conn :: connection where
  "new_conn = \<lparr>conn_pc = PcStart, upstream_path = [], response_status_code = 200,
     response_payload = [], conn_log = []\<rparr>"

definition goto :: "conn_pc \<Rightarrow> connection \<Rightarrow> connection" where
  "goto pc c = c\<lparr>conn_pc := pc\<rparr>"

definition emit :: "conn_effect list \<Rightarrow> connection \<Rightarrow> connection" where
  "emit es c = c\<lparr>conn_log := conn_log c @ es\<rparr>"

definition respond :: "int \<Rightarrow> string \<Rightarrow> connection \<Rightarrow> connection" where
  "respond status payload c = c\<lparr>response_status_code := status, response_payload := payload\<rparr>"

definition after_read ::
  "'p llhttp \<Rightarrow> string \<Rightarrow> io_error option \<Rightarrow> route_snapshot option \<Rightarrow> string \<Rightarrow> connection \<Rightarrow> connection"
where
  "after_read ll request_view read_ec snapshot metrics_body c =
     (let n = length request_view
      in if read_ec \<noteq> None \<and> read_ec \<noteq> Some eof then goto PcDone (emit [ReadSocket n read_ec] c)
      else
        let c1 = emit [ReadSocket n read_ec, RecordRequest n] c
        in case dispatch ll snapshot metrics_body request_view of
             None \<Rightarrow> goto PcCrashed c1
           | Some (Reply status payload) \<Rightarrow> goto PcPost (respond status payload c1)
           | Some (CallUpstream path) \<Rightarrow> goto PcUpstream (c1\<lparr>upstream_path := path\<rparr>))"

text \<open>\<open>checks\<close> is \<^verbatim>\<open>enable_executor_affinity_checks\<close>. An event that is not awaited does nothing.\<close>

definition conn_step :: "'p llhttp \<Rightarrow> bool \<Rightarrow> connection \<Rightarrow> conn_event \<Rightarrow> connection" where
  "conn_step ll checks c e =
     (case conn_pc c of
        PcStart \<Rightarrow>
          (case e of
             SocketAffinity same \<Rightarrow>
               if \<not> checks then goto PcRead c
               else if \<not> same then goto PcDone (emit [AffinityViolation] c)
               else goto PcCoroutine c
           | _ \<Rightarrow> c)
      | PcCoroutine \<Rightarrow>
          (case e of
             CoroutineAffinity same \<Rightarrow>
               if \<not> same then goto PcDone (emit [AffinityViolation] c) else goto PcRead c
           | _ \<Rightarrow> c)
      | PcRead \<Rightarrow>
          (case e of
             ReadDone request_view read_ec snapshot metrics_body \<Rightarrow>
               after_read ll request_view read_ec snapshot metrics_body c
           | _ \<Rightarrow> c)
      | PcUpstream \<Rightarrow>
          (case e of
             UpstreamYield \<Rightarrow>
               goto PcPost (respond 200
                 (build_http_response 200 ''OK'' (mock_upstream_call (upstream_path c)) text_plain) c)
           | _ \<Rightarrow> c)
      | PcPost \<Rightarrow>
          (case e of Posted \<Rightarrow> goto (if checks then PcRecheck else PcWrite) c | _ \<Rightarrow> c)
      | PcRecheck \<Rightarrow>
          (case e of
             CoroutineAffinity same \<Rightarrow>
               if \<not> same then goto PcDone (emit [AffinityViolation] c) else goto PcWrite c
           | _ \<Rightarrow> c)
      | PcWrite \<Rightarrow>
          (case e of
             WriteDone write_ec \<Rightarrow>
               goto PcShutdown
                 (emit (SendResponse (response_payload c) write_ec #
                        (if write_ec = None
                         then [RecordResponse (response_status_code c) (length (response_payload c))]
                         else [])) c)
           | _ \<Rightarrow> c)
      | PcShutdown \<Rightarrow> (case e of ShutdownDone _ \<Rightarrow> goto PcDone c | _ \<Rightarrow> c)
      | PcDone \<Rightarrow> c
      | PcCrashed \<Rightarrow> c)"

section \<open>The accept loop\<close>

text \<open>What \<^verbatim>\<open>async_accept\<close> gives: an error and whether the acceptor is open, or a socket.\<close>

datatype accept_error = accept_aborted | other_accept_error nat

datatype accept_event = AcceptFailed accept_error bool | Accepted bool

text \<open>\<open>RejectSocket\<close>: the violation is counted and the socket closed.\<close>

datatype accept_effect = RecordAccept | SpawnConnection | RejectSocket

fun accept_loop :: "bool \<Rightarrow> accept_event list \<Rightarrow> accept_effect list \<times> bool" where
  "accept_loop checks [] = ([], False)"
| "accept_loop checks (AcceptFailed ec opened # es) =
     (if ec = accept_aborted \<or> \<not> opened then ([], True) else accept_loop checks es)"
| "accept_loop checks (Accepted same # es) =
     (case accept_loop checks es of
        (effects, returned) \<Rightarrow>
          if checks \<and> \<not> same then (RejectSocket # effects, returned)
          else (RecordAccept # SpawnConnection # effects, returned))"

section \<open>How a client reads a response\<close>

definition read_line :: "string \<Rightarrow> string \<times> string" where
  "read_line s = (takeWhile (\<lambda>c. c \<noteq> CHR 0x0D) s, drop 2 (dropWhile (\<lambda>c. c \<noteq> CHR 0x0D) s))"

lemma read_line_shorter:
  "read_line s = (line, rest) \<Longrightarrow> line \<noteq> [] \<Longrightarrow> length rest < length s"
proof -
  assume r: "read_line s = (line, rest)" "line \<noteq> []"
  have "length s = length line + length (dropWhile (\<lambda>c. c \<noteq> CHR 0x0D) s)"
    using r(1) by (metis fst_conv length_append read_line_def takeWhile_dropWhile_id)
  moreover have "length rest \<le> length (dropWhile (\<lambda>c. c \<noteq> CHR 0x0D) s)"
    using r(1) by (auto simp: read_line_def)
  ultimately show ?thesis using r(2) by (cases line) auto
qed

text \<open>The lines up to the first empty one, and what is left: the body.\<close>

function read_head :: "string \<Rightarrow> string list \<times> string" where
  "read_head s =
     (let (line, rest) = read_line s
      in if line = [] then ([], rest)
         else let (ls, body_text) = read_head rest in (line # ls, body_text))"
  by pat_completeness auto

termination
  by (relation "measure length") (auto intro: read_line_shorter [OF sym])

declare read_head.simps [simp del]

lemma read_line_crlf:
  "CHR 0x0D \<notin> set line \<Longrightarrow> read_line (line @ crlf @ rest) = (line, rest)"
proof -
  assume "CHR 0x0D \<notin> set line"
  then have "\<forall>c\<in>set line. c \<noteq> CHR 0x0D" by blast
  then have "takeWhile (\<lambda>c. c \<noteq> CHR 0x0D) (line @ CHR 0x0D # cs) = line"
    "dropWhile (\<lambda>c. c \<noteq> CHR 0x0D) (line @ CHR 0x0D # cs) = CHR 0x0D # cs" for cs
    by (induction line) auto
  then show ?thesis by (simp add: read_line_def crlf_def)
qed

lemma read_head_line:
  "CHR 0x0D \<notin> set line \<Longrightarrow> line \<noteq> [] \<Longrightarrow>
   read_head (line @ crlf @ rest) = (line # fst (read_head rest), snd (read_head rest))"
  by (subst read_head.simps) (simp add: read_line_crlf case_prod_unfold Let_def)

lemma read_head_end: "read_head (crlf @ rest) = ([], rest)"
  by (subst read_head.simps) (simp add: read_line_crlf [of "[]", simplified])

lemma to_dec_no_cr: "CHR 0x0D \<notin> set (to_dec n)"
  using to_dec_digits [of "CHR 0x0D" n] by (auto simp: is_digit_def)

lemma show_int_no_cr: "CHR 0x0D \<notin> set (show_int i)"
  by (simp add: show_int_def to_dec_no_cr)

lemma build_http_response_lines:
  assumes "CHR 0x0D \<notin> set reason" "CHR 0x0D \<notin> set content_type"
  shows "read_head (build_http_response status reason body_text content_type) =
     ([''HTTP/1.1 '' @ show_int status @ '' '' @ reason,
       ''Content-Length: '' @ to_dec (length body_text),
       ''Connection: close'',
       ''Content-Type: '' @ content_type], body_text)"
proof -
  let ?s = "''HTTP/1.1 '' @ show_int status @ '' '' @ reason"
  let ?l = "''Content-Length: '' @ to_dec (length body_text)"
  let ?c = "''Connection: close''" and ?t = "''Content-Type: '' @ content_type"
  have "build_http_response status reason body_text content_type =
      ?s @ crlf @ (?l @ crlf @ (?c @ crlf @ (?t @ crlf @ (crlf @ body_text))))"
    by (simp add: build_http_response_def)
  moreover have "CHR 0x0D \<notin> set ?s" "CHR 0x0D \<notin> set ?l" "CHR 0x0D \<notin> set ?c" "CHR 0x0D \<notin> set ?t"
    using assms by (simp_all add: show_int_no_cr to_dec_no_cr)
  moreover have "?s \<noteq> []" "?l \<noteq> []" "?c \<noteq> []" "?t \<noteq> []" by simp_all
  ultimately show ?thesis
    by (simp only: read_head_line read_head_end fst_conv snd_conv not_False_eq_True)
qed

text \<open>
  C30 (roundtrip): a client that reads a response line by line finds the status line, a
  content length that is the length of what follows the empty line, and there the body,
  byte for byte, whatever bytes it holds.
\<close>

theorem response_framing:
  assumes "CHR 0x0D \<notin> set reason" "CHR 0x0D \<notin> set content_type"
  shows "case read_head (build_http_response status reason body_text content_type) of (ls, rest) \<Rightarrow>
     rest = body_text \<and> length ls = 4 \<and> ls ! 0 = ''HTTP/1.1 '' @ show_int status @ '' '' @ reason
     \<and> str_starts_with (ls ! 1) ''Content-Length: '' \<and> dec_val (drop 16 (ls ! 1)) = length rest"
  using assms by (simp add: build_http_response_lines)

theorem response_framing_witness:
  "case read_head (build_http_response 404 ''Not Found'' (kNotFoundBody @ crlf @ crlf) text_plain) of (ls, rest) \<Rightarrow>
     rest = kNotFoundBody @ crlf @ crlf"
  using response_framing [where reason = "''Not Found''" and content_type = text_plain and status = 404
      and body_text = "kNotFoundBody @ crlf @ crlf"]
  by (simp add: text_plain_def split: prod.splits)

section \<open>What a request is answered with\<close>

lemma parse_error_status:
  assumes "llhttp_script ll (llhttp_init ll) request_view evs err"
    and "parse ll request_view empty_context (new_codec ll default_codec_config) = (r, ctx, c)"
  shows "parse_error_to_http_status r \<in> {200, 400, 500}"
proof -
  have "llhttp_script ll (parser (new_codec ll default_codec_config)) request_view evs err"
    using assms(1) by (simp add: new_codec_def)
  from parse_codes [OF this, of empty_context] assms(2)
  have "r \<notin> {kHeaderTooLarge, kTooManyHeaders, kNeedMoreData}" by simp
  then show ?thesis by (cases r) simp_all
qed

text \<open>A payload the coroutine can send: a response built from fixed texts, of a known status.\<close>

definition good_response :: "int \<Rightarrow> string \<Rightarrow> bool" where
  "good_response status payload \<longleftrightarrow>
     status \<in> {200, 400, 404, 405, 500}
     \<and> (\<exists>reason body_text content_type.
          reason \<in> {''OK'', ''Bad Request'', ''Not Found'', ''Method Not Allowed''}
          \<and> content_type \<in> {text_plain, ''text/plain; version=0.0.4; charset=utf-8''}
          \<and> payload = build_http_response status reason body_text content_type)"

lemma good_responseI:
  "status \<in> {200, 400, 404, 405, 500} \<Longrightarrow>
   reason \<in> {''OK'', ''Bad Request'', ''Not Found'', ''Method Not Allowed''} \<Longrightarrow>
   content_type \<in> {text_plain, ''text/plain; version=0.0.4; charset=utf-8''} \<Longrightarrow>
   good_response status (build_http_response status reason body_text content_type)"
  unfolding good_response_def by blast

lemma dispatch_reply_good:
  assumes "llhttp_script ll (llhttp_init ll) request_view evs err"
    and "dispatch ll snapshot metrics_body request_view = Some (Reply status payload)"
  shows "good_response status payload"
proof -
  obtain r ctx c where p: "parse ll request_view empty_context (new_codec ll default_codec_config) = (r, ctx, c)"
    by (metis prod_cases3)
  from parse_error_status [OF assms(1) p] assms(2) p show ?thesis
    by (auto simp: dispatch_def Let_def intro!: good_responseI split: if_splits option.splits)
qed

text \<open>
  Every answer carries one of the statuses 200, 400, 404, 405 and 500.
\<close>

theorem dispatch_status:
  assumes "llhttp_script ll (llhttp_init ll) request_view evs err"
    and "dispatch ll snapshot metrics_body request_view = Some (Reply status payload)"
  shows "good_response status payload"
  using assms by (rule dispatch_reply_good)

definition demo_ll :: "string \<Rightarrow> nat \<Rightarrow> unit llhttp" where
  "demo_ll meth n = scripted (message_events [\<lparr>sv_off = 0, sv_len = n\<rparr>] [] []) HPE_OK 1 0 meth"

lemma demo_script:
  "llhttp_script (demo_ll meth n) (llhttp_init (demo_ll meth n)) buffer
     (message_events [\<lparr>sv_off = 0, sv_len = n\<rparr>] [] []) HPE_OK"
  unfolding demo_ll_def by (rule scripted_script)

text \<open>A request without headers, over HTTP/1.0: the parse succeeds and gives its target.\<close>

lemma demo_parse:
  "\<exists>ctx c. parse (demo_ll meth n) buffer empty_context (new_codec (demo_ll meth n) default_codec_config)
        = (kSuccess, ctx, c) \<and> req_method ctx = meth \<and> req_target ctx = str_sub buffer 0 n \<and> host ctx = []"
proof -
  let ?c = "new_codec (demo_ll meth n) default_codec_config"
  have script: "llhttp_script (demo_ll meth n) (parser ?c) buffer
      (message_events [\<lparr>sv_off = 0, sv_len = n\<rparr>] [] []) HPE_OK"
    using demo_script by (simp add: new_codec_def)
  have "run_callbacks (callback buffer) (begin_parse empty_context (cstate ?c))
      (message_events [\<lparr>sv_off = 0, sv_len = n\<rparr>] [] []) =
      ((begin_parse empty_context (cstate ?c))\<lparr>ctx_ref :=
         (clear_context empty_context)\<lparr>req_target := str_sub buffer 0 n\<rparr>\<rparr>, False)"
    by (simp add: message_events_def on_url_def on_headers_complete_def view_text_def clear_context_def Let_def)
  from parse_accepted [OF script this] show ?thesis
    by (auto simp: finish_parse_def Let_def demo_ll_def scripted_def clear_context_def)
qed

theorem dispatch_status_witness:
  "\<exists>payload. dispatch (demo_ll ''POST'' 2) None [] ''/x'' = Some (Reply 405 payload) \<and> good_response 405 payload"
proof -
  obtain payload where d: "dispatch (demo_ll ''POST'' 2) None [] ''/x'' = Some (Reply 405 payload)"
    using demo_parse [of "''POST''" 2 "''/x''"] by (auto simp: dispatch_def)
  from dispatch_status [OF demo_script d] d show ?thesis by blast
qed

section \<open>The default routes\<close>

lemma vec_elems_default:
  "vec_elems (snap_rules (add_rule grow rule_root (add_rule grow rule_proxy new_snapshot)))
     = [rule_proxy, rule_root]"
  by (simp add: add_rule_def new_snapshot_def)

lemma default_keys: "rule_key rule_proxy = [''proxy'', ''mock'']" "rule_key rule_root = []"
  by (simp_all add: rule_key_def rule_proxy_def rule_root_def split_path_words)

lemma default_eligible: "eligible h ip rule_proxy" "eligible h ip rule_root"
  by (simp_all add: eligible_def rule_proxy_def rule_root_def host_matches_def ip_allowed_def)

definition default_served :: "string \<Rightarrow> bool" where
  "default_served path \<longleftrightarrow> split_path path = [] \<or> prefix [''proxy'', ''mock''] (split_path path)"

lemma default_candidates:
  "list_ex (eligible h ip) (candidate_rules [rule_proxy, rule_root] path) \<longleftrightarrow> default_served path"
proof -
  have "rule_proxy \<in> set (candidate_rules [rule_proxy, rule_root] path) \<longleftrightarrow>
      prefix [''proxy'', ''mock''] (split_path path)"
    by (auto simp: candidate_rules_iff default_keys)
  moreover have "rule_root \<in> set (candidate_rules [rule_proxy, rule_root] path) \<longleftrightarrow> split_path path = []"
    by (auto simp: candidate_rules_iff default_keys)
  moreover have "set (candidate_rules [rule_proxy, rule_root] path) \<subseteq> {rule_proxy, rule_root}"
    by (auto simp: candidate_rules_iff)
  ultimately show ?thesis
    using default_eligible unfolding list_ex_iff default_served_def by blast
qed

lemma default_match:
  assumes "std_sort srt"
  shows "\<exists>m. snapshot_match (default_snapshot srt grow) h path ip = Some m
     \<and> (matched m \<longleftrightarrow> default_served path)"
proof -
  let ?s = "add_rule grow rule_root (add_rule grow rule_proxy new_snapshot)"
  from finalize_match_spec [OF assms, of ?s h path ip] obtain m where
    m: "snapshot_match (finalize srt ?s) h path ip = Some m"
       "route_spec [rule_proxy, rule_root] h path ip m"
    by (auto simp: vec_elems_default)
  with route_spec_matched [OF m(2)] default_candidates show ?thesis
    by (simp add: default_snapshot_def)
qed

lemma default_routing_aux:
  assumes "std_sort srt"
    and "parse ll request_view empty_context (new_codec ll default_codec_config) = (kSuccess, ctx, c)"
    and "req_method ctx = ''GET''" "req_target ctx \<noteq> kMetricsPath"
  shows "dispatch ll (Some (default_snapshot srt grow)) metrics_body request_view =
     Some (if default_served (req_target ctx) then CallUpstream (req_target ctx)
           else Reply 404 (build_http_response 404 ''Not Found'' kNotFoundBody text_plain))"
proof -
  from default_match [OF assms(1), of grow "host ctx" "req_target ctx" "''127.0.0.1''"] obtain m where
    "snapshot_match (default_snapshot srt grow) (host ctx) (req_target ctx) ''127.0.0.1'' = Some m"
    "matched m \<longleftrightarrow> default_served (req_target ctx)" by blast
  with assms(2-4) show ?thesis by (simp add: dispatch_def)
qed

text \<open>
  C31 (functional): with the default routes, whatever the host, a parsed \<^verbatim>\<open>GET\<close> for a canonical
  target without a query, other than \<^verbatim>\<open>/metrics\<close>, goes to the upstream exactly when the target
  is \<^verbatim>\<open>/\<close> or begins with the segments \<^verbatim>\<open>proxy\<close> and \<^verbatim>\<open>mock\<close>, and is answered 404 otherwise; it
  is never undefined.
\<close>

theorem default_routing:
  assumes "std_sort srt"
    and "parse ll request_view empty_context (new_codec ll default_codec_config) = (kSuccess, ctx, c)"
    and "req_method ctx = ''GET''" "req_target ctx = path" "path \<noteq> kMetricsPath"
    and "canonical_path path" "CHR ''?'' \<notin> set path"
  shows "dispatch ll (Some (default_snapshot srt grow)) metrics_body request_view =
     Some (if path = ''/'' \<or> prefix [''proxy'', ''mock''] (split_path path) then CallUpstream path
           else Reply 404 (build_http_response 404 ''Not Found'' kNotFoundBody text_plain))"
  using default_routing_aux [OF assms(1-3)] assms(4-6)
  by (auto simp: default_served_def canonical_path_def)

theorem default_routing_witness:
  "dispatch (demo_ll ''GET'' 2) (Some (default_snapshot sort_key (\<lambda>n. 2 * n + 1))) [] ''/x'' =
     Some (Reply 404 (build_http_response 404 ''Not Found'' kNotFoundBody text_plain))"
proof -
  obtain ctx c where p: "parse (demo_ll ''GET'' 2) ''/x'' empty_context
      (new_codec (demo_ll ''GET'' 2) default_codec_config) = (kSuccess, ctx, c)"
    "req_method ctx = ''GET''" "req_target ctx = ''/x''"
    using demo_parse [of "''GET''" 2 "''/x''"] by (auto simp: str_sub_def)
  from default_routing [OF stable_sort.std_sort_axioms p] show ?thesis
    by (simp add: kMetricsPath_def canonical_path_def split_path_words)
qed

text \<open>
  The target is matched with its query string, so that the mock route is
  not found as soon as a query follows its path.
\<close>

theorem query_string_not_routed:
  assumes "std_sort srt"
    and "parse ll request_view empty_context (new_codec ll default_codec_config) = (kSuccess, ctx, c)"
    and "req_method ctx = ''GET''" "req_target ctx = ''/proxy/mock?'' @ query"
  shows "dispatch ll (Some (default_snapshot srt grow)) metrics_body request_view =
     Some (Reply 404 (build_http_response 404 ''Not Found'' kNotFoundBody text_plain))"
proof -
  have "\<not> default_served (req_target ctx)"
    by (simp add: default_served_def split_path_words assms(4))
  moreover have "req_target ctx \<noteq> kMetricsPath" by (simp add: assms(4) kMetricsPath_def)
  ultimately show ?thesis using default_routing_aux [OF assms(1-3)] by simp
qed

theorem query_string_not_routed_witness:
  "dispatch (demo_ll ''GET'' 15) (Some (default_snapshot sort_key (\<lambda>n. 2 * n + 1))) [] ''/proxy/mock?x=1'' =
     Some (Reply 404 (build_http_response 404 ''Not Found'' kNotFoundBody text_plain))"
proof -
  obtain ctx c where p: "parse (demo_ll ''GET'' 15) ''/proxy/mock?x=1'' empty_context
      (new_codec (demo_ll ''GET'' 15) default_codec_config) = (kSuccess, ctx, c)"
    "req_method ctx = ''GET''" "req_target ctx = ''/proxy/mock?'' @ ''x=1''"
    using demo_parse [of "''GET''" 15 "''/proxy/mock?x=1''"] by (auto simp: str_sub_def)
  from query_string_not_routed [OF stable_sort.std_sort_axioms p] show ?thesis .
qed

text \<open>
  A request whose headers exceed the codec's limit of 8192 bytes is answered
  with status 500 under the reason \<^verbatim>\<open>Bad Request\<close>.
\<close>

theorem oversized_request_answer:
  assumes "llhttp_script ll (llhttp_init ll) request_view evs err"
    and "8192 < sum_list (map (header_bytes request_view) evs)"
  shows "dispatch ll snapshot metrics_body request_view =
     Some (Reply 500 (build_http_response 500 ''Bad Request'' ''internal error'' text_plain))"
proof -
  let ?c = "new_codec ll default_codec_config"
  obtain r ctx c where p: "parse ll request_view empty_context ?c = (r, ctx, c)" by (metis prod_cases3)
  have "llhttp_script ll (parser ?c) request_view evs err"
    "max_header_size (codec_cfg (cstate ?c)) < sum_list (map (header_bytes request_view) evs)"
    using assms by (simp_all add: new_codec_def default_codec_config_def)
  from oversized_refused [OF this, of empty_context] p have "r = kInternalError" by simp
  with p show ?thesis by (simp add: dispatch_def)
qed

theorem oversized_request_answer_witness:
  "dispatch (scripted [OnHeaderField \<lparr>sv_off = 0, sv_len = 8193\<rparr>] HPE_OK 1 1 ''GET'') None []
     (replicate 8193 (CHR ''a'')) =
     Some (Reply 500 (build_http_response 500 ''Bad Request'' ''internal error'' text_plain))"
  by (rule oversized_request_answer [OF scripted_script]) (simp add: view_text_def str_sub_def)

section \<open>One connection\<close>

lemma conn_simps [simp]:
  "conn_pc (goto pc c) = pc" "conn_log (goto pc c) = conn_log c"
  "conn_log (emit es c) = conn_log c @ es" "conn_pc (emit es c) = conn_pc c"
  "conn_log (respond st p c) = conn_log c" "conn_pc (respond st p c) = conn_pc c"
  "response_payload (goto pc c) = response_payload c" "response_payload (emit es c) = response_payload c"
  "response_status_code (goto pc c) = response_status_code c"
  "response_status_code (emit es c) = response_status_code c"
  "response_payload (respond st p c) = p" "response_status_code (respond st p c) = st"
  by (simp_all add: goto_def emit_def respond_def)

text \<open>
  The logs of a connection that was answered, and of one that was not: what it counted is what it
  read and what it managed to write.
\<close>

inductive answered :: "conn_effect list \<Rightarrow> bool" where
  written: "read_ok read_ec \<Longrightarrow> good_response status payload \<Longrightarrow>
     answered [ReadSocket n read_ec, RecordRequest n, SendResponse payload None,
               RecordResponse status (length payload)]"
| write_failed: "read_ok read_ec \<Longrightarrow> good_response status payload \<Longrightarrow>
     answered [ReadSocket n read_ec, RecordRequest n, SendResponse payload (Some e)]"

inductive unanswered :: "conn_effect list \<Rightarrow> bool" where
  read_failed: "e \<noteq> eof \<Longrightarrow> unanswered [ReadSocket n (Some e)]"
| refused_before: "unanswered [AffinityViolation]"
| refused_after: "read_ok read_ec \<Longrightarrow> unanswered [ReadSocket n read_ec, RecordRequest n, AffinityViolation]"

definition request_read :: "conn_effect list \<Rightarrow> bool" where
  "request_read es \<longleftrightarrow> (\<exists>n read_ec. read_ok read_ec \<and> es = [ReadSocket n read_ec, RecordRequest n])"

definition conn_inv :: "connection \<Rightarrow> bool" where
  [inv_defs]: "conn_inv c \<longleftrightarrow>
     (case conn_pc c of
        PcStart \<Rightarrow> conn_log c = []
      | PcCoroutine \<Rightarrow> conn_log c = []
      | PcRead \<Rightarrow> conn_log c = []
      | PcUpstream \<Rightarrow> request_read (conn_log c)
      | PcPost \<Rightarrow> request_read (conn_log c) \<and> good_response (response_status_code c) (response_payload c)
      | PcRecheck \<Rightarrow> request_read (conn_log c) \<and> good_response (response_status_code c) (response_payload c)
      | PcWrite \<Rightarrow> request_read (conn_log c) \<and> good_response (response_status_code c) (response_payload c)
      | PcShutdown \<Rightarrow> answered (conn_log c)
      | PcDone \<Rightarrow> answered (conn_log c) \<or> unanswered (conn_log c)
      | PcCrashed \<Rightarrow> request_read (conn_log c))"

text \<open>llhttp is as documented: on every buffer it has a script of callbacks.\<close>

definition documented_llhttp :: "'p llhttp \<Rightarrow> bool" where
  "documented_llhttp ll \<longleftrightarrow> (\<forall>buffer. \<exists>evs err. llhttp_script ll (llhttp_init ll) buffer evs err)"

lemma after_read_inv:
  assumes "documented_llhttp ll" "conn_log c = []"
  shows "conn_inv (after_read ll request_view read_ec snapshot metrics_body c)"
proof -
  from assms(1) obtain evs err where "llhttp_script ll (llhttp_init ll) request_view evs err"
    unfolding documented_llhttp_def by blast
  from dispatch_reply_good [OF this] assms(2) show ?thesis
    by (auto simp: after_read_def Let_def conn_inv_def goto_def request_read_def read_ok_def
        intro: unanswered.intros split: option.split reply.split)
qed

lemma conn_inv_step:
  assumes "documented_llhttp ll" "conn_inv c"
  shows "conn_inv (conn_step ll checks c e)"
proof (cases "conn_pc c = PcRead")
  case True
  with assms after_read_inv [OF assms(1)] show ?thesis
    by (cases e) (simp_all add: conn_step_def conn_inv_def)
next
  case False
  with assms(2) show ?thesis
    by (cases "conn_pc c"; cases e)
       (auto simp: conn_step_def conn_inv_def request_read_def intro: good_responseI answered.intros unanswered.intros)
qed

interpretation connection: machine "conn_step ll checks" "\<lambda>c. documented_llhttp ll \<and> conn_inv c" for ll checks
  by unfold_locales (auto intro: conn_inv_step)

lemma new_conn_inv: "conn_inv new_conn"
  by (simp add: conn_inv_def new_conn_def)

text \<open>An effect that an event of the run has brought about.\<close>

fun brought_about :: "conn_event list \<Rightarrow> conn_effect \<Rightarrow> bool" where
  "brought_about es AffinityViolation \<longleftrightarrow> SocketAffinity False \<in> set es \<or> CoroutineAffinity False \<in> set es"
| "brought_about es (ReadSocket n read_ec) \<longleftrightarrow>
     (\<exists>request_view snapshot page. ReadDone request_view read_ec snapshot page \<in> set es \<and> length request_view = n)"
| "brought_about es (SendResponse payload write_ec) \<longleftrightarrow> WriteDone write_ec \<in> set es"
| "brought_about es (RecordRequest n) \<longleftrightarrow> True"
| "brought_about es (RecordResponse status n) \<longleftrightarrow> True"

lemma brought_about_mono: "brought_about es eff \<Longrightarrow> set es \<subseteq> set fs \<Longrightarrow> brought_about fs eff"
  by (cases eff) auto

lemma step_brought_about:
  "eff \<in> set (conn_log (conn_step ll checks c e)) \<Longrightarrow> eff \<in> set (conn_log c) \<or> brought_about [e] eff"
  by (cases "conn_pc c"; cases e)
     (auto simp: conn_step_def after_read_def Let_def split: if_splits option.splits reply.splits)

lemma run_brought_about:
  assumes "eff \<in> set (conn_log (foldl (conn_step ll checks) c es))"
  shows "eff \<in> set (conn_log c) \<or> brought_about es eff"
  using assms
proof (induction es rule: rev_induct)
  case (snoc e es)
  then consider "eff \<in> set (conn_log (foldl (conn_step ll checks) c es))" | "brought_about [e] eff"
    using step_brought_about by fastforce
  then show ?case
    using snoc.IH brought_about_mono [of es eff "es @ [e]"] brought_about_mono [of "[e]" eff "es @ [e]"] by cases auto
qed simp

text \<open>
  C9 (safety): in every run, a connection that has finished read its request and was answered
  with exactly one well-formed response, which was recorded once, with its status and its exact
  size, if and only if the write succeeded; or it was not answered at all, because its read
  failed or an affinity check did. Its request is recorded exactly when it was read, before
  the response. The results of the read and of the write are those the run has delivered.
\<close>

theorem connection_answered_once:
  assumes "documented_llhttp ll" "c = foldl (conn_step ll checks) new_conn es" "conn_pc c = PcDone"
  shows "(answered (conn_log c) \<or> unanswered (conn_log c)) \<and> (\<forall>eff\<in>set (conn_log c). brought_about es eff)"
proof
  show "answered (conn_log c) \<or> unanswered (conn_log c)"
    using connection.inv_run [of ll new_conn checks es] assms new_conn_inv by (auto simp: conn_inv_def)
  show "\<forall>eff\<in>set (conn_log c). brought_about es eff"
    using run_brought_about [of _ ll checks new_conn es] assms(2) by (auto simp: new_conn_def)
qed

lemma demo_documented: "documented_llhttp (demo_ll meth n)"
  unfolding documented_llhttp_def using demo_script by blast

theorem connection_answered_once_witness:
  "\<exists>payload. answered [ReadSocket 2 None, RecordRequest 2, SendResponse payload None, RecordResponse 405 (length payload)]
     \<and> brought_about [SocketAffinity True, ReadDone ''/x'' None None [], Posted, WriteDone None, ShutdownDone None]
         (SendResponse payload None)"
proof -
  let ?es = "[SocketAffinity True, ReadDone ''/x'' None None [], Posted, WriteDone None, ShutdownDone None]"
  let ?c = "foldl (conn_step (demo_ll ''POST'' 2) False) new_conn ?es"
  obtain payload where d: "dispatch (demo_ll ''POST'' 2) None [] ''/x'' = Some (Reply 405 payload)"
    using demo_parse [of "''POST''" 2 "''/x''"] by (auto simp: dispatch_def)
  have c: "conn_pc ?c = PcDone" "conn_log ?c =
      [ReadSocket 2 None, RecordRequest 2, SendResponse payload None, RecordResponse 405 (length payload)]"
    using d by (simp_all add: conn_step_def new_conn_def after_read_def goto_def emit_def respond_def)
  from connection_answered_once [OF demo_documented refl c(1)] c(2) show ?thesis
    by (auto elim: unanswered.cases)
qed

section \<open>Routing never crashes on a finalized snapshot\<close>

text \<open>What the coroutine needs of a snapshot: its lookup is always defined.\<close>

locale routing_table =
  fixes snap :: route_snapshot
  assumes match_defined: "\<exists>m. snapshot_match snap h path ip = Some m"
begin

lemma dispatch_defined: "dispatch ll (Some snap) metrics_body request_view \<noteq> None"
proof -
  obtain r ctx c where "parse ll request_view empty_context (new_codec ll default_codec_config) = (r, ctx, c)"
    by (metis prod_cases3)
  with match_defined [of "host ctx" "req_target ctx" "''127.0.0.1''"] show ?thesis
    by (auto simp: dispatch_def Let_def)
qed

lemma after_read_defined: "conn_pc (after_read ll request_view read_ec (Some snap) metrics_body c) \<noteq> PcCrashed"
proof -
  obtain reply where "dispatch ll (Some snap) metrics_body request_view = Some reply"
    using dispatch_defined by blast
  then show ?thesis by (cases reply) (simp_all add: after_read_def Let_def)
qed

end

lemma finalized_table: "std_sort srt \<Longrightarrow> routing_table (finalize srt s)"
  by unfold_locales (use finalize_match_spec in blast)

interpretation default_table: routing_table "default_snapshot sort_key grow" for grow
  unfolding default_snapshot_def by (rule finalized_table [OF stable_sort.std_sort_axioms])

definition reads_finalized :: "conn_event \<Rightarrow> bool" where
  "reads_finalized e \<longleftrightarrow>
     (case e of ReadDone _ _ snapshot _ \<Rightarrow> \<exists>srt s. std_sort srt \<and> snapshot = Some (finalize srt s) | _ \<Rightarrow> True)"

lemma step_not_crashed:
  assumes "conn_pc c \<noteq> PcCrashed" "reads_finalized e"
  shows "conn_pc (conn_step ll checks c e) \<noteq> PcCrashed"
proof (cases "conn_pc c = PcRead")
  case True
  show ?thesis
  proof (cases e)
    case (ReadDone request_view read_ec snapshot metrics_body)
    with assms(2) obtain srt s where "std_sort srt" "snapshot = Some (finalize srt s)"
      by (auto simp: reads_finalized_def)
    with True ReadDone routing_table.after_read_defined [OF finalized_table] show ?thesis
      by (simp add: conn_step_def)
  qed (use True in \<open>simp_all add: conn_step_def\<close>)
next
  case False
  with assms(1) show ?thesis
    by (cases "conn_pc c"; cases e) (simp_all add: conn_step_def)
qed

text \<open>
  C23 (safety): as long as every snapshot a connection loads was finalized, whatever rules it
  holds and however they are sorted, no run of a connection reaches undefined behaviour.
\<close>

theorem connection_never_crashes:
  assumes "\<forall>e\<in>set es. reads_finalized e"
  shows "conn_pc (foldl (conn_step ll checks) new_conn es) \<noteq> PcCrashed"
proof -
  have "conn_pc (foldl (conn_step ll checks) c es) \<noteq> PcCrashed" if "conn_pc c \<noteq> PcCrashed" for c
    using assms that by (induction es arbitrary: c) (simp_all add: step_not_crashed)
  from this [of new_conn] show ?thesis by (simp add: new_conn_def)
qed

theorem connection_never_crashes_witness:
  "conn_pc (foldl (conn_step (demo_ll ''GET'' 2) False) new_conn
     [SocketAffinity True, ReadDone ''/x'' None (Some (default_snapshot sort_key (\<lambda>n. 2 * n + 1))) []]) \<noteq> PcCrashed"
  by (rule connection_never_crashes)
     (auto simp: reads_finalized_def default_snapshot_def intro: stable_sort.std_sort_axioms)

section \<open>Every connection finishes\<close>

text \<open>The event each suspension point waits for.\<close>

fun awaits :: "conn_pc \<Rightarrow> conn_event \<Rightarrow> bool" where
  "awaits PcStart (SocketAffinity _) = True"
| "awaits PcCoroutine (CoroutineAffinity _) = True"
| "awaits PcRead (ReadDone _ _ _ _) = True"
| "awaits PcUpstream UpstreamYield = True"
| "awaits PcPost Posted = True"
| "awaits PcRecheck (CoroutineAffinity _) = True"
| "awaits PcWrite (WriteDone _) = True"
| "awaits PcShutdown (ShutdownDone _) = True"
| "awaits _ _ = False"

lemma after_read_advances: "PcRead < conn_pc (after_read ll request_view read_ec snapshot metrics_body c)"
  by (auto simp: after_read_def Let_def less_conn_pc_def goto_def split: option.split reply.split)

lemma step_advances:
  assumes "awaits (conn_pc c) e"
  shows "conn_pc c < conn_pc (conn_step ll checks c e)"
proof (cases "conn_pc c = PcRead")
  case True
  with assms after_read_advances show ?thesis
    by (cases e) (simp_all add: conn_step_def)
next
  case False
  with assms show ?thesis
    by (cases "conn_pc c"; cases e) (simp_all add: conn_step_def less_conn_pc_def)
qed

lemma done_stays: "conn_pc c = PcDone \<Longrightarrow> conn_step ll checks c e = c"
  by (simp add: conn_step_def)

lemma pc_rank_running: "pc \<notin> {PcDone, PcCrashed} \<Longrightarrow> pc_rank pc < 8"
  by (cases pc) simp_all

text \<open>
  C29 (termination): whatever the awaited operations give, as long as each of them gives a
  result and the snapshots are finalized, a connection has finished after at most eight of
  them, without undefined behaviour.
\<close>

theorem connection_terminates:
  assumes "c 0 = new_conn" "\<And>n. c (Suc n) = conn_step ll checks (c n) (env n)"
    and "\<And>n. conn_pc (c n) \<notin> {PcDone, PcCrashed} \<Longrightarrow> awaits (conn_pc (c n)) (env n)"
    and "\<And>n. reads_finalized (env n)"
  shows "conn_pc (c 8) = PcDone"
proof -
  have ok: "conn_pc (c n) \<noteq> PcCrashed" for n
    by (induction n) (simp_all add: assms(1,2) new_conn_def step_not_crashed assms(4))
  have "conn_pc (c n) = PcDone \<or> n \<le> pc_rank (conn_pc (c n))" for n
  proof (induction n)
    case (Suc n)
    show ?case
    proof (cases "conn_pc (c n) = PcDone")
      case True
      then show ?thesis by (simp add: assms(2) done_stays)
    next
      case False
      with ok have "awaits (conn_pc (c n)) (env n)" by (simp add: assms(3))
      from step_advances [OF this, of ll checks] Suc False show ?thesis
        by (simp add: assms(2) less_conn_pc_def)
    qed
  qed simp
  from this [of 8] ok [of 8] pc_rank_running [of "conn_pc (c 8)"] show ?thesis
    by (metis empty_iff insert_iff not_less)
qed

text \<open>A connection whose request is routed to the upstream, and each step it waits for.\<close>

fun demo_env :: "conn_pc \<Rightarrow> conn_event" where
  "demo_env PcStart = SocketAffinity True"
| "demo_env PcRead = ReadDone ''/'' None (Some (default_snapshot sort_key (\<lambda>n. 2 * n + 1))) []"
| "demo_env PcUpstream = UpstreamYield"
| "demo_env PcPost = Posted"
| "demo_env PcWrite = WriteDone None"
| "demo_env PcShutdown = ShutdownDone None"
| "demo_env _ = CoroutineAffinity True"

primrec demo_conn :: "nat \<Rightarrow> connection" where
  "demo_conn 0 = new_conn"
| "demo_conn (Suc n) = conn_step (demo_ll ''GET'' 1) True (demo_conn n) (demo_env (conn_pc (demo_conn n)))"

lemma demo_env_awaited: "pc \<notin> {PcDone, PcCrashed} \<Longrightarrow> awaits pc (demo_env pc) \<and> reads_finalized (demo_env pc)"
  by (cases pc) (auto simp: reads_finalized_def default_snapshot_def intro: stable_sort.std_sort_axioms)

lemma demo_env_finalized: "reads_finalized (demo_env pc)"
  by (cases pc) (auto simp: reads_finalized_def default_snapshot_def intro: stable_sort.std_sort_axioms)

theorem connection_terminates_witness: "conn_pc (demo_conn 8) = PcDone"
  by (rule connection_terminates [where env = "\<lambda>n. demo_env (conn_pc (demo_conn n))"
        and ll = "demo_ll ''GET'' 1" and checks = True])
     (use demo_env_awaited demo_env_finalized in auto)

section \<open>The accept loop\<close>

fun stops_accepting :: "accept_event \<Rightarrow> bool" where
  "stops_accepting (AcceptFailed ec opened) \<longleftrightarrow> ec = accept_aborted \<or> \<not> opened"
| "stops_accepting (Accepted same) \<longleftrightarrow> False"

fun accept_effects :: "bool \<Rightarrow> accept_event \<Rightarrow> accept_effect list" where
  "accept_effects checks (AcceptFailed ec opened) = []"
| "accept_effects checks (Accepted same) =
     (if checks \<and> \<not> same then [RejectSocket] else [RecordAccept, SpawnConnection])"


end
