(* ===== verification/Worker.thy ===== *)
theory Worker imports Spine begin

text \<open>
  One worker at work (\<^verbatim>\<open>src/runtime/spine.cpp\<close> with the snapshot manager and the metrics
  registry): its accept loop and the coroutines of all its connections, resumed one at a
  time by its thread in any order, while other threads reload its routes, stop it, and count
  in their own shards. A coroutine reads the routes and the metrics text from this state
  and its effects change it. The snapshot manager is an atomic register
  (theory \<open>Snapshot_Register\<close>), so a load is a read of the current value.
\<close>

section \<open>State and steps\<close>

text \<open>\<open>ws_accepting\<close>: \<^verbatim>\<open>accept_loop\<close> has not returned. Connections are numbered as accepted.\<close>

record worker_state =
  ws_spine :: spine
  ws_accepting :: bool
  ws_conns :: "connection list"
  ws_metrics :: metrics_registry

text \<open>What Boost.Asio resumes the coroutines with, and what other threads do meanwhile.\<close>

datatype accept_result = AcceptError accept_error | AcceptSocket bool

datatype io_result =
    SocketChecked bool
  | CoroutineChecked bool
  | ReadResult string "io_error option"
  | UpstreamResumed
  | PostResumed
  | WriteResult "io_error option"
  | ShutdownResult "io_error option"

datatype worker_event =
    AcceptResult accept_result
  | Resume nat io_result
  | Reload "route_snapshot option"
  | Stop
  | Elsewhere registry_event

abbreviation worker_checks :: "worker_state \<Rightarrow> bool" where
  "worker_checks s \<equiv> enable_executor_affinity_checks (spine_cfg (ws_spine s))"

text \<open>The text \<^verbatim>\<open>/metrics\<close> would serve: the request itself has been counted by then.\<close>

definition metrics_text :: "nat \<Rightarrow> string \<Rightarrow> worker_state \<Rightarrow> string" where
  "metrics_text t request_view s =
     (case record_request t (of_nat (length request_view)) (ws_metrics s) of
        None \<Rightarrow> []
      | Some r \<Rightarrow> render_prometheus r)"

fun delivered :: "nat \<Rightarrow> worker_state \<Rightarrow> io_result \<Rightarrow> conn_event" where
  "delivered t s (SocketChecked same) = SocketAffinity same"
| "delivered t s (CoroutineChecked same) = CoroutineAffinity same"
| "delivered t s (ReadResult request_view read_ec) =
     ReadDone request_view read_ec (route_config (ws_spine s)) (metrics_text t request_view s)"
| "delivered t s UpstreamResumed = UpstreamYield"
| "delivered t s PostResumed = Posted"
| "delivered t s (WriteResult write_ec) = WriteDone write_ec"
| "delivered t s (ShutdownResult shutdown_ec) = ShutdownDone shutdown_ec"

text \<open>
  The effects of a coroutine on the worker; \<open>t\<close> is the worker's thread. Reading from and
  writing to its socket has no effect on the worker.
\<close>

definition count_violation :: "worker_state \<Rightarrow> worker_state" where
  "count_violation s = s\<lparr>ws_spine := snd (check_executor_affinity False (ws_spine s))\<rparr>"

definition with_metrics ::
  "(metrics_registry \<Rightarrow> metrics_registry option) \<Rightarrow> worker_state \<Rightarrow> worker_state option"
where
  "with_metrics f s = map_option (\<lambda>r. s\<lparr>ws_metrics := r\<rparr>) (f (ws_metrics s))"

fun do_effect :: "nat \<Rightarrow> worker_state \<Rightarrow> conn_effect \<Rightarrow> worker_state option" where
  "do_effect t s AffinityViolation = Some (count_violation s)"
| "do_effect t s (RecordRequest n) = with_metrics (record_request t (of_nat n)) s"
| "do_effect t s (ReadSocket n read_ec) = Some s"
| "do_effect t s (SendResponse payload write_ec) = Some s"
| "do_effect t s (RecordResponse status n) = with_metrics (record_response t status (of_nat n)) s"

definition resume_connection ::
  "'p llhttp \<Rightarrow> nat \<Rightarrow> nat \<Rightarrow> io_result \<Rightarrow> worker_state \<Rightarrow> worker_state option"
where
  "resume_connection ll t k result s =
     (if k < length (ws_conns s)
      then
        let c = ws_conns s ! k;
            c' = conn_step ll (worker_checks s) c (delivered t s result)
        in run_option (do_effect t) (s\<lparr>ws_conns := (ws_conns s)[k := c']\<rparr>)
             (drop (length (conn_log c)) (conn_log c'))
      else Some s)"

fun do_accept_effect :: "nat \<Rightarrow> worker_state \<Rightarrow> accept_effect \<Rightarrow> worker_state option" where
  "do_accept_effect t s RejectSocket = Some (count_violation s)"
| "do_accept_effect t s RecordAccept = with_metrics (record_accept t) s"
| "do_accept_effect t s SpawnConnection = Some (s\<lparr>ws_conns := ws_conns s @ [new_conn]\<rparr>)"

text \<open>One turn of \<^verbatim>\<open>accept_loop\<close>; on an error it asks the acceptor whether it is open.\<close>

fun accept_event_of :: "worker_state \<Rightarrow> accept_result \<Rightarrow> accept_event" where
  "accept_event_of s (AcceptError ec) = AcceptFailed ec (acceptor_open (ws_spine s))"
| "accept_event_of s (AcceptSocket same) = Accepted same"

definition resume_accept :: "nat \<Rightarrow> accept_result \<Rightarrow> worker_state \<Rightarrow> worker_state option" where
  "resume_accept t result s =
     (if \<not> ws_accepting s then Some s
      else
        let e = accept_event_of s result
        in if stops_accepting e then Some (s\<lparr>ws_accepting := False\<rparr>)
           else run_option (do_accept_effect t) s (accept_effects (worker_checks s) e))"

fun worker_step :: "'p llhttp \<Rightarrow> nat \<Rightarrow> worker_state \<Rightarrow> worker_event \<Rightarrow> worker_state option" where
  "worker_step ll t s (AcceptResult result) = resume_accept t result s"
| "worker_step ll t s (Resume k result) = resume_connection ll t k result s"
| "worker_step ll t s (Reload snapshot) =
     Some (s\<lparr>ws_spine := reload_route_config snapshot (ws_spine s)\<rparr>)"
| "worker_step ll t s Stop = Some (s\<lparr>ws_spine := stop_spine (ws_spine s)\<rparr>)"
| "worker_step ll t s (Elsewhere e) = with_metrics (\<lambda>r. registry_step r e) s"

text \<open>A worker whose spine has been started and whose thread is bound to its shard.\<close>

definition new_worker :: "spine \<Rightarrow> metrics_registry \<Rightarrow> worker_state" where
  "new_worker sp r = \<lparr>ws_spine = sp, ws_accepting = True, ws_conns = [], ws_metrics = r\<rparr>"

section \<open>What an effect changes\<close>

lemma with_metrics_Some:
  "with_metrics f s = Some s' \<longleftrightarrow> (\<exists>r. f (ws_metrics s) = Some r \<and> s' = s\<lparr>ws_metrics := r\<rparr>)"
  by (auto simp: with_metrics_def)

lemma count_violation_simps [simp]:
  "ws_conns (count_violation s) = ws_conns s" "ws_metrics (count_violation s) = ws_metrics s"
  "ws_accepting (count_violation s) = ws_accepting s"
  "spine_cfg (ws_spine (count_violation s)) = spine_cfg (ws_spine s)"
  "route_config (ws_spine (count_violation s)) = route_config (ws_spine s)"
  "acceptor_open (ws_spine (count_violation s)) = acceptor_open (ws_spine s)"
  "affinity_violations (ws_spine (count_violation s)) = affinity_violations (ws_spine s) + 1"
  by (simp_all add: count_violation_def check_executor_affinity_def)

lemma do_effect_frame:
  "do_effect t s e = Some s' \<Longrightarrow>
   ws_conns s' = ws_conns s \<and> ws_accepting s' = ws_accepting s
   \<and> spine_cfg (ws_spine s') = spine_cfg (ws_spine s)
   \<and> route_config (ws_spine s') = route_config (ws_spine s)"
  by (cases e) (auto simp: with_metrics_Some)

lemma do_effects_frame:
  "run_option (do_effect t) s es = Some s' \<Longrightarrow>
   ws_conns s' = ws_conns s \<and> ws_accepting s' = ws_accepting s
   \<and> spine_cfg (ws_spine s') = spine_cfg (ws_spine s)
   \<and> route_config (ws_spine s') = route_config (ws_spine s)"
proof (induction es arbitrary: s)
  case (Cons e es)
  then obtain s1 where "do_effect t s e = Some s1" "run_option (do_effect t) s1 es = Some s'"
    by (auto simp: bind_eq_Some_conv)
  with Cons.IH do_effect_frame show ?case by metis
qed simp

lemma resume_connection_frame:
  assumes "resume_connection ll t k result s = Some s'"
  shows "ws_conns s' = (if k < length (ws_conns s)
       then (ws_conns s)[k := conn_step ll (worker_checks s) (ws_conns s ! k) (delivered t s result)]
       else ws_conns s)
     \<and> spine_cfg (ws_spine s') = spine_cfg (ws_spine s)
     \<and> route_config (ws_spine s') = route_config (ws_spine s) \<and> ws_accepting s' = ws_accepting s"
  using assms by (auto simp: resume_connection_def Let_def dest: do_effects_frame split: if_splits)

lemma resume_accept_frame:
  assumes "resume_accept t result s = Some s'"
  shows "(ws_conns s' = ws_conns s \<or> ws_conns s' = ws_conns s @ [new_conn])
     \<and> spine_cfg (ws_spine s') = spine_cfg (ws_spine s)
     \<and> route_config (ws_spine s') = route_config (ws_spine s)"
  using assms by (cases result)
    (auto simp: resume_accept_def Let_def with_metrics_Some bind_eq_Some_conv split: if_splits)

section \<open>Connections do not interfere\<close>

text \<open>The connection with number \<open>k\<close>: before it is accepted, one that has not started.\<close>

definition connection_at :: "worker_state \<Rightarrow> nat \<Rightarrow> connection" where
  "connection_at s k = (if k < length (ws_conns s) then ws_conns s ! k else new_conn)"

definition delivered_to :: "nat \<Rightarrow> nat \<Rightarrow> worker_state \<Rightarrow> worker_event \<Rightarrow> conn_event list" where
  "delivered_to t k s e =
     (case e of Resume j result \<Rightarrow> if j = k \<and> k < length (ws_conns s) then [delivered t s result] else []
              | _ \<Rightarrow> [])"

text \<open>What the connection \<open>k\<close> is resumed with along a run.\<close>

fun conn_trace ::
  "'p llhttp \<Rightarrow> nat \<Rightarrow> nat \<Rightarrow> worker_state \<Rightarrow> worker_event list \<Rightarrow> conn_event list"
where
  "conn_trace ll t k s [] = []"
| "conn_trace ll t k s (e # es) =
     delivered_to t k s e
     @ (case worker_step ll t s e of None \<Rightarrow> [] | Some s' \<Rightarrow> conn_trace ll t k s' es)"

lemma worker_step_cfg:
  "worker_step ll t s e = Some s' \<Longrightarrow> spine_cfg (ws_spine s') = spine_cfg (ws_spine s)"
  by (cases e)
     (auto simp: with_metrics_Some reload_route_config_def stop_spine_def
       dest!: resume_connection_frame resume_accept_frame)

lemma worker_step_connection:
  assumes "worker_step ll t s e = Some s'"
  shows "connection_at s' k = foldl (conn_step ll (worker_checks s)) (connection_at s k) (delivered_to t k s e)"
proof (cases e)
  case (AcceptResult result)
  with assms resume_accept_frame [of t result s s'] show ?thesis
    by (auto simp: connection_at_def delivered_to_def nth_append less_Suc_eq)
next
  case (Resume j result)
  with assms resume_connection_frame [of ll t j result s s'] show ?thesis
    by (auto simp: connection_at_def delivered_to_def)
next
  case (Elsewhere re)
  with assms have "ws_conns s' = ws_conns s" by (auto simp: with_metrics_Some)
  with Elsewhere show ?thesis by (simp add: connection_at_def delivered_to_def)
qed (use assms in \<open>auto simp: connection_at_def delivered_to_def\<close>)

lemma worker_run_connection:
  assumes "run_option (worker_step ll t) s es = Some s'"
  shows "connection_at s' k =
    foldl (conn_step ll (worker_checks s)) (connection_at s k) (conn_trace ll t k s es)"
  using assms
proof (induction es arbitrary: s)
  case (Cons e es)
  then obtain s1 where s1: "worker_step ll t s e = Some s1" "run_option (worker_step ll t) s1 es = Some s'"
    by (auto simp: bind_eq_Some_conv)
  with Cons.IH [OF s1(2)] worker_step_connection [OF s1(1), of k] worker_step_cfg [OF s1(1)]
  show ?case by simp
qed simp

section \<open>What a worker counts\<close>

text \<open>
  The calls of the metrics registry a connection makes, read off its log; a size is counted
  modulo \<open>2 ^ 64\<close>.
\<close>

fun effect_calls :: "conn_effect \<Rightarrow> metric_call list" where
  "effect_calls (RecordRequest n) = [Request (of_nat n)]"
| "effect_calls (RecordResponse status n) = [Response status (of_nat n)]"
| "effect_calls AffinityViolation = []"
| "effect_calls (ReadSocket n read_ec) = []"
| "effect_calls (SendResponse payload write_ec) = []"

definition log_calls :: "conn_effect list \<Rightarrow> metric_call list" where
  "log_calls es = concat (map effect_calls es)"

definition log_contribution :: "counter \<Rightarrow> conn_effect list \<Rightarrow> 64 word" where
  "log_contribution d es = sum_list (map (contribution d) (log_calls es))"

lemma log_contribution_simps [simp]:
  "log_contribution d [] = 0"
  "log_contribution d (es @ fs) = log_contribution d es + log_contribution d fs"
  "log_contribution d (e # es) = sum_list (map (contribution d) (effect_calls e)) + log_contribution d es"
  by (simp_all add: log_contribution_def log_calls_def)

text \<open>One thread counts in the shard it is bound to, and nowhere else.\<close>

definition counts_in :: "nat \<Rightarrow> nat \<Rightarrow> metrics_registry \<Rightarrow> bool" where
  [inv_defs]: "counts_in t i r \<longleftrightarrow>
     registry_ok r \<and> tls_worker_shard r t = Some i \<and> (\<forall>u. u \<noteq> t \<longrightarrow> tls_worker_shard r u \<noteq> Some i)"

text \<open>A registry after a call: the counters of \<open>i\<close> have grown by \<open>inc\<close>, everything else is as it was.\<close>

definition grown :: "nat \<Rightarrow> (counter \<Rightarrow> 64 word) \<Rightarrow> metrics_registry \<Rightarrow> metrics_registry \<Rightarrow> bool" where
  "grown i inc r r' \<longleftrightarrow>
     (\<forall>d j. shard_value r' d j = shard_value r d j + (if j = i then inc d else 0))"

lemma grown_refl: "grown i (\<lambda>_. 0) r r"
  by (simp add: grown_def)

lemma grown_trans: "grown i f r r1 \<Longrightarrow> grown i g r1 r2 \<Longrightarrow> grown i (\<lambda>d. f d + g d) r r2"
  by (simp add: grown_def add.assoc)

lemma thread_add_grown:
  assumes "counts_in t i r"
  shows "\<exists>r'. thread_add t c n r = Some r' \<and> counts_in t i r' \<and> grown i (\<lambda>d. if d = c then n else 0) r r'"
proof -
  from assms have ok: "registry_ok r" "tls_worker_shard r t = Some i" by (simp_all add: counts_in_def)
  then obtain sh where sh: "live_shards r i = Some sh" by (rule bound_live)
  let ?r = "r\<lparr>live_shards := (live_shards r)(i \<mapsto> fetch_add c n sh)\<rparr>"
  have "thread_add t c n r = Some ?r" using ok sh by (simp add: thread_add_def)
  moreover from this have "registry_ok ?r" using thread_add_total [OF ok(1), of t c n] by simp
  moreover have "grown i (\<lambda>d. if d = c then n else 0) r ?r"
    using sh by (auto simp: grown_def shard_value_def)
  ultimately show ?thesis using assms by (simp add: counts_in_def)
qed

lemma adds_grown:
  assumes "counts_in t i r"
  shows "\<exists>r'. adds (map (Pair t) xs) r = Some r' \<and> counts_in t i r'
     \<and> grown i (\<lambda>d. sum_list (map (\<lambda>(c, n). if d = c then n else 0) xs)) r r'"
  using assms
proof (induction xs arbitrary: r)
  case (Cons x xs)
  obtain c n where x: "x = (c, n)" by (cases x)
  from thread_add_grown [OF Cons.prems, of c n] obtain r1 where
    r1: "thread_add t c n r = Some r1" "counts_in t i r1" "grown i (\<lambda>d. if d = c then n else 0) r r1" by blast
  from Cons.IH [OF r1(2)] r1(1) grown_trans [OF r1(3)] show ?case by (fastforce simp: x)
qed (simp add: grown_refl)

lemma record_call_grown:
  assumes "counts_in t i r"
  shows "\<exists>r'. record_call t call r = Some r' \<and> counts_in t i r' \<and> grown i (\<lambda>d. contribution d call) r r'"
proof -
  have "(\<lambda>d. sum_list (map (\<lambda>(c, n). if d = c then n else 0) (call_adds call))) = (\<lambda>d. contribution d call)"
    by (rule ext, cases call) (auto simp: status_counter_def)
  with adds_grown [OF assms, of "call_adds call"] show ?thesis by (simp only: record_call_adds)
qed

lemma do_effect_grown:
  assumes "counts_in t i (ws_metrics s)"
  shows "\<exists>s'. do_effect t s e = Some s' \<and> counts_in t i (ws_metrics s')
     \<and> grown i (\<lambda>d. log_contribution d [e]) (ws_metrics s) (ws_metrics s')"
proof (cases e)
  case (RecordRequest n)
  with record_call_grown [OF assms, of "Request (of_nat n)"] show ?thesis
    by (auto simp: with_metrics_def simp del: contribution.simps)
next
  case (RecordResponse status n)
  with record_call_grown [OF assms, of "Response status (of_nat n)"] show ?thesis
    by (auto simp: with_metrics_def simp del: contribution.simps)
qed (use assms grown_refl in auto)

lemma do_effects_grown:
  assumes "counts_in t i (ws_metrics s)"
  shows "\<exists>s'. run_option (do_effect t) s es = Some s' \<and> counts_in t i (ws_metrics s')
     \<and> grown i (\<lambda>d. log_contribution d es) (ws_metrics s) (ws_metrics s')"
  using assms
proof (induction es arbitrary: s)
  case (Cons e es)
  from do_effect_grown [OF Cons.prems, of e] obtain s1 where
    s1: "do_effect t s e = Some s1" "counts_in t i (ws_metrics s1)"
      "grown i (\<lambda>d. log_contribution d [e]) (ws_metrics s) (ws_metrics s1)" by blast
  from Cons.IH [OF s1(2)] s1(1) grown_trans [OF s1(3)] show ?case by fastforce
qed (simp add: grown_refl)

text \<open>What the counters of a worker's shard have to be, from the logs of its connections.\<close>

definition worker_total :: "counter \<Rightarrow> connection list \<Rightarrow> 64 word" where
  "worker_total d cs =
     (if d = Accepts then of_nat (length cs) else 0)
     + sum_list (map (\<lambda>c. log_contribution d (conn_log c)) cs)"

lemma sum_list_list_update:
  fixes f :: "'a \<Rightarrow> 'b :: ab_group_add"
  shows "k < length xs \<Longrightarrow> sum_list (map f (xs[k := x])) = sum_list (map f xs) + (f x - f (xs ! k))"
  by (induction xs arbitrary: k) (auto simp: nth_Cons split: nat.splits)

lemma worker_total_update:
  assumes "k < length cs" "conn_log c = conn_log (cs ! k) @ es"
  shows "worker_total d (cs[k := c]) = worker_total d cs + log_contribution d es"
  using assms by (simp add: worker_total_def sum_list_list_update)

lemma new_conn_pc [simp]: "conn_pc new_conn = PcStart"
  by (simp add: new_conn_def)

lemma worker_total_new:
  "worker_total d (cs @ [new_conn]) = worker_total d cs + contribution d Accept"
  by (simp add: worker_total_def new_conn_def)

text \<open>A coroutine only appends to its log.\<close>

lemma conn_log_grows: "\<exists>es. conn_log (conn_step ll checks c e) = conn_log c @ es"
proof (cases "conn_pc c = PcRead")
  case True
  then show ?thesis
    by (cases e) (auto simp: conn_step_def after_read_def Let_def split: option.split reply.split)
next
  case False
  then show ?thesis
    by (cases "conn_pc c"; cases e) (auto simp: conn_step_def)
qed

section \<open>The invariant of a worker\<close>

definition is_finalized :: "route_snapshot option \<Rightarrow> bool" where
  "is_finalized snapshot \<longleftrightarrow> (\<exists>srt s. std_sort srt \<and> snapshot = Some (finalize srt s))"

definition worker_ok :: "nat \<Rightarrow> nat \<Rightarrow> worker_state \<Rightarrow> bool" where
  [inv_defs]: "worker_ok t i s \<longleftrightarrow>
     counts_in t i (ws_metrics s)
     \<and> (\<forall>d. shard_value (ws_metrics s) d i = worker_total d (ws_conns s))
     \<and> (\<forall>c\<in>set (ws_conns s). conn_inv c \<and> conn_pc c \<noteq> PcCrashed)
     \<and> is_finalized (route_config (ws_spine s))"

text \<open>
  What the other threads may do: publish finalized snapshots, and use the registry as its
  owners, without touching this worker's thread \<open>t\<close> and shard \<open>i\<close>.
\<close>

fun foreign :: "nat \<Rightarrow> nat \<Rightarrow> registry_event \<Rightarrow> bool" where
  "foreign t i CreateShard \<longleftrightarrow> True"
| "foreign t i (Bind u j) \<longleftrightarrow> u \<noteq> t \<and> j \<noteq> i"
| "foreign t i (Unbind u) \<longleftrightarrow> u \<noteq> t"
| "foreign t i (DropShard j) \<longleftrightarrow> j \<noteq> i"
| "foreign t i (Add u c n) \<longleftrightarrow> u \<noteq> t"

fun worker_guard :: "nat \<Rightarrow> nat \<Rightarrow> worker_state \<Rightarrow> worker_event \<Rightarrow> bool" where
  "worker_guard t i s (Reload snapshot) \<longleftrightarrow> is_finalized snapshot"
| "worker_guard t i s (Elsewhere e) \<longleftrightarrow> foreign t i e \<and> owned_use (ws_metrics s) e"
| "worker_guard t i s _ \<longleftrightarrow> True"

lemma foreign_step:
  assumes "counts_in t i r" "foreign t i e" "owned_use r e"
  shows "\<exists>r'. registry_step r e = Some r' \<and> counts_in t i r' \<and> (\<forall>d. shard_value r' d i = shard_value r d i)"
proof -
  have ok: "registry_ok r" and bound: "tls_worker_shard r t = Some i"
    and only: "\<And>u. u \<noteq> t \<Longrightarrow> tls_worker_shard r u \<noteq> Some i"
    using assms(1) by (simp_all add: counts_in_def)
  from registry_ok_step [OF ok assms(3)] obtain r' where
    r': "registry_step r e = Some r'" "registry_ok r'" by blast
  from ok bound obtain sh where "i \<in> set (weak_shards r)" by (rule bound_live)
  with ok have old: "i < next_shard r" unfolding registry_ok_def by blast
  have "tls_worker_shard r' t = Some i \<and> (\<forall>u. u \<noteq> t \<longrightarrow> tls_worker_shard r' u \<noteq> Some i)
      \<and> live_shards r' i = live_shards r i"
  proof (cases e)
    case (Add u c n)
    have "tls_worker_shard r' = tls_worker_shard r" using Add r'(1) by (simp add: thread_add_tls)
    moreover have "tls_worker_shard r u \<noteq> Some i" using Add assms(2) only by auto
    then have "live_shards r' i = live_shards r i"
      using Add r'(1) by (auto simp: thread_add_def split: option.splits)
    ultimately show ?thesis using bound only by simp
  qed (use assms(2) r'(1) bound only old in
        \<open>auto simp: create_worker_shard_def bind_thread_local_shard_def unbind_thread_local_shard_def
           drop_shard_def split: if_splits\<close>)
  with r' show ?thesis by (auto simp: counts_in_def shard_value_def)
qed

lemma resume_connection_ok:
  assumes "documented_llhttp ll" "worker_ok t i s"
  shows "\<exists>s'. resume_connection ll t k result s = Some s' \<and> worker_ok t i s'"
proof (cases "k < length (ws_conns s)")
  case True
  let ?c = "ws_conns s ! k"
  let ?c' = "conn_step ll (worker_checks s) ?c (delivered t s result)"
  let ?s = "s\<lparr>ws_conns := (ws_conns s)[k := ?c']\<rparr>"
  obtain es where es: "conn_log ?c' = conn_log ?c @ es" using conn_log_grows by blast
  have mem: "?c \<in> set (ws_conns s)" using True by simp
  have ok: "counts_in t i (ws_metrics ?s)" using assms(2) by (simp add: worker_ok_def)
  from do_effects_grown [OF this, of es] obtain s' where
    s': "run_option (do_effect t) ?s es = Some s'" "counts_in t i (ws_metrics s')"
      "grown i (\<lambda>d. log_contribution d es) (ws_metrics s) (ws_metrics s')" by auto
  note frame = do_effects_frame [OF s'(1)]
  have "reads_finalized (delivered t s result)"
    using assms(2) by (cases result) (auto simp: reads_finalized_def worker_ok_def is_finalized_def)
  with assms mem have c': "conn_inv ?c' \<and> conn_pc ?c' \<noteq> PcCrashed"
    by (simp add: worker_ok_def conn_inv_step step_not_crashed)
  have "worker_total d (ws_conns s') = worker_total d (ws_conns s) + log_contribution d es" for d
    using frame worker_total_update [OF True es] by simp
  moreover have "shard_value (ws_metrics s') d i = shard_value (ws_metrics s) d i + log_contribution d es" for d
    using s'(3) by (simp add: grown_def)
  moreover have "\<forall>c\<in>set (ws_conns s'). conn_inv c \<and> conn_pc c \<noteq> PcCrashed"
    using frame assms(2) c' set_update_subset_insert [of "ws_conns s" k ?c'] by (auto simp: worker_ok_def)
  ultimately have "worker_ok t i s'" using s'(2) frame assms(2) by (simp add: worker_ok_def)
  with True es s'(1) show ?thesis by (simp add: resume_connection_def Let_def)
qed (use assms in \<open>simp add: resume_connection_def\<close>)

lemma resume_accept_ok:
  assumes "worker_ok t i s"
  shows "\<exists>s'. resume_accept t result s = Some s' \<and> worker_ok t i s'"
proof (cases "ws_accepting s \<and> \<not> stops_accepting (accept_event_of s result)")
  case False
  then show ?thesis
    using assms by (auto simp: resume_accept_def worker_ok_def)
next
  case True
  show ?thesis
  proof (cases result)
    case (AcceptError ec)
    with True assms show ?thesis by (simp add: resume_accept_def)
  next
    case (AcceptSocket same)
    show ?thesis
    proof (cases "worker_checks s \<and> \<not> same")
      case True
      with AcceptSocket \<open>ws_accepting s \<and> _\<close> assms show ?thesis
        by (auto simp: resume_accept_def worker_ok_def)
    next
      case False
      from assms have "counts_in t i (ws_metrics s)" by (simp add: worker_ok_def)
      from record_call_grown [OF this, of Accept] obtain r where
        r: "record_accept t (ws_metrics s) = Some r" "counts_in t i r"
          "grown i (\<lambda>d. contribution d Accept) (ws_metrics s) r" by auto
      let ?s = "s\<lparr>ws_metrics := r, ws_conns := ws_conns s @ [new_conn]\<rparr>"
      have "resume_accept t result s = Some ?s"
        using r(1) AcceptSocket False \<open>ws_accepting s \<and> _\<close> by (auto simp: resume_accept_def with_metrics_def)
      moreover have "worker_ok t i ?s"
        using assms r(2,3) new_conn_inv by (simp add: worker_ok_def grown_def worker_total_new)
      ultimately show ?thesis by blast
    qed
  qed
qed

lemma worker_step_ok:
  assumes "documented_llhttp ll" "worker_ok t i s" "worker_guard t i s e"
  shows "\<exists>s'. worker_step ll t s e = Some s' \<and> worker_ok t i s'"
proof (cases e)
  case (AcceptResult result)
  with resume_accept_ok [OF assms(2)] show ?thesis by simp
next
  case (Resume k result)
  with resume_connection_ok [OF assms(1,2)] show ?thesis by simp
next
  case (Elsewhere re)
  with assms foreign_step [of t i "ws_metrics s" re] show ?thesis
    by (auto simp: worker_ok_def with_metrics_def)
qed (use assms in \<open>auto simp: worker_ok_def reload_route_config_def stop_spine_def\<close>)

interpretation worker: guarded_machine "worker_step ll t" "worker_guard t i" "\<lambda>s. documented_llhttp ll \<and> worker_ok t i s"
  for ll t i
  by unfold_locales (use worker_step_ok in blast)

section \<open>A worker from its start\<close>

text \<open>The spine and the registry a worker's thread starts with: a fresh shard of its own.\<close>

definition starts_fresh :: "nat \<Rightarrow> nat \<Rightarrow> spine \<Rightarrow> metrics_registry \<Rightarrow> bool" where
  "starts_fresh t i sp r \<longleftrightarrow>
     counts_in t i r \<and> live_shards r i = Some new_shard \<and> is_finalized (route_config sp)"

lemma new_worker_ok: "starts_fresh t i sp r \<Longrightarrow> worker_ok t i (new_worker sp r)"
  by (simp add: starts_fresh_def worker_ok_def new_worker_def worker_total_def shard_value_def)

lemma worker_run_defined:
  assumes "documented_llhttp ll" "starts_fresh t i sp r"
    and "guarded_run (worker_step ll t) (worker_guard t i) (new_worker sp r) es"
  obtains s where "run_option (worker_step ll t) (new_worker sp r) es = Some s" "worker_ok t i s"
  using worker.run_defined [OF _ assms(3)] new_worker_ok [OF assms(2)] assms(1) by blast

lemma worker_run_ok:
  assumes "documented_llhttp ll" "starts_fresh t i sp r"
    and "guarded_run (worker_step ll t) (worker_guard t i) (new_worker sp r) es"
    and "run_option (worker_step ll t) (new_worker sp r) es = Some s"
  shows "worker_ok t i s"
  by (rule worker_run_defined [OF assms(1-3)]) (use assms(4) in simp)

text \<open>
  C5 (safety): a worker never reaches undefined behaviour and its connections do not
  interfere: in every interleaving of accepts, of the turns of all its coroutines, of
  reloads of finalized snapshots and of what the other threads do in the registry, the run is
  defined, and each connection is in the state its own coroutine alone has reached on
  what it was resumed with, and has not crashed.
\<close>

theorem worker_isolates_connections:
  assumes "documented_llhttp ll" "starts_fresh t i sp r"
    and "guarded_run (worker_step ll t) (worker_guard t i) (new_worker sp r) es"
  shows "\<exists>s. run_option (worker_step ll t) (new_worker sp r) es = Some s
     \<and> (\<forall>k<length (ws_conns s).
          ws_conns s ! k =
            foldl (conn_step ll (enable_executor_affinity_checks (spine_cfg sp))) new_conn
              (conn_trace ll t k (new_worker sp r) es)
          \<and> conn_pc (ws_conns s ! k) \<noteq> PcCrashed)"
proof -
  from assms obtain s where s: "run_option (worker_step ll t) (new_worker sp r) es = Some s" "worker_ok t i s"
    by (rule worker_run_defined)
  have "ws_conns s ! k = foldl (conn_step ll (enable_executor_affinity_checks (spine_cfg sp))) new_conn
      (conn_trace ll t k (new_worker sp r) es)" if "k < length (ws_conns s)" for k
    using worker_run_connection [OF s(1), of k] that by (simp add: connection_at_def new_worker_def)
  moreover have "conn_pc (ws_conns s ! k) \<noteq> PcCrashed" if "k < length (ws_conns s)" for k
    using s(2) nth_mem [OF that] by (simp add: worker_ok_def)
  ultimately show ?thesis using s(1) by blast
qed

section \<open>Counters\<close>

text \<open>
  What the counters have to say, read off the sockets: a request is a read that succeeded, a
  response of a class a write that succeeded, of a payload whose status line carries a status
  of the class; the bytes are those read and those written.
\<close>

definition sent_status :: "string \<Rightarrow> int" where
  "sent_status payload = int (dec_val (take 3 (drop 9 payload)))"

fun io_counter :: "conn_effect \<Rightarrow> counter option" where
  "io_counter (ReadSocket n read_ec) = (if read_ok read_ec then Some Requests else None)"
| "io_counter (SendResponse payload write_ec) =
     (if write_ec = None then status_counter (sent_status payload) else None)"
| "io_counter _ = None"

definition counted_by :: "counter \<Rightarrow> connection \<Rightarrow> bool" where
  "counted_by d c \<longleftrightarrow> d = Accepts \<or> Some d \<in> set (map io_counter (conn_log c))"

fun io_bytes :: "counter \<Rightarrow> conn_effect \<Rightarrow> nat" where
  "io_bytes BytesIn (ReadSocket n read_ec) = (if read_ok read_ec then n else 0)"
| "io_bytes BytesOut (SendResponse payload write_ec) = (if write_ec = None then length payload else 0)"
| "io_bytes _ _ = 0"

definition conn_bytes :: "counter \<Rightarrow> connection \<Rightarrow> nat" where
  "conn_bytes d c = sum_list (map (io_bytes d) (conn_log c))"

lemma status_digits:
  "show_int 200 = ''200''" "show_int 400 = ''400''" "show_int 404 = ''404''" "show_int 405 = ''405''"
  "show_int 500 = ''500''"
  by code_simp+

lemma status_values:
  "dec_val ''200'' = 200" "dec_val ''400'' = 400" "dec_val ''404'' = 404" "dec_val ''405'' = 405"
  "dec_val ''500'' = 500"
  by code_simp+

lemma sent_status_response:
  assumes "good_response status payload"
  shows "sent_status payload = status"
proof -
  from assms obtain rest where p: "payload = ''HTTP/1.1 '' @ show_int status @ rest"
    by (auto simp: good_response_def build_http_response_def)
  from assms have "status \<in> {200, 400, 404, 405, 500}" by (simp add: good_response_def)
  then consider "status = 200" | "status = 400" | "status = 404" | "status = 405" | "status = 500" by blast
  then show ?thesis
    by cases (simp_all add: p sent_status_def status_digits status_values)
qed

lemma status_counter_class: "status_counter status = Some d \<Longrightarrow> d \<in> {Responses2xx, Responses4xx, Responses5xx}"
  by (auto simp: status_counter_def split: if_splits)

text \<open>The seven logs a connection can have.\<close>

lemma conn_log_cases:
  assumes "conn_inv c"
  obtains
    (idle) "conn_log c = []"
  | (read) n read_ec where "read_ok read_ec" "conn_log c = [ReadSocket n read_ec, RecordRequest n]"
  | (written) n read_ec status payload where "read_ok read_ec" "good_response status payload"
      "conn_log c = [ReadSocket n read_ec, RecordRequest n, SendResponse payload None,
         RecordResponse status (length payload)]"
  | (write_failed) n read_ec payload e where "read_ok read_ec"
      "conn_log c = [ReadSocket n read_ec, RecordRequest n, SendResponse payload (Some e)]"
  | (read_failed) n e where "e \<noteq> eof" "conn_log c = [ReadSocket n (Some e)]"
  | (refused_before) "conn_log c = [AffinityViolation]"
  | (refused_after) n read_ec where "read_ok read_ec"
      "conn_log c = [ReadSocket n read_ec, RecordRequest n, AffinityViolation]"
proof -
  have "conn_log c = [] \<or> request_read (conn_log c) \<or> answered (conn_log c) \<or> unanswered (conn_log c)"
    using assms by (cases "conn_pc c") (auto simp: conn_inv_def)
  then consider "conn_log c = []" | "request_read (conn_log c)" | "answered (conn_log c)" | "unanswered (conn_log c)"
    by blast
  then show thesis
  proof cases
    case 1
    then show thesis by (rule idle)
  next
    case 2
    then show thesis unfolding request_read_def using read by blast
  next
    case 3
    then show thesis by cases (blast intro: written write_failed)+
  next
    case 4
    then show thesis by cases (blast intro: read_failed refused_before refused_after)+
  qed
qed

lemma not_read_ok: "e \<noteq> eof \<Longrightarrow> \<not> read_ok (Some e)"
  by (simp add: read_ok_def)

lemma contribution_counted:
  assumes "conn_inv c" "d \<notin> {Accepts, BytesIn, BytesOut}"
  shows "log_contribution d (conn_log c) = (if counted_by d c then 1 else 0)"
  using assms(1)
proof (cases rule: conn_log_cases)
  case (written n read_ec status payload)
  then show ?thesis
    using assms(2) status_counter_class [of status d]
    by (cases d) (auto simp: counted_by_def sent_status_response)
qed (use assms(2) not_read_ok in \<open>cases d; simp add: counted_by_def\<close>)+

lemma contribution_bytes:
  assumes "conn_inv c" "d \<in> {BytesIn, BytesOut}"
  shows "log_contribution d (conn_log c) = of_nat (conn_bytes d c)"
  using assms(1)
proof (cases rule: conn_log_cases)
  case (written n read_ec status payload)
  then show ?thesis
    using assms(2) status_counter_class [of status d] by (auto simp: conn_bytes_def)
qed (use assms(2) not_read_ok in \<open>auto simp: conn_bytes_def\<close>)

lemma sum_list_if: "sum_list (map (\<lambda>x. if P x then 1 else 0) xs) = of_nat (length (filter P xs))"
  by (induction xs) simp_all

lemma worker_total_counted:
  assumes "\<forall>c\<in>set cs. conn_inv c" "d \<notin> {BytesIn, BytesOut}"
  shows "worker_total d cs = of_nat (length (filter (counted_by d) cs))"
proof (cases "d = Accepts")
  case True
  have zero: "log_contribution Accepts es = 0" for es
  proof (induction es)
    case (Cons e es)
    then show ?case by (cases e) (auto simp: status_counter_def)
  qed simp
  have "filter (counted_by Accepts) cs = cs" by (simp add: counted_by_def)
  with True show ?thesis by (simp add: worker_total_def zero)
next
  case False
  with assms have "map (\<lambda>c. log_contribution d (conn_log c)) cs = map (\<lambda>c. if counted_by d c then 1 else 0) cs"
    by (intro map_cong) (simp_all add: contribution_counted)
  then have "worker_total d cs = sum_list (map (\<lambda>c. if counted_by d c then 1 else 0) cs)"
    using False by (simp only: worker_total_def if_False add_0)
  then show ?thesis by (simp only: sum_list_if)
qed

lemma worker_total_bytes:
  assumes "\<forall>c\<in>set cs. conn_inv c" "d \<in> {BytesIn, BytesOut}"
  shows "worker_total d cs = of_nat (sum_list (map (conn_bytes d) cs))"
proof -
  have "worker_total d cs = sum_list (map (\<lambda>c. of_nat (conn_bytes d c)) cs)"
    using assms by (auto simp: worker_total_def contribution_bytes cong: map_cong)
  also have "\<dots> = of_nat (sum_list (map (conn_bytes d) cs))"
    by (induction cs) simp_all
  finally show ?thesis .
qed

lemma counted_implied:
  assumes "conn_inv c" "counted_by d c" "d \<in> {Responses2xx, Responses4xx, Responses5xx}"
  shows "counted_by Requests c"
  using assms(1)
  by (cases rule: conn_log_cases) (use assms(2,3) not_read_ok in \<open>auto simp: counted_by_def\<close>)

lemma filter_length_mono: "(\<And>x. x \<in> set xs \<Longrightarrow> P x \<Longrightarrow> Q x) \<Longrightarrow> length (filter P xs) \<le> length (filter Q xs)"
  by (induction xs) (auto simp: le_SucI)

text \<open>
  C6 (invariant): whatever interleaves, the shard of a worker says exactly what its
  connections have done on their sockets: accepts are the connections it has, requests those
  whose read succeeded, each response class those on which a response whose status line
  carries such a status was written without an error, and the byte counts are the sizes of
  those reads and of those responses; so responses never exceed requests, nor requests
  accepts. (The counters wrap after \<open>2 ^ 64\<close>.)
\<close>

theorem worker_counters:
  assumes "documented_llhttp ll" "starts_fresh t i sp r"
    and "guarded_run (worker_step ll t) (worker_guard t i) (new_worker sp r) es"
    and "run_option (worker_step ll t) (new_worker sp r) es = Some s" "length (ws_conns s) < 2 ^ 64"
  shows "\<exists>shard. live_shards (ws_metrics s) i = Some shard
     \<and> unat (accepts_total shard) = length (ws_conns s)
     \<and> (\<forall>d. d \<notin> {BytesIn, BytesOut} \<longrightarrow>
          unat (counter_of shard d) = length (filter (counted_by d) (ws_conns s)))
     \<and> (\<forall>d. d \<in> {BytesIn, BytesOut} \<longrightarrow>
          counter_of shard d = of_nat (sum_list (map (conn_bytes d) (ws_conns s))))
     \<and> unat (requests_total shard) \<le> unat (accepts_total shard)
     \<and> unat (responses_2xx_total shard) \<le> unat (requests_total shard)
     \<and> unat (responses_4xx_total shard) \<le> unat (requests_total shard)
     \<and> unat (responses_5xx_total shard) \<le> unat (requests_total shard)"
proof -
  let ?cs = "ws_conns s"
  from worker_run_ok [OF assms(1-4)] have ok: "counts_in t i (ws_metrics s)"
    "\<And>d. shard_value (ws_metrics s) d i = worker_total d ?cs" "\<forall>c\<in>set ?cs. conn_inv c"
    by (simp_all add: worker_ok_def)
  then obtain shard where shard: "live_shards (ws_metrics s) i = Some shard"
    by (auto simp: counts_in_def elim: bound_live)
  have exact: "unat (counter_of shard d) = length (filter (counted_by d) ?cs)" if "d \<notin> {BytesIn, BytesOut}" for d
  proof -
    have "counter_of shard d = of_nat (length (filter (counted_by d) ?cs))"
      using ok(2) [of d] shard worker_total_counted [OF ok(3) that] by (simp add: shard_value_def)
    moreover have "length (filter (counted_by d) ?cs) < 2 ^ 64"
      using length_filter_le [of "counted_by d" ?cs] assms(5) by linarith
    ultimately show ?thesis by (simp add: unsigned_of_nat take_bit_nat_eq_self)
  qed
  have le: "length (filter (counted_by d) ?cs) \<le> length (filter (counted_by Requests) ?cs)"
    if "d \<in> {Responses2xx, Responses4xx, Responses5xx}" for d
    using ok(3) counted_implied [OF _ _ that] by (intro filter_length_mono) blast
  have "unat (accepts_total shard) = length ?cs" "unat (requests_total shard) \<le> length ?cs"
    using exact [of Accepts] exact [of Requests] by (simp_all add: counted_by_def [of Accepts])
  moreover have "unat (responses_2xx_total shard) \<le> unat (requests_total shard)"
    "unat (responses_4xx_total shard) \<le> unat (requests_total shard)"
    "unat (responses_5xx_total shard) \<le> unat (requests_total shard)"
    using exact [of Requests] exact [of Responses2xx] exact [of Responses4xx] exact [of Responses5xx]
      le [of Responses2xx] le [of Responses4xx] le [of Responses5xx] by simp_all
  moreover have "\<forall>d. d \<in> {BytesIn, BytesOut} \<longrightarrow> counter_of shard d = of_nat (sum_list (map (conn_bytes d) ?cs))"
    using ok(2) shard worker_total_bytes [OF ok(3)] by (simp add: shard_value_def)
  ultimately show ?thesis
    using shard exact by (intro exI [of _ shard] conjI) simp_all
qed

section \<open>Reloading routes\<close>

text \<open>What a reply puts on the wire: the upstream's body is known once its path is.\<close>

fun reply_response :: "reply \<Rightarrow> int \<times> string" where
  "reply_response (Reply status payload) = (status, payload)"
| "reply_response (CallUpstream path) =
     (200, build_http_response 200 ''OK'' (mock_upstream_call path) text_plain)"

text \<open>A log in which nothing but this response is sent and recorded.\<close>

definition answers_only :: "int \<times> string \<Rightarrow> conn_effect list \<Rightarrow> bool" where
  "answers_only resp es \<longleftrightarrow>
     (\<forall>e\<in>set es. case e of
        SendResponse payload write_ec \<Rightarrow> payload = snd resp
      | RecordResponse status n \<Rightarrow> status = fst resp \<and> n = length (snd resp)
      | _ \<Rightarrow> True)"

lemma answers_only_simps [simp]:
  "answers_only resp []"
  "answers_only resp (es @ fs) \<longleftrightarrow> answers_only resp es \<and> answers_only resp fs"
  "answers_only resp (RecordRequest n # es) \<longleftrightarrow> answers_only resp es"
  "answers_only resp (AffinityViolation # es) \<longleftrightarrow> answers_only resp es"
  "answers_only resp (ReadSocket n read_ec # es) \<longleftrightarrow> answers_only resp es"
  "answers_only resp (SendResponse payload write_ec # es) \<longleftrightarrow> payload = snd resp \<and> answers_only resp es"
  "answers_only resp (RecordResponse status n # es) \<longleftrightarrow>
     status = fst resp \<and> n = length (snd resp) \<and> answers_only resp es"
  by (auto simp: answers_only_def)

text \<open>A coroutine past its read, whose response is decided.\<close>

definition decided :: "int \<times> string \<Rightarrow> connection \<Rightarrow> bool" where
  "decided resp c \<longleftrightarrow> answers_only resp (conn_log c)
     \<and> (case conn_pc c of
          PcStart \<Rightarrow> False
        | PcCoroutine \<Rightarrow> False
        | PcRead \<Rightarrow> False
        | PcUpstream \<Rightarrow> reply_response (CallUpstream (upstream_path c)) = resp
        | PcPost \<Rightarrow> (response_status_code c, response_payload c) = resp
        | PcRecheck \<Rightarrow> (response_status_code c, response_payload c) = resp
        | PcWrite \<Rightarrow> (response_status_code c, response_payload c) = resp
        | _ \<Rightarrow> True)"

lemma upstream_path_simps [simp]:
  "upstream_path (goto pc c) = upstream_path c" "upstream_path (emit es c) = upstream_path c"
  by (simp_all add: goto_def emit_def)

lemma decided_step: "decided resp c \<Longrightarrow> decided resp (conn_step ll checks c e)"
  by (cases "conn_pc c"; cases e) (auto simp: decided_def conn_step_def)

interpretation decision: machine "conn_step ll checks" "decided resp" for ll checks resp
  by unfold_locales (rule decided_step)

lemma decided_after_read:
  assumes "conn_pc c = PcRead" "conn_log c = []" "read_ec = None \<or> read_ec = Some eof"
    and "dispatch ll snapshot metrics_body request_view = Some reply"
  shows "decided (reply_response reply) (conn_step ll checks c (ReadDone request_view read_ec snapshot metrics_body))"
  using assms by (cases reply) (auto simp: conn_step_def after_read_def Let_def decided_def goto_def)

text \<open>The routes in force after some events: those published last.\<close>

definition routes_after :: "route_snapshot option \<Rightarrow> worker_event list \<Rightarrow> route_snapshot option" where
  "routes_after snapshot es = foldl (\<lambda>cur e. case e of Reload new \<Rightarrow> new | _ \<Rightarrow> cur) snapshot es"

lemma worker_step_routes:
  "worker_step ll t s e = Some s' \<Longrightarrow>
   route_config (ws_spine s') = routes_after (route_config (ws_spine s)) [e]"
  by (cases e)
     (auto simp: routes_after_def with_metrics_Some reload_route_config_def stop_spine_def
       dest!: resume_connection_frame resume_accept_frame)

lemma worker_run_routes:
  "run_option (worker_step ll t) s es = Some s' \<Longrightarrow>
   route_config (ws_spine s') = routes_after (route_config (ws_spine s)) es"
proof (induction es arbitrary: s)
  case (Cons e es)
  then obtain s1 where s1: "worker_step ll t s e = Some s1" "run_option (worker_step ll t) s1 es = Some s'"
    by (auto simp: bind_eq_Some_conv)
  with Cons.IH [OF s1(2)] worker_step_routes [OF s1(1)] show ?case by (simp add: routes_after_def)
qed (simp add: routes_after_def)

text \<open>
  C7 (functional): a request is answered by one version of the routes, the one published
  last before its read completed. Whatever is reloaded afterwards, and
  whatever the other connections do, everything the connection sends and records is the
  response decided on then.
\<close>

theorem reload_isolation:
  assumes "documented_llhttp ll" "starts_fresh t i sp r"
    and "guarded_run (worker_step ll t) (worker_guard t i) (new_worker sp r) es"
    and "run_option (worker_step ll t) (new_worker sp r) es = Some s"
    and "k < length (ws_conns s)" "conn_pc (ws_conns s ! k) = PcRead" "read_ec = None \<or> read_ec = Some eof"
    and "dispatch ll (routes_after (route_config sp) es) (metrics_text t request_view s) request_view = Some reply"
    and "run_option (worker_step ll t) s (Resume k (ReadResult request_view read_ec) # fs) = Some s'"
  shows "answers_only (reply_response reply) (conn_log (connection_at s' k))"
proof -
  let ?e = "Resume k (ReadResult request_view read_ec)"
  from assms(9) obtain s1 where
    s1: "worker_step ll t s ?e = Some s1" "run_option (worker_step ll t) s1 fs = Some s'"
    by (auto simp: bind_eq_Some_conv)
  have ok: "worker_ok t i s" by (rule worker_run_ok [OF assms(1-4)])
  have log: "conn_log (ws_conns s ! k) = []"
    using ok nth_mem [OF assms(5)] assms(6) by (auto simp: worker_ok_def conn_inv_def)
  have routes: "route_config (ws_spine s) = routes_after (route_config sp) es"
    using worker_run_routes [OF assms(4)] by (simp add: new_worker_def)
  have "decided (reply_response reply) (connection_at s1 k)"
    using worker_step_connection [OF s1(1), of k] assms(5) routes
      decided_after_read [OF assms(6) log assms(7,8)]
    by (simp add: connection_at_def delivered_to_def)
  then have "decided (reply_response reply) (connection_at s' k)"
    unfolding worker_run_connection [OF s1(2)] by (rule decision.inv_run)
  then show ?thesis by (simp add: decided_def)
qed

section \<open>Scraping\<close>

text \<open>
  A scrape counts itself. The body served for \<^verbatim>\<open>/metrics\<close> is the
  exposition of the registry in which this request and its bytes are already counted, but its
  response is not.
\<close>

theorem scrape_counts_itself:
  assumes "counts_in t i (ws_metrics s)"
    and "parse ll request_view empty_context (new_codec ll default_codec_config) = (kSuccess, ctx, c)"
    and "req_method ctx = ''GET''" "req_target ctx = kMetricsPath"
  shows "\<exists>r. record_request t (of_nat (length request_view)) (ws_metrics s) = Some r
     \<and> dispatch ll snapshot (metrics_text t request_view s) request_view =
         Some (Reply 200 (build_http_response 200 ''OK'' (render_prometheus r)
                ''text/plain; version=0.0.4; charset=utf-8''))
     \<and> total r Requests = total (ws_metrics s) Requests + 1
     \<and> total r BytesIn = total (ws_metrics s) BytesIn + of_nat (length request_view)
     \<and> (\<forall>d. d \<notin> {Requests, BytesIn} \<longrightarrow> total r d = total (ws_metrics s) d)"
proof -
  let ?call = "Request (of_nat (length request_view)) :: metric_call"
  have ok: "registry_ok (ws_metrics s)" "tls_worker_shard (ws_metrics s) t \<noteq> None"
    using assms(1) by (auto simp: counts_in_def)
  have "interleaves (map (Pair t) (call_adds ?call)) [(t, ?call)]" by (simp add: interleaves_def)
  from metrics_totals_aux [OF ok(1) this] ok(2) obtain r where
    r: "adds (map (Pair t) (call_adds ?call)) (ws_metrics s) = Some r"
      "\<And>d. total r d = total (ws_metrics s) d + contribution d ?call" by auto
  have rec: "record_request t (of_nat (length request_view)) (ws_metrics s) = Some r"
    using record_call_adds [of t ?call "ws_metrics s"] r(1) by simp
  then have "metrics_text t request_view s = render_prometheus r" by (simp add: metrics_text_def)
  with assms(2-4) rec r(2) show ?thesis by (auto simp: dispatch_def)
qed

section \<open>A null snapshot\<close>

text \<open>
  Nothing refuses to publish a null snapshot, and then the next request that is routed
  dereferences it.
\<close>

theorem null_reload_crashes:
  assumes "counts_in t i (ws_metrics s)" "k < length (ws_conns s)" "conn_pc (ws_conns s ! k) = PcRead"
    and "parse ll request_view empty_context (new_codec ll default_codec_config) = (kSuccess, ctx, c)"
    and "req_method ctx = ''GET''" "req_target ctx \<noteq> kMetricsPath"
  shows "\<exists>s'. run_option (worker_step ll t) s [Reload None, Resume k (ReadResult request_view None)] = Some s'
     \<and> conn_pc (ws_conns s' ! k) = PcCrashed"
proof -
  let ?s = "s\<lparr>ws_spine := reload_route_config None (ws_spine s)\<rparr>"
  let ?c = "conn_step ll (worker_checks ?s) (ws_conns s ! k) (delivered t ?s (ReadResult request_view None))"
  have crash: "conn_pc ?c = PcCrashed"
    using assms(3-6) by (simp add: conn_step_def after_read_def dispatch_def reload_route_config_def Let_def)
  obtain es where es: "conn_log ?c = conn_log (ws_conns s ! k) @ es" using conn_log_grows by blast
  obtain s' where s': "run_option (do_effect t) (?s\<lparr>ws_conns := (ws_conns s)[k := ?c]\<rparr>) es = Some s'"
    using do_effects_grown [of t i "?s\<lparr>ws_conns := (ws_conns s)[k := ?c]\<rparr>" es] assms(1) by auto
  then have "resume_connection ll t k (ReadResult request_view None) ?s = Some s'"
    using assms(2) es by (simp add: resume_connection_def Let_def)
  moreover have "conn_pc (ws_conns s' ! k) = PcCrashed"
    using do_effects_frame [OF s'] assms(2) crash by simp
  ultimately show ?thesis by simp
qed

section \<open>A worker's run\<close>

definition demo_spine :: spine where
  "demo_spine = \<lparr>spine_cfg = default_spine_config\<lparr>enable_executor_affinity_checks := False\<rparr>,
     acceptor_open = True, acceptor_port = 18080, accept_loops = 1, affinity_violations = 0,
     route_config = Some (default_snapshot sort_key (\<lambda>n. 2 * n + 1))\<rparr>"

lemma default_finalized: "is_finalized (Some (default_snapshot sort_key grow))"
  unfolding is_finalized_def default_snapshot_def using stable_sort.std_sort_axioms by blast

lemma demo_counts_in: "counts_in 7 0 demo_registry"
  by (simp add: counts_in_def demo_registry_simps)
     (simp add: demo_registry_def create_worker_shard_def bind_thread_local_shard_def new_registry_def)

lemma demo_starts: "starts_fresh 7 0 demo_spine demo_registry"
  by (simp add: starts_fresh_def demo_counts_in demo_registry_simps demo_spine_def default_finalized)

definition demo_events :: "worker_event list" where
  "demo_events = [AcceptResult (AcceptSocket True), Resume 0 (SocketChecked True)]"

lemma demo_guarded:
  "guarded_run (worker_step ll t) (worker_guard t i) s (demo_events @ [Reload (Some (default_snapshot sort_key grow))])"
  by (rule guarded_run_static) (auto simp: demo_events_def default_finalized)

lemma demo_guarded2: "guarded_run (worker_step ll t) (worker_guard t i) s demo_events"
  by (rule guarded_run_static) (auto simp: demo_events_def)

lemma demo_run:
  "\<exists>r. run_option (worker_step ll 7) (new_worker demo_spine demo_registry) demo_events =
     Some \<lparr>ws_spine = demo_spine, ws_accepting = True, ws_conns = [new_conn\<lparr>conn_pc := PcRead\<rparr>], ws_metrics = r\<rparr>
   \<and> record_accept 7 demo_registry = Some r \<and> counts_in 7 0 r"
proof -
  obtain r where r: "record_accept 7 demo_registry = Some r" "counts_in 7 0 r"
    using record_call_grown [OF demo_counts_in, of Accept] by auto
  then show ?thesis
    by (simp add: demo_events_def new_worker_def resume_accept_def demo_spine_def with_metrics_def
        default_spine_config_def resume_connection_def conn_step_def new_conn_def goto_def)
qed

theorem worker_isolates_connections_witness:
  "\<exists>s. run_option (worker_step (demo_ll ''GET'' 2) 7) (new_worker demo_spine demo_registry)
      (demo_events @ [Reload (Some (default_snapshot sort_key (\<lambda>n. n + 1)))]) = Some s"
  using worker_isolates_connections [OF demo_documented demo_starts demo_guarded] by blast

theorem worker_counters_witness:
  "\<exists>s shard. run_option (worker_step (demo_ll ''GET'' 2) 7) (new_worker demo_spine demo_registry) demo_events = Some s
     \<and> live_shards (ws_metrics s) 0 = Some shard \<and> unat (accepts_total shard) = 1"
proof -
  obtain s where s: "run_option (worker_step (demo_ll ''GET'' 2) 7) (new_worker demo_spine demo_registry) demo_events = Some s"
    "length (ws_conns s) = 1"
    using demo_run [of "demo_ll ''GET'' 2"] by auto
  then have "length (ws_conns s) < 2 ^ 64" by simp
  from worker_counters [OF demo_documented demo_starts demo_guarded2 s(1) this] s show ?thesis by auto
qed

theorem reload_isolation_witness:
  "\<exists>payload s'. run_option (worker_step (demo_ll ''POST'' 2) 7) (new_worker demo_spine demo_registry)
       (demo_events @ [Resume 0 (ReadResult ''/x'' None), Reload None, Resume 0 PostResumed]) = Some s'
     \<and> answers_only (405, payload) (conn_log (connection_at s' 0))"
proof -
  let ?ll = "demo_ll ''POST'' 2"
  obtain r where run: "run_option (worker_step ?ll 7) (new_worker demo_spine demo_registry) demo_events =
      Some \<lparr>ws_spine = demo_spine, ws_accepting = True, ws_conns = [new_conn\<lparr>conn_pc := PcRead\<rparr>], ws_metrics = r\<rparr>"
    (is "_ = Some ?s") and r: "counts_in 7 0 r"
    using demo_run [of ?ll] by blast
  obtain payload where d: "\<And>snapshot body. dispatch ?ll snapshot body ''/x'' = Some (Reply 405 payload)"
    using demo_parse [of "''POST''" 2 "''/x''"] by (auto simp: dispatch_def)
  obtain r' where r': "record_request 7 (of_nat (length ''/x'')) r = Some r'"
    using record_call_grown [OF r, of "Request 2"] by auto
  have "\<exists>s'. run_option (worker_step ?ll 7) ?s [Resume 0 (ReadResult ''/x'' None), Reload None, Resume 0 PostResumed] = Some s'"
    using r' d by (simp add: resume_connection_def conn_step_def after_read_def goto_def emit_def respond_def
        with_metrics_def new_conn_def)
  then obtain s' where s': "run_option (worker_step ?ll 7) ?s
      [Resume 0 (ReadResult ''/x'' None), Reload None, Resume 0 PostResumed] = Some s'" by blast
  have "answers_only (reply_response (Reply 405 payload)) (conn_log (connection_at s' 0))"
    by (rule reload_isolation [OF demo_documented demo_starts demo_guarded2 run _ _ _ d s']) simp_all
  with run s' show ?thesis by (auto simp: run_option_append)
qed

theorem scrape_counts_itself_witness:
  "\<exists>r. record_request 7 8 demo_registry = Some r \<and> total r Requests = 1"
proof -
  obtain ctx c where "parse (demo_ll ''GET'' 8) ''/metrics'' empty_context
      (new_codec (demo_ll ''GET'' 8) default_codec_config) = (kSuccess, ctx, c)"
    "req_method ctx = ''GET''" "req_target ctx = kMetricsPath"
    using demo_parse [of "''GET''" 8 "''/metrics''"] by (auto simp: str_sub_def kMetricsPath_def)
  from scrape_counts_itself [OF _ this, of 7 0 "new_worker demo_spine demo_registry"] demo_counts_in
  show ?thesis by (auto simp: new_worker_def demo_registry_simps)
qed

theorem null_reload_crashes_witness:
  "\<exists>s s'. run_option (worker_step (demo_ll ''GET'' 2) 7) (new_worker demo_spine demo_registry) demo_events = Some s
     \<and> run_option (worker_step (demo_ll ''GET'' 2) 7) s [Reload None, Resume 0 (ReadResult ''/x'' None)] = Some s'
     \<and> conn_pc (ws_conns s' ! 0) = PcCrashed"
proof -
  let ?ll = "demo_ll ''GET'' 2"
  obtain r where run: "run_option (worker_step ?ll 7) (new_worker demo_spine demo_registry) demo_events =
      Some \<lparr>ws_spine = demo_spine, ws_accepting = True, ws_conns = [new_conn\<lparr>conn_pc := PcRead\<rparr>], ws_metrics = r\<rparr>"
    (is "_ = Some ?s") and r: "counts_in 7 0 r"
    using demo_run [of ?ll] by blast
  obtain ctx c where p: "parse ?ll ''/x'' empty_context (new_codec ?ll default_codec_config) = (kSuccess, ctx, c)"
    "req_method ctx = ''GET''" "req_target ctx \<noteq> kMetricsPath"
    using demo_parse [of "''GET''" 2 "''/x''"] by (auto simp: str_sub_def kMetricsPath_def)
  have "counts_in 7 0 (ws_metrics ?s)" "0 < length (ws_conns ?s)" "conn_pc (ws_conns ?s ! 0) = PcRead"
    using r by simp_all
  from null_reload_crashes [OF this p] run show ?thesis by blast
qed

end
