(* ===== verification/Gateway.thy ===== *)
theory Gateway imports Spine begin

text \<open>
  \<^verbatim>\<open>src/runtime/gateway_runtime.cpp\<close> and \<^verbatim>\<open>src/app/main.cpp\<close>: the workers, each an
  \<^verbatim>\<open>io_context\<close>, a spine, a metrics shard and a thread; starting them with rollback,
  stopping them, destroying them. What the operating system answers is an argument; an
  exception is a value of \<open>gateway_error\<close>. A join that would never return and the call of
  \<^verbatim>\<open>std::terminate\<close> are the value \<open>None\<close>.
\<close>

section \<open>State\<close>

datatype gateway_error =
    WorkerCountZero
  | PortNotFixed
  | SpineFailed startup_error
  | TooManyWorkers
  | ThreadFailed nat
  | CoreBindingFailed nat

text \<open>
  \<open>thread_joinable\<close>: the worker's \<^verbatim>\<open>std::thread\<close> has been created and not joined.
  \<open>io_stopped\<close>: \<^verbatim>\<open>stop\<close> was called on the \<^verbatim>\<open>io_context\<close>; nothing ever restarts it.
\<close>

record worker =
  io_stopped :: bool
  worker_spine :: spine
  metrics_shard :: nat
  thread_joinable :: bool

record gateway =
  gw_config :: spine_config
  workers :: "worker list"
  started :: bool

section \<open>Construction\<close>

text \<open>
  The loop of the constructor. When a spine cannot be built, the workers built so far are
  destroyed with the exception, and with them their shards.
\<close>

fun build_workers ::
  "((rule_ptr \<Rightarrow> int) \<Rightarrow> rule_ptr list \<Rightarrow> rule_ptr list) \<Rightarrow> (nat \<Rightarrow> nat) \<Rightarrow> listen_env list \<Rightarrow> spine_config
     \<Rightarrow> worker list \<Rightarrow> metrics_registry \<Rightarrow> (gateway_error + worker list) \<times> metrics_registry"
where
  "build_workers srt grow [] cfg ws r = (Inr ws, r)"
| "build_workers srt grow (env # envs) cfg ws r =
     (case new_spine srt grow env cfg of
        Inl e \<Rightarrow> (Inl (SpineFailed e), foldl (\<lambda>r w. drop_shard (metrics_shard w) r) r ws)
      | Inr s \<Rightarrow>
          (case create_worker_shard r of
             (shard, r') \<Rightarrow>
               build_workers srt grow envs cfg
                 (ws @ [\<lparr>io_stopped = False, worker_spine = s, metrics_shard = shard,
                         thread_joinable = False\<rparr>]) r'))"

text \<open>\<open>envs\<close> holds the answers for each of the \<^verbatim>\<open>worker_count\<close> spines.\<close>

definition new_gateway ::
  "((rule_ptr \<Rightarrow> int) \<Rightarrow> rule_ptr list \<Rightarrow> rule_ptr list) \<Rightarrow> (nat \<Rightarrow> nat) \<Rightarrow> listen_env list \<Rightarrow> spine_config
     \<Rightarrow> metrics_registry \<Rightarrow> (gateway_error + gateway) \<times> metrics_registry"
where
  "new_gateway srt grow envs cfg r =
     (let worker_count = length envs
      in if worker_count = 0 then (Inl WorkerCountZero, r)
         else if worker_count > 1 \<and> listen_port cfg = 0 then (Inl PortNotFixed, r)
         else case build_workers srt grow envs cfg [] r of
                (Inl e, r') \<Rightarrow> (Inl e, r')
              | (Inr ws, r') \<Rightarrow> (Inr \<lparr>gw_config = cfg, workers = ws, started = False\<rparr>, r'))"

section \<open>Starting and stopping\<close>

definition stop_worker_spine :: "worker \<Rightarrow> worker" where
  "stop_worker_spine w = w\<lparr>worker_spine := stop_spine (worker_spine w)\<rparr>"

definition stop_worker_io :: "worker \<Rightarrow> worker" where
  "stop_worker_io w = w\<lparr>io_stopped := True\<rparr>"

text \<open>
  Joining waits for \<^verbatim>\<open>io->run()\<close> to return, which the pending accept prevents unless the
  context was stopped.
\<close>

definition join_worker :: "worker \<Rightarrow> worker option" where
  "join_worker w =
     (if thread_joinable w then (if io_stopped w then Some (w\<lparr>thread_joinable := False\<rparr>) else None)
      else Some w)"

fun join_all :: "worker list \<Rightarrow> worker list option" where
  "join_all [] = Some []"
| "join_all (w # ws) =
     (case join_worker w of
        None \<Rightarrow> None
      | Some w' \<Rightarrow> (case join_all ws of None \<Rightarrow> None | Some ws' \<Rightarrow> Some (w' # ws')))"

text \<open>The three loops \<^verbatim>\<open>stop\<close> and the handler of \<^verbatim>\<open>start\<close> have in common.\<close>

definition shut_down :: "worker list \<Rightarrow> worker list option" where
  "shut_down ws = join_all (map stop_worker_io (map stop_worker_spine ws))"

text \<open>
  The loop of \<^verbatim>\<open>start\<close> from worker \<open>i\<close> on: start the spine, create the thread, bind it to its
  core. \<open>thread_ok\<close> and \<open>core_ok\<close> are the operating system's answers.
\<close>

fun start_workers ::
  "(nat \<Rightarrow> bool) \<Rightarrow> (nat \<Rightarrow> bool) \<Rightarrow> nat \<Rightarrow> worker list \<Rightarrow> worker list \<times> gateway_error option"
where
  "start_workers thread_ok core_ok i [] = ([], None)"
| "start_workers thread_ok core_ok i (w # ws) =
     (let w1 = w\<lparr>worker_spine := start_spine (worker_spine w)\<rparr>
      in if \<not> thread_ok i then (w1 # ws, Some (ThreadFailed i))
         else
           let w2 = w1\<lparr>thread_joinable := True\<rparr>
           in if \<not> core_ok i then (w2 # ws, Some (CoreBindingFailed i))
              else case start_workers thread_ok core_ok (Suc i) ws of
                     (ws', err) \<Rightarrow> (w2 # ws', err))"

text \<open>
  Binding a thread to its core: a \<^verbatim>\<open>cpu_set_t\<close> has 1024 bits, and \<^verbatim>\<open>CPU_SET\<close> ignores a number
  beyond them. \<open>setaffinity\<close> is \<^verbatim>\<open>pthread_setaffinity_np\<close>; the result is the text of the
  exception, if one is thrown.
\<close>

definition bind_thread_to_core_or_throw ::
  "(nat set \<Rightarrow> int) \<Rightarrow> (int \<Rightarrow> string) \<Rightarrow> nat \<Rightarrow> string option"
where
  "bind_thread_to_core_or_throw setaffinity strerror core_index =
     (let cpu_set = (if core_index < 1024 then {core_index} else {});
          rc = setaffinity cpu_set
      in if rc \<noteq> 0
         then Some (''pthread_setaffinity_np failed for core '' @ to_dec core_index @ '': '' @ strerror rc)
         else None)"

definition start_gateway ::
  "nat \<Rightarrow> (nat \<Rightarrow> bool) \<Rightarrow> (nat \<Rightarrow> bool) \<Rightarrow> gateway \<Rightarrow> (gateway_error option \<times> gateway) option"
where
  "start_gateway detected_cores thread_ok core_ok g =
     (if started g then Some (None, g)
      else
        let hardware_cores = (if detected_cores = 0 then 1 else detected_cores);
            (ws, err) = (if length (workers g) > hardware_cores then (workers g, Some TooManyWorkers)
                         else start_workers thread_ok core_ok 0 (workers g))
        in case err of
             None \<Rightarrow> Some (None, g\<lparr>workers := ws, started := True\<rparr>)
           | Some e \<Rightarrow>
               (case shut_down ws of
                  None \<Rightarrow> None
                | Some ws' \<Rightarrow> Some (Some e, g\<lparr>workers := ws'\<rparr>)))"

definition stop_gateway :: "gateway \<Rightarrow> gateway option" where
  "stop_gateway g =
     (if \<not> started g then Some g
      else case shut_down (workers g) of
             None \<Rightarrow> None
           | Some ws \<Rightarrow> Some (g\<lparr>workers := ws, started := False\<rparr>))"

text \<open>
  The destructor stops the gateway and destroys the members: a joinable thread would call
  \<^verbatim>\<open>std::terminate\<close>.
\<close>

definition destroy_gateway :: "gateway \<Rightarrow> unit option" where
  "destroy_gateway g =
     (case stop_gateway g of
        None \<Rightarrow> None
      | Some g' \<Rightarrow> if list_ex thread_joinable (workers g') then None else Some ())"

definition gateway_worker_count :: "gateway \<Rightarrow> nat" where
  "gateway_worker_count g = length (workers g)"

text \<open>The outer \<open>None\<close> of \<^verbatim>\<open>local_port\<close> is the exception of a closed acceptor.\<close>

definition gateway_local_port :: "gateway \<Rightarrow> 16 word option" where
  "gateway_local_port g =
     (case workers g of [] \<Rightarrow> Some 0 | w # _ \<Rightarrow> spine_local_port (worker_spine w))"

definition total_affinity_violation_count :: "gateway \<Rightarrow> 64 word" where
  "total_affinity_violation_count g =
     foldl (\<lambda>total w. total + affinity_violation_count (worker_spine w)) 0 (workers g)"

section \<open>The program\<close>

definition main_config :: spine_config where
  "main_config = default_spine_config\<lparr>listen_address := ''0.0.0.0'', listen_port := 18080,
     enable_reuse_port := True\<rparr>"

definition main_workers :: "nat \<Rightarrow> nat" where
  "main_workers detected_cores = max 1 detected_cores"

text \<open>
  \<^verbatim>\<open>main\<close> up to the signal loop: the running gateway, or the exception that makes it return 1.
\<close>

definition main_start ::
  "((rule_ptr \<Rightarrow> int) \<Rightarrow> rule_ptr list \<Rightarrow> rule_ptr list) \<Rightarrow> (nat \<Rightarrow> nat) \<Rightarrow> nat \<Rightarrow> (nat \<Rightarrow> listen_env)
     \<Rightarrow> (nat \<Rightarrow> bool) \<Rightarrow> (nat \<Rightarrow> bool) \<Rightarrow> (gateway_error + gateway) option"
where
  "main_start srt grow detected_cores env thread_ok core_ok =
     (case fst (new_gateway srt grow (map env [0..<main_workers detected_cores]) main_config new_registry) of
        Inl e \<Rightarrow> Some (Inl e)
      | Inr g \<Rightarrow>
          (case start_gateway detected_cores thread_ok core_ok g of
             None \<Rightarrow> None
           | Some (Some e, g') \<Rightarrow> Some (Inl e)
           | Some (None, g') \<Rightarrow> Some (Inr g')))"

text \<open>The exit code: the signal handler stops the gateway, and the destructor runs either way.\<close>

definition main_exit :: "gateway_error + gateway \<Rightarrow> int option" where
  "main_exit r =
     (case r of
        Inl e \<Rightarrow> Some 1
      | Inr g \<Rightarrow>
          (case stop_gateway g of
             None \<Rightarrow> None
           | Some g' \<Rightarrow> (case destroy_gateway g' of None \<Rightarrow> None | Some _ \<Rightarrow> Some 0)))"

definition kVersion :: string where
  "kVersion = ''0.1.0''"

text \<open>What \<^verbatim>\<open>main\<close> prints: the banner on standard output, or what went wrong on standard error.\<close>

definition main_banner :: "nat \<Rightarrow> string" where
  "main_banner worker_count =
     ''netp2 gateway phase-b-step1 '' @ kVersion @ '' workers='' @ to_dec worker_count
     @ '' listening on '' @ listen_address main_config @ '':'' @ to_dec (unat (listen_port main_config))
     @ newline"

definition main_output :: "(gateway_error \<Rightarrow> string) \<Rightarrow> nat \<Rightarrow> gateway_error + gateway \<Rightarrow> string \<times> string" where
  "main_output what detected_cores r =
     (case r of
        Inl e \<Rightarrow> ([], ''fatal: '' @ what e @ newline)
      | Inr g \<Rightarrow> (main_banner (main_workers detected_cores), []))"

section \<open>Shutting down\<close>

definition shut_worker :: "worker \<Rightarrow> worker" where
  "shut_worker w = w\<lparr>io_stopped := True, worker_spine := stop_spine (worker_spine w), thread_joinable := False\<rparr>"

lemma join_worker_stopped:
  "io_stopped w \<Longrightarrow> join_worker w = Some (w\<lparr>thread_joinable := False\<rparr>)"
  by (cases w) (simp add: join_worker_def)

lemma join_all_stopped:
  "\<forall>w\<in>set ws. io_stopped w \<Longrightarrow> join_all ws = Some (map (\<lambda>w. w\<lparr>thread_joinable := False\<rparr>) ws)"
  by (induction ws) (simp_all add: join_worker_stopped)

lemma shut_down_eq: "shut_down ws = Some (map shut_worker ws)"
  by (simp add: shut_down_def join_all_stopped stop_worker_io_def stop_worker_spine_def shut_worker_def)

lemma stop_gateway_eq:
  "stop_gateway g =
     Some (if started g then g\<lparr>workers := map shut_worker (workers g), started := False\<rparr> else g)"
  by (simp add: stop_gateway_def shut_down_eq)

lemma start_workers_length [simp]:
  "length (fst (start_workers thread_ok core_ok i ws)) = length ws"
  by (induction ws arbitrary: i) (simp_all add: Let_def case_prod_unfold)

lemma start_workers_ok:
  "snd (start_workers thread_ok core_ok i ws) = None \<longleftrightarrow> (\<forall>j<length ws. thread_ok (i + j) \<and> core_ok (i + j))"
proof (induction ws arbitrary: i)
  case (Cons w ws)
  have "(\<forall>j<Suc (length ws). P (i + j)) \<longleftrightarrow> P i \<and> (\<forall>j<length ws. P (Suc i + j))" for P
    by (auto simp: less_Suc_eq_0_disj)
  from this [of "\<lambda>j. thread_ok j \<and> core_ok j"] Cons.IH [of "Suc i"] show ?case
    by (simp add: Let_def case_prod_unfold)
qed simp

definition launch_worker :: "worker \<Rightarrow> worker" where
  "launch_worker w = w\<lparr>worker_spine := start_spine (worker_spine w), thread_joinable := True\<rparr>"

lemma start_workers_all:
  "snd (start_workers thread_ok core_ok i ws) = None \<Longrightarrow>
   fst (start_workers thread_ok core_ok i ws) = map launch_worker ws"
  by (induction ws arbitrary: i)
     (auto simp: Let_def case_prod_unfold launch_worker_def split: if_splits)

definition enough_cores :: "nat \<Rightarrow> gateway \<Rightarrow> bool" where
  "enough_cores detected_cores g \<longleftrightarrow> length (workers g) \<le> max 1 detected_cores"

definition start_accepted :: "nat \<Rightarrow> (nat \<Rightarrow> bool) \<Rightarrow> (nat \<Rightarrow> bool) \<Rightarrow> gateway \<Rightarrow> bool" where
  "start_accepted detected_cores thread_ok core_ok g \<longleftrightarrow>
     enough_cores detected_cores g \<and> (\<forall>i<length (workers g). thread_ok i \<and> core_ok i)"

lemma start_gateway_cases:
  assumes "\<not> started g"
  shows "if start_accepted detected_cores thread_ok core_ok g
    then start_gateway detected_cores thread_ok core_ok g =
           Some (None, g\<lparr>workers := map launch_worker (workers g), started := True\<rparr>)
    else \<exists>e ws. start_gateway detected_cores thread_ok core_ok g = Some (Some e, g\<lparr>workers := map shut_worker ws\<rparr>)
           \<and> length ws = length (workers g)"
proof (cases "enough_cores detected_cores g")
  case False
  with assms show ?thesis
    by (auto simp: start_gateway_def start_accepted_def enough_cores_def shut_down_eq Let_def)
next
  case True
  then have cores: "\<not> (if detected_cores = 0 then 1 else detected_cores) < length (workers g)"
    by (auto simp: enough_cores_def)
  obtain ws err where r: "start_workers thread_ok core_ok 0 (workers g) = (ws, err)" by fastforce
  have len: "length ws = length (workers g)" using start_workers_length [of thread_ok core_ok 0 "workers g"] r by simp
  have ok: "err = None \<longleftrightarrow> start_accepted detected_cores thread_ok core_ok g"
    using start_workers_ok [of thread_ok core_ok 0 "workers g"] r True by (simp add: start_accepted_def)
  show ?thesis
  proof (cases err)
    case None
    with r start_workers_all [of thread_ok core_ok 0 "workers g"] have "ws = map launch_worker (workers g)" by simp
    with None ok r cores assms show ?thesis by (simp add: start_gateway_def Let_def)
  next
    case (Some e)
    with ok r cores assms len show ?thesis by (auto simp: start_gateway_def Let_def shut_down_eq)
  qed
qed

section \<open>Threads\<close>

definition gateway_ok :: "gateway \<Rightarrow> bool" where
  [inv_defs]: "gateway_ok g \<longleftrightarrow> (\<forall>w\<in>set (workers g). thread_joinable w = started g)"

datatype gateway_op = StartGateway nat "nat \<Rightarrow> bool" "nat \<Rightarrow> bool" | StopGateway

fun gateway_run :: "gateway \<Rightarrow> gateway_op list \<Rightarrow> gateway option" where
  "gateway_run g [] = Some g"
| "gateway_run g (StartGateway cores thread_ok core_ok # ops) =
     (case start_gateway cores thread_ok core_ok g of None \<Rightarrow> None | Some (_, g') \<Rightarrow> gateway_run g' ops)"
| "gateway_run g (StopGateway # ops) =
     (case stop_gateway g of None \<Rightarrow> None | Some g' \<Rightarrow> gateway_run g' ops)"

lemma start_gateway_ok:
  assumes "gateway_ok g"
  shows "\<exists>err g'. start_gateway cores thread_ok core_ok g = Some (err, g') \<and> gateway_ok g'
     \<and> (err = None \<longrightarrow> started g') \<and> (err \<noteq> None \<longrightarrow> \<not> started g')"
proof (cases "started g")
  case True
  with assms show ?thesis by (simp add: start_gateway_def)
next
  case False
  with start_gateway_cases [OF False, of cores thread_ok core_ok] show ?thesis
    by (auto simp: gateway_ok_def shut_worker_def launch_worker_def split: if_splits)
qed

lemma stop_gateway_ok: "gateway_ok g \<Longrightarrow> \<exists>g'. stop_gateway g = Some g' \<and> gateway_ok g' \<and> \<not> started g'"
  by (auto simp: stop_gateway_eq gateway_ok_def shut_worker_def)

lemma destroy_gateway_ok: "gateway_ok g \<Longrightarrow> destroy_gateway g = Some ()"
  using stop_gateway_ok [of g] by (auto simp: destroy_gateway_def gateway_ok_def list_ex_iff)

lemma gateway_run_ok: "gateway_ok g \<Longrightarrow> \<exists>g'. gateway_run g ops = Some g' \<and> gateway_ok g'"
proof (induction ops arbitrary: g)
  case (Cons op ops)
  show ?case
  proof (cases op)
    case (StartGateway cores thread_ok core_ok)
    with Cons start_gateway_ok [OF Cons.prems, of cores thread_ok core_ok] show ?thesis by auto
  next
    case StopGateway
    with Cons stop_gateway_ok [OF Cons.prems] show ?thesis by auto
  qed
qed simp

section \<open>Construction\<close>

definition env_ok :: "spine_config \<Rightarrow> listen_env \<Rightarrow> bool" where
  "env_ok cfg env \<longleftrightarrow> address_valid env \<and> open_ok env \<and> reuse_address_ok env
     \<and> (enable_reuse_port cfg \<longrightarrow> reuse_port_supported env \<and> reuse_port_ok env)
     \<and> bind_ok env \<and> listen_ok env"

definition fresh_spine ::
  "((rule_ptr \<Rightarrow> int) \<Rightarrow> rule_ptr list \<Rightarrow> rule_ptr list) \<Rightarrow> (nat \<Rightarrow> nat) \<Rightarrow> listen_env \<Rightarrow> spine_config \<Rightarrow> spine"
where
  "fresh_spine srt grow env cfg = \<lparr>spine_cfg = cfg, acceptor_open = True, acceptor_port = bound_port env,
     accept_loops = 0, affinity_violations = 0, route_config = Some (default_snapshot srt grow)\<rparr>"

lemma new_spine_cases:
  "if env_ok cfg env then new_spine srt grow env cfg = Inr (fresh_spine srt grow env cfg)
   else \<exists>e. new_spine srt grow env cfg = Inl e"
  by (auto simp: new_spine_def env_ok_def fresh_spine_def)

definition fresh_workers ::
  "((rule_ptr \<Rightarrow> int) \<Rightarrow> rule_ptr list \<Rightarrow> rule_ptr list) \<Rightarrow> (nat \<Rightarrow> nat) \<Rightarrow> listen_env list \<Rightarrow> spine_config
     \<Rightarrow> nat \<Rightarrow> worker list"
where
  "fresh_workers srt grow envs cfg n =
     map (\<lambda>(env, i). \<lparr>io_stopped = False, worker_spine = fresh_spine srt grow env cfg, metrics_shard = i,
                      thread_joinable = False\<rparr>) (zip envs [n..<n + length envs])"

lemma fresh_workers_Cons:
  "fresh_workers srt grow (env # envs) cfg n =
     \<lparr>io_stopped = False, worker_spine = fresh_spine srt grow env cfg, metrics_shard = n,
      thread_joinable = False\<rparr> # fresh_workers srt grow envs cfg (Suc n)"
  by (simp add: fresh_workers_def upt_conv_Cons del: upt_Suc)

lemma build_workers_ok:
  "\<forall>env\<in>set envs. env_ok cfg env \<Longrightarrow>
   fst (build_workers srt grow envs cfg ws r) = Inr (ws @ fresh_workers srt grow envs cfg (next_shard r))"
proof (induction envs arbitrary: ws r)
  case Nil
  then show ?case by (simp add: fresh_workers_def)
next
  case (Cons env envs)
  with new_spine_cases [of cfg env srt grow] show ?case
    by (simp add: create_worker_shard_def fresh_workers_Cons)
qed

lemma foldl_drop_shards:
  "live_shards (foldl (\<lambda>r w. drop_shard (metrics_shard w) r) r ws) i =
     (if i \<in> metrics_shard ` set ws then None else live_shards r i)"
  by (induction ws arbitrary: r) (auto simp: drop_shard_def)

text \<open>A constructor that fails leaves no live shard behind.\<close>

lemma build_workers_failed:
  assumes "fst (build_workers srt grow envs cfg ws r) = Inl e"
    and "\<forall>i. next_shard r \<le> i \<longrightarrow> live_shards r i = None"
    and "metrics_shard ` set ws \<subseteq> {..<next_shard r}"
  shows "live_shards (snd (build_workers srt grow envs cfg ws r)) i =
     (if i \<in> metrics_shard ` set ws then None else live_shards r i)"
  using assms
proof (induction envs arbitrary: ws r)
  case (Cons env envs)
  show ?case
  proof (cases "new_spine srt grow env cfg")
    case (Inl e')
    then show ?thesis by (simp add: foldl_drop_shards)
  next
    case (Inr s)
    let ?w = "\<lparr>io_stopped = False, worker_spine = s, metrics_shard = next_shard r, thread_joinable = False\<rparr>"
    let ?r = "snd (create_worker_shard r)"
    have step: "build_workers srt grow (env # envs) cfg ws r = build_workers srt grow envs cfg (ws @ [?w]) ?r"
      by (simp add: Inr create_worker_shard_def)
    have "live_shards (snd (build_workers srt grow envs cfg (ws @ [?w]) ?r)) i =
        (if i \<in> metrics_shard ` set (ws @ [?w]) then None else live_shards ?r i)"
    proof (rule Cons.IH)
      show "fst (build_workers srt grow envs cfg (ws @ [?w]) ?r) = Inl e" using Cons.prems(1) step by simp
    qed (use Cons.prems(2,3) in \<open>auto simp: create_worker_shard_def\<close>)
    with step Cons.prems(2) show ?thesis by (auto simp: create_worker_shard_def)
  qed
qed simp

lemma build_workers_error:
  "\<exists>env\<in>set envs. \<not> env_ok cfg env \<Longrightarrow> \<exists>e. fst (build_workers srt grow envs cfg ws r) = Inl (SpineFailed e)"
proof (induction envs arbitrary: ws r)
  case (Cons env envs)
  show ?case
  proof (cases "env_ok cfg env")
    case True
    with Cons new_spine_cases [of cfg env srt grow] show ?thesis
      by (auto simp: create_worker_shard_def)
  next
    case False
    with new_spine_cases [of cfg env srt grow] show ?thesis by auto
  qed
qed simp

lemma new_gateway_cases:
  assumes "\<forall>i. next_shard r \<le> i \<longrightarrow> live_shards r i = None"
  shows "(envs = [] \<longrightarrow> fst (new_gateway srt grow envs cfg r) = Inl WorkerCountZero)
    \<and> (length envs > 1 \<and> listen_port cfg = 0 \<longrightarrow> fst (new_gateway srt grow envs cfg r) = Inl PortNotFixed)
    \<and> (envs \<noteq> [] \<and> \<not> (length envs > 1 \<and> listen_port cfg = 0) \<longrightarrow>
        (if list_all (env_ok cfg) envs
         then fst (new_gateway srt grow envs cfg r) =
           Inr \<lparr>gw_config = cfg, workers = fresh_workers srt grow envs cfg (next_shard r), started = False\<rparr>
         else (\<exists>e. fst (new_gateway srt grow envs cfg r) = Inl (SpineFailed e))
           \<and> live_shards (snd (new_gateway srt grow envs cfg r)) = live_shards r))"
proof (cases "envs = [] \<or> length envs > 1 \<and> listen_port cfg = 0")
  case True
  then show ?thesis by (auto simp: new_gateway_def)
next
  case False
  have run: "new_gateway srt grow envs cfg r =
      (case build_workers srt grow envs cfg [] r of
         (Inl e, r') \<Rightarrow> (Inl e, r')
       | (Inr ws, r') \<Rightarrow> (Inr \<lparr>gw_config = cfg, workers = ws, started = False\<rparr>, r'))"
    using False by (auto simp: new_gateway_def Let_def)
  show ?thesis
  proof (cases "list_all (env_ok cfg) envs")
    case True
    then have "fst (build_workers srt grow envs cfg [] r) = Inr (fresh_workers srt grow envs cfg (next_shard r))"
      using build_workers_ok [of envs cfg srt grow "[]" r] by (simp add: list_all_iff)
    with False True run show ?thesis by (auto split: prod.splits)
  next
    case not_ok: False
    then obtain e where e: "fst (build_workers srt grow envs cfg [] r) = Inl (SpineFailed e)"
      using build_workers_error [of envs cfg srt grow "[]" r] by (auto simp: list_all_iff)
    have "live_shards (snd (build_workers srt grow envs cfg [] r)) = live_shards r"
      using build_workers_failed [OF e assms] by (intro ext) simp
    with False not_ok run e show ?thesis by (auto split: prod.splits)
  qed
qed

text \<open>
  C33 (error): the constructor refuses zero workers, and several workers on an
  unspecified port; otherwise it succeeds exactly when every worker can listen, with one
  worker per request, each with its own shard, the default routes and no thread; when it
  fails no metrics shard it created stays alive.
\<close>

theorem new_gateway_correct:
  assumes "\<forall>i. next_shard r \<le> i \<longrightarrow> live_shards r i = None"
  shows "(envs = [] \<longrightarrow> fst (new_gateway srt grow envs cfg r) = Inl WorkerCountZero)
    \<and> (length envs > 1 \<and> listen_port cfg = 0 \<longrightarrow> fst (new_gateway srt grow envs cfg r) = Inl PortNotFixed)
    \<and> (envs \<noteq> [] \<and> \<not> (length envs > 1 \<and> listen_port cfg = 0) \<longrightarrow>
        (if list_all (env_ok cfg) envs
         then fst (new_gateway srt grow envs cfg r) =
           Inr \<lparr>gw_config = cfg, workers = fresh_workers srt grow envs cfg (next_shard r), started = False\<rparr>
         else (\<exists>e. fst (new_gateway srt grow envs cfg r) = Inl (SpineFailed e))
           \<and> live_shards (snd (new_gateway srt grow envs cfg r)) = live_shards r))"
  using assms by (rule new_gateway_cases)

definition ok_env :: listen_env where
  "ok_env = \<lparr>address_valid = True, open_ok = True, reuse_address_ok = True, reuse_port_supported = True,
     reuse_port_ok = True, bind_ok = True, listen_ok = True, bound_port = 18080\<rparr>"

lemma ok_env_ok: "env_ok cfg ok_env"
  by (simp add: env_ok_def ok_env_def)

theorem new_gateway_correct_witness:
  "fst (new_gateway sort_key (\<lambda>n. 2 * n + 1) [ok_env, ok_env\<lparr>bind_ok := False\<rparr>] main_config new_registry)
     \<in> range (Inl \<circ> SpineFailed)"
proof -
  have "\<not> list_all (env_ok main_config) [ok_env, ok_env\<lparr>bind_ok := False\<rparr>]"
    by (simp add: env_ok_def)
  moreover have "listen_port main_config \<noteq> 0" by (simp add: main_config_def)
  moreover have "\<forall>i. next_shard new_registry \<le> i \<longrightarrow> live_shards new_registry i = None"
    by (simp add: new_registry_def)
  ultimately show ?thesis
    using new_gateway_correct [of new_registry "[ok_env, ok_env\<lparr>bind_ok := False\<rparr>]" sort_key
        "\<lambda>n. 2 * n + 1" main_config] by auto
qed

lemma new_gateway_ok:
  assumes "fst (new_gateway srt grow envs cfg r) = Inr g"
  shows "gateway_ok g \<and> \<not> started g \<and> length (workers g) = length envs"
proof -
  have "fst (build_workers srt grow envs cfg ws r) = Inr ws' \<Longrightarrow> \<forall>w\<in>set ws. \<not> thread_joinable w \<Longrightarrow>
      length ws' = length ws + length envs \<and> (\<forall>w\<in>set ws'. \<not> thread_joinable w)" for ws ws'
    by (induction envs arbitrary: ws r) (auto split: sum.splits prod.splits)
  from this [of "[]"] assms show ?thesis
    by (auto simp: new_gateway_def gateway_ok_def Let_def split: if_splits prod.splits sum.splits)
qed

section \<open>The gateway's life\<close>

text \<open>
  After construction, any sequence of starts and stops, whatever fails in them,
  returns: no join waits for a thread whose context still runs; and the destructor then
  finds no thread to terminate the program for.
\<close>

theorem gateway_lifecycle:
  assumes "fst (new_gateway srt grow envs cfg r) = Inr g"
  shows "\<exists>g'. gateway_run g ops = Some g' \<and> destroy_gateway g' = Some ()"
  using gateway_run_ok [of g ops] new_gateway_ok [OF assms] destroy_gateway_ok by blast

definition demo_gateway :: gateway where
  "demo_gateway = \<lparr>gw_config = main_config,
     workers = fresh_workers sort_key (\<lambda>n. 2 * n + 1) [ok_env, ok_env] main_config 0, started = False\<rparr>"

lemma demo_gateway_new:
  "fst (new_gateway sort_key (\<lambda>n. 2 * n + 1) [ok_env, ok_env] main_config new_registry) = Inr demo_gateway"
proof -
  have "listen_port main_config \<noteq> 0" by (simp add: main_config_def)
  moreover have "\<forall>i. next_shard new_registry \<le> i \<longrightarrow> live_shards new_registry i = None"
    by (simp add: new_registry_def)
  ultimately show ?thesis
    using new_gateway_cases [of new_registry "[ok_env, ok_env]" sort_key "\<lambda>n. 2 * n + 1" main_config]
    by (simp add: ok_env_ok demo_gateway_def) (simp add: new_registry_def)
qed

theorem gateway_lifecycle_witness:
  "\<exists>g'. gateway_run demo_gateway
      [StartGateway 2 (\<lambda>_. True) (\<lambda>i. i < 1), StopGateway, StartGateway 2 (\<lambda>_. True) (\<lambda>_. True)] = Some g'
    \<and> destroy_gateway g' = Some ()"
  by (rule gateway_lifecycle [OF demo_gateway_new])

text \<open>A worker that answers connections: its thread runs an accept loop on an open acceptor.\<close>

definition serving :: "worker \<Rightarrow> bool" where
  "serving w \<longleftrightarrow> thread_joinable w \<and> \<not> io_stopped w \<and> acceptor_open (worker_spine w)
     \<and> 0 < accept_loops (worker_spine w)"

definition untouched :: "worker \<Rightarrow> bool" where
  "untouched w \<longleftrightarrow> \<not> io_stopped w \<and> acceptor_open (worker_spine w)"

definition shut :: "worker \<Rightarrow> bool" where
  "shut w \<longleftrightarrow> \<not> thread_joinable w \<and> io_stopped w \<and> \<not> acceptor_open (worker_spine w)"

lemma launch_serving: "untouched w \<Longrightarrow> serving (launch_worker w)"
  by (simp add: untouched_def serving_def launch_worker_def start_spine_def)

lemma shut_shut_worker: "shut (shut_worker w)"
  by (simp add: shut_def shut_worker_def stop_spine_def)

text \<open>
  C24 (functional): starting a newly built gateway, none of whose workers has been started or
  stopped before, succeeds exactly when it has no more workers than cores and every thread can be
  created and bound to its core; then every worker serves. Otherwise the start is rolled back:
  every thread is joined, every acceptor closed, every context stopped.
\<close>

theorem start_gateway_correct:
  assumes "\<not> started g" "\<forall>w\<in>set (workers g). untouched w"
  shows "\<exists>err g'. start_gateway cores thread_ok core_ok g = Some (err, g')
    \<and> (err = None \<longleftrightarrow> length (workers g) \<le> max 1 cores \<and> (\<forall>i<length (workers g). thread_ok i \<and> core_ok i))
    \<and> (if err = None then started g' \<and> list_all serving (workers g')
       else \<not> started g' \<and> list_all shut (workers g'))
    \<and> length (workers g') = length (workers g)"
proof (cases "start_accepted cores thread_ok core_ok g")
  case True
  with start_gateway_cases [OF assms(1), of cores thread_ok core_ok] assms(2) show ?thesis
    by (simp add: list_all_iff launch_serving)
       (simp add: start_accepted_def enough_cores_def)
next
  case False
  with start_gateway_cases [OF assms(1), of cores thread_ok core_ok] obtain e ws where
    s: "start_gateway cores thread_ok core_ok g = Some (Some e, g\<lparr>workers := map shut_worker ws\<rparr>)"
      "length ws = length (workers g)" by auto
  have "\<not> (length (workers g) \<le> max 1 cores \<and> (\<forall>i<length (workers g). thread_ok i \<and> core_ok i))"
    using False by (simp add: start_accepted_def enough_cores_def)
  with s assms(1) show ?thesis by (auto simp: list_all_iff shut_shut_worker)
qed

lemma demo_untouched: "\<forall>w\<in>set (workers demo_gateway). untouched w"
  by (auto simp: demo_gateway_def fresh_workers_def fresh_spine_def untouched_def)

theorem start_gateway_correct_witness:
  "\<exists>g'. start_gateway 2 (\<lambda>_. True) (\<lambda>i. i < 1) demo_gateway = Some (Some (CoreBindingFailed 1), g')
    \<and> list_all shut (workers g')"
proof -
  have "\<not> started demo_gateway" by (simp add: demo_gateway_def)
  from start_gateway_correct [OF this demo_untouched, of 2 "\<lambda>_. True" "\<lambda>i. i < 1"] obtain err g' where
    g: "start_gateway 2 (\<lambda>_. True) (\<lambda>i. i < 1) demo_gateway = Some (err, g')"
      "if err = None then started g' \<and> list_all serving (workers g') else \<not> started g' \<and> list_all shut (workers g')"
    by blast
  moreover have "err = Some (CoreBindingFailed 1)"
    using g(1) by (simp add: start_gateway_def demo_gateway_def fresh_workers_def shut_down_eq Let_def)
  ultimately show ?thesis by simp
qed

text \<open>
  A gateway that was stopped can be started again without an error, and is
  then started with threads but serves nothing: its contexts stay stopped and its acceptors
  closed.
\<close>

theorem restart_serves_nothing:
  assumes "started g" "workers g \<noteq> []" "stop_gateway g = Some g1"
    and "start_gateway cores thread_ok core_ok g1 = Some (None, g2)"
  shows "started g2 \<and> \<not> list_ex serving (workers g2) \<and> list_all thread_joinable (workers g2)
    \<and> gateway_local_port g2 = None"
proof -
  have g1: "g1 = g\<lparr>workers := map shut_worker (workers g), started := False\<rparr>"
    using assms(1,3) by (simp add: stop_gateway_eq)
  then have "\<not> started g1" by simp
  from start_gateway_cases [OF this, of cores thread_ok core_ok] assms(4)
  have g2: "g2 = g1\<lparr>workers := map launch_worker (workers g1), started := True\<rparr>"
    by (auto split: if_splits)
  from assms(2) show ?thesis
    by (cases "workers g")
       (auto simp: g1 g2 list_ex_iff list_all_iff serving_def launch_worker_def shut_worker_def
         gateway_local_port_def spine_local_port_def start_spine_def stop_spine_def)
qed

theorem restart_serves_nothing_witness:
  "\<exists>g1 g2. stop_gateway (demo_gateway\<lparr>workers := map launch_worker (workers demo_gateway), started := True\<rparr>) = Some g1
     \<and> start_gateway 2 (\<lambda>_. True) (\<lambda>_. True) g1 = Some (None, g2)
     \<and> started g2 \<and> \<not> list_ex serving (workers g2)"
proof -
  let ?g = "demo_gateway\<lparr>workers := map launch_worker (workers demo_gateway), started := True\<rparr>"
  have len: "length (workers demo_gateway) = 2" by (simp add: demo_gateway_def fresh_workers_def)
  then have ne: "workers ?g \<noteq> []" by auto
  obtain g1 where g1: "stop_gateway ?g = Some g1" "\<not> started g1" "length (workers g1) = 2"
    using len by (simp add: stop_gateway_eq)
  have "start_accepted 2 (\<lambda>_. True) (\<lambda>_. True) g1"
    using g1(3) by (simp add: start_accepted_def enough_cores_def)
  with start_gateway_cases [OF g1(2), of 2 "\<lambda>_. True" "\<lambda>_. True"] obtain g2 where
    g2: "start_gateway 2 (\<lambda>_. True) (\<lambda>_. True) g1 = Some (None, g2)" by auto
  from restart_serves_nothing [OF _ ne g1(1) g2] g1(1) g2 show ?thesis by auto
qed

text \<open>
  The total of the affinity violations is the sum of the workers' counts modulo
  \<open>2 ^ 64\<close>, and is exact while that sum fits in 64 bits.
\<close>

theorem total_violations_exact:
  "unat (total_affinity_violation_count g) =
     sum_list (map (unat \<circ> affinity_violations \<circ> worker_spine) (workers g)) mod 2 ^ 64"
proof -
  have run: "foldl (\<lambda>total w. total + affinity_violations (worker_spine w)) a ws =
      a + of_nat (sum_list (map (unat \<circ> affinity_violations \<circ> worker_spine) ws))" for a ws
    by (induction ws arbitrary: a) (simp_all add: add.assoc)
  have "total_affinity_violation_count g =
      of_nat (sum_list (map (unat \<circ> affinity_violations \<circ> worker_spine) (workers g)))"
    unfolding total_affinity_violation_count_def affinity_violation_count_def run by simp
  then show ?thesis by (simp add: unsigned_of_nat take_bit_nat_def)
qed

section \<open>The program\<close>

lemma main_workers_cores: "main_workers cores \<le> max 1 cores" "0 < main_workers cores"
  by (simp_all add: main_workers_def)

lemma main_port: "listen_port main_config \<noteq> 0"
  by (simp add: main_config_def)

lemma new_registry_fresh: "\<forall>i. next_shard new_registry \<le> i \<longrightarrow> live_shards new_registry i = None"
  by (simp add: new_registry_def)

text \<open>
  C32 (functional): on a machine where every call to the operating system succeeds, whatever
  its number of cores, the program starts, serves on one worker per core, and exits with 0
  after a signal.
\<close>

theorem main_serves:
  assumes "\<forall>i<main_workers cores. env_ok main_config (env i) \<and> thread_ok i \<and> core_ok i"
  shows "\<exists>g. main_start srt grow cores env thread_ok core_ok = Some (Inr g)
    \<and> length (workers g) = max 1 cores \<and> list_all serving (workers g) \<and> main_exit (Inr g) = Some 0"
proof -
  let ?envs = "map env [0..<main_workers cores]"
  let ?g = "\<lparr>gw_config = main_config, workers = fresh_workers srt grow ?envs main_config 0, started = False\<rparr>"
  have ne: "?envs \<noteq> []" using main_workers_cores(2) [of cores] by simp
  have "list_all (env_ok main_config) ?envs" using assms by (simp add: list_all_iff)
  with ne main_port new_gateway_cases [OF new_registry_fresh, of ?envs srt grow main_config]
  have new: "fst (new_gateway srt grow ?envs main_config new_registry) = Inr ?g"
    by (simp add: new_registry_def)
  have len: "length (workers ?g) = main_workers cores" by (simp add: fresh_workers_def)
  have fresh: "\<forall>w\<in>set (workers ?g). untouched w"
    by (auto simp: fresh_workers_def fresh_spine_def untouched_def)
  have "start_accepted cores thread_ok core_ok ?g"
    using assms main_workers_cores(1) [of cores] unfolding start_accepted_def enough_cores_def len by simp
  moreover have "\<not> started ?g" by simp
  ultimately have start: "start_gateway cores thread_ok core_ok ?g =
      Some (None, ?g\<lparr>workers := map launch_worker (workers ?g), started := True\<rparr>)"
    using start_gateway_cases [of ?g cores thread_ok core_ok] by simp
  let ?h = "?g\<lparr>workers := map launch_worker (workers ?g), started := True\<rparr>"
  have "main_start srt grow cores env thread_ok core_ok = Some (Inr ?h)"
    by (simp only: main_start_def new sum.case start option.case prod.case)
  moreover have "length (workers ?h) = max 1 cores" using len by (simp add: main_workers_def)
  moreover have "list_all serving (workers ?h)"
    using fresh by (simp add: list_all_iff launch_serving)
  moreover have "main_exit (Inr ?h) = Some 0"
    by (simp add: main_exit_def stop_gateway_eq destroy_gateway_def list_ex_iff shut_worker_def)
  ultimately show ?thesis by blast
qed

theorem main_serves_witness:
  "\<exists>g. main_start sort_key (\<lambda>n. 2 * n + 1) 4 (\<lambda>_. ok_env) (\<lambda>_. True) (\<lambda>_. True) = Some (Inr g)
    \<and> length (workers g) = 4"
proof -
  have "\<forall>i<main_workers 4. env_ok main_config ((\<lambda>_. ok_env) i) \<and> (\<lambda>_. True) i \<and> (\<lambda>_. True) i"
    by (simp add: ok_env_ok)
  from main_serves [OF this, of sort_key "\<lambda>n. 2 * n + 1"] show ?thesis by auto
qed

text \<open>
  On a machine with more than 1024 cores the program never serves: the worker
  with number 1024 cannot be bound to its core, since the set it asks for is empty, which
  the operating system refuses; everything is rolled back and the exit code is 1.
\<close>

theorem main_core_limit:
  assumes "setaffinity {} \<noteq> 0" "1024 < cores" "\<forall>i<cores. env_ok main_config (env i)"
  shows "\<exists>e. main_start srt grow cores env thread_ok
        (\<lambda>i. bind_thread_to_core_or_throw setaffinity strerror i = None) = Some (Inl e)
    \<and> main_exit (Inl e) = Some 1 \<and> fst (main_output what cores (Inl e)) = []"
proof -
  let ?core_ok = "\<lambda>i. bind_thread_to_core_or_throw setaffinity strerror i = None"
  let ?envs = "map env [0..<main_workers cores]"
  let ?g = "\<lparr>gw_config = main_config, workers = fresh_workers srt grow ?envs main_config 0, started = False\<rparr>"
  have w: "main_workers cores = cores" using assms(2) by (simp add: main_workers_def)
  have ne: "?envs \<noteq> []" using main_workers_cores(2) [of cores] by simp
  have "list_all (env_ok main_config) ?envs" using assms(3) by (simp add: list_all_iff w)
  with ne main_port new_gateway_cases [OF new_registry_fresh, of ?envs srt grow main_config]
  have new: "fst (new_gateway srt grow ?envs main_config new_registry) = Inr ?g"
    by (simp add: new_registry_def)
  have "length (workers ?g) = cores" by (simp add: fresh_workers_def w)
  moreover have "\<not> ?core_ok 1024" using assms(1) by (simp add: bind_thread_to_core_or_throw_def)
  ultimately have "\<not> start_accepted cores thread_ok ?core_ok ?g"
    using assms(2) unfolding start_accepted_def by metis
  moreover have "\<not> started ?g" by simp
  ultimately obtain e g' where "start_gateway cores thread_ok ?core_ok ?g = Some (Some e, g')"
    using start_gateway_cases [of ?g cores thread_ok ?core_ok] by (metis (no_types, lifting))
  then have "main_start srt grow cores env thread_ok ?core_ok = Some (Inl e)"
    by (simp only: main_start_def new sum.case option.case prod.case)
  then show ?thesis by (auto simp: main_exit_def main_output_def)
qed

theorem main_core_limit_witness:
  "\<exists>e. main_start sort_key (\<lambda>n. 2 * n + 1) 2048 (\<lambda>_. ok_env) (\<lambda>_. True)
      (\<lambda>i. bind_thread_to_core_or_throw (\<lambda>cpus. if cpus = {} then 22 else 0) (\<lambda>_. ''Invalid argument'') i = None)
      = Some (Inl e)"
  using main_core_limit [of "\<lambda>cpus. if cpus = {} then 22 else 0" 2048 "\<lambda>_. ok_env" sort_key "\<lambda>n. 2 * n + 1"
      "\<lambda>_. True" "\<lambda>_. ''Invalid argument''"] ok_env_ok by auto

text \<open>The banner names the workers that serve, and nothing is printed on standard error.\<close>

lemma main_output_banner:
  "main_output what cores (Inr g) =
     (''netp2 gateway phase-b-step1 0.1.0 workers='' @ to_dec (max 1 cores) @ '' listening on 0.0.0.0:''
        @ to_dec 18080 @ newline, [])"
  by (simp add: main_output_def main_banner_def kVersion_def main_workers_def main_config_def)

end
