(* ===== verification/Worker_Threads.thy ===== *)
theory Worker_Threads imports Gateway begin

text \<open>
  \<^verbatim>\<open>src/runtime/gateway_runtime.cpp\<close> with its threads: the controlling thread inside
  \<^verbatim>\<open>start\<close>, \<^verbatim>\<open>stop\<close> and the destructor, and the worker threads, which bind their shard, run their
  \<^verbatim>\<open>io_context\<close>, count, unbind and end, all interleaved. Theory \<open>Gateway\<close> describes the same
  operations as functions of the gateway's state alone. A shard is shared by its worker and by the
  function object of the worker's thread, and destroyed with the later of the two.
\<close>

section \<open>State\<close>

text \<open>
  A worker's thread: there is none; created, its function object holds a share of the
  shard; bound and in \<^verbatim>\<open>io->run()\<close>; past \<^verbatim>\<open>unbind_thread_local_shard\<close>; ended, its function
  object destroyed; joined.
\<close>

datatype thread_phase = NoThread | Created | Running | Unbound | Ended | Joined

fun holds_share :: "thread_phase \<Rightarrow> bool" where
  "holds_share Created = True"
| "holds_share Running = True"
| "holds_share Unbound = True"
| "holds_share _ = False"

fun is_joinable :: "thread_phase \<Rightarrow> bool" where
  "is_joinable NoThread = False"
| "is_joinable Joined = False"
| "is_joinable _ = True"

text \<open>
  Where the controlling thread is: outside, or at worker \<open>i\<close> of the loop that starts the
  workers, closes the acceptors, stops the contexts, joins the threads, destroys the workers.
  \<open>InClose i\<close>: inside the call that closes the acceptor of worker \<open>i\<close>, which takes time.
\<close>

datatype control =
    Outside
  | Starting nat
  | Closing nat
  | InClose nat
  | StoppingIo nat
  | Joining nat
  | Destroying nat
  | Destroyed

record runtime =
  rt_registry :: metrics_registry
  rt_shards :: "nat list"
  rt_phase :: "nat \<Rightarrow> thread_phase"
  rt_closed :: "nat \<Rightarrow> bool"
  rt_io_stopped :: "nat \<Rightarrow> bool"
  rt_busy :: "nat \<Rightarrow> bool"
  rt_member :: "nat \<Rightarrow> bool"
  rt_control :: control
  rt_started :: bool
  rt_in_destructor :: bool

abbreviation rt_workers :: "runtime \<Rightarrow> nat" where
  "rt_workers s \<equiv> length (rt_shards s)"

text \<open>
  A gateway and the registry its constructor has left; \<open>rt_member\<close>: the worker exists;
  \<open>rt_busy\<close>: its \<^verbatim>\<open>io_context\<close> has work left, the accept loop or a connection.
\<close>

definition new_runtime :: "gateway \<Rightarrow> metrics_registry \<Rightarrow> runtime" where
  "new_runtime g r = \<lparr>rt_registry = r, rt_shards = map metrics_shard (workers g),
     rt_phase = (\<lambda>_. NoThread), rt_closed = (\<lambda>_. False), rt_io_stopped = (\<lambda>_. False), rt_busy = (\<lambda>_. False),
     rt_member = (\<lambda>i. i < length (workers g)), rt_control = Outside, rt_started = False,
     rt_in_destructor = False\<rparr>"

definition set_phase :: "nat \<Rightarrow> thread_phase \<Rightarrow> runtime \<Rightarrow> runtime" where
  "set_phase i p s = s\<lparr>rt_phase := (rt_phase s)(i := p)\<rparr>"

definition set_control :: "control \<Rightarrow> runtime \<Rightarrow> runtime" where
  "set_control c s = s\<lparr>rt_control := c\<rparr>"

text \<open>\<^verbatim>\<open>worker.spine->start()\<close> spawns the accept loop, which is work for the context.\<close>

definition spawn_accept :: "nat \<Rightarrow> runtime \<Rightarrow> runtime" where
  "spawn_accept i s = s\<lparr>rt_busy := (rt_busy s)(i := True)\<rparr>"

text \<open>A share of worker \<open>i\<close>'s shard is given up: the last one destroys it.\<close>

definition give_up_share :: "nat \<Rightarrow> runtime \<Rightarrow> runtime" where
  "give_up_share i s =
     (if rt_member s i \<or> holds_share (rt_phase s i) then s
      else s\<lparr>rt_registry := drop_shard (rt_shards s ! i) (rt_registry s)\<rparr>)"

section \<open>Steps\<close>

text \<open>
  The controlling thread. The failures of \<^verbatim>\<open>start\<close> (too many workers, no thread, no core) run
  the loops of its handler, which are those of \<^verbatim>\<open>stop\<close>; joining waits for a joinable thread to
  have ended.
\<close>

inductive control_step :: "runtime \<Rightarrow> runtime \<Rightarrow> bool" where
  start_call: "rt_control s = Outside \<Longrightarrow> \<not> rt_started s \<Longrightarrow> control_step s (set_control (Starting 0) s)"
| start_refused: "rt_control s = Starting 0 \<Longrightarrow> control_step s (set_control (Closing 0) s)"
| start_thread: "rt_control s = Starting i \<Longrightarrow> i < rt_workers s \<Longrightarrow>
     control_step s (set_control (Starting (Suc i)) (set_phase i Created (spawn_accept i s)))"
| start_thread_fails: "rt_control s = Starting i \<Longrightarrow> i < rt_workers s \<Longrightarrow>
     control_step s (set_control (Closing 0) (spawn_accept i s))"
| start_core_fails: "rt_control s = Starting i \<Longrightarrow> i < rt_workers s \<Longrightarrow>
     control_step s (set_control (Closing 0) (set_phase i Created (spawn_accept i s)))"
| start_done: "rt_control s = Starting (rt_workers s) \<Longrightarrow>
     control_step s (set_control Outside (s\<lparr>rt_started := True\<rparr>))"
| stop_call: "rt_control s = Outside \<Longrightarrow> rt_started s \<Longrightarrow> control_step s (set_control (Closing 0) s)"
| close_begin: "rt_control s = Closing i \<Longrightarrow> i < rt_workers s \<Longrightarrow>
     control_step s (set_control (InClose i) s)"
| close_end: "rt_control s = InClose i \<Longrightarrow>
     control_step s (set_control (Closing (Suc i)) (s\<lparr>rt_closed := (rt_closed s)(i := True)\<rparr>))"
| close_done: "rt_control s = Closing (rt_workers s) \<Longrightarrow> control_step s (set_control (StoppingIo 0) s)"
| stop_io: "rt_control s = StoppingIo i \<Longrightarrow> i < rt_workers s \<Longrightarrow>
     control_step s (set_control (StoppingIo (Suc i)) (s\<lparr>rt_io_stopped := (rt_io_stopped s)(i := True)\<rparr>))"
| stop_io_done: "rt_control s = StoppingIo (rt_workers s) \<Longrightarrow> control_step s (set_control (Joining 0) s)"
| join_thread: "rt_control s = Joining i \<Longrightarrow> i < rt_workers s \<Longrightarrow> rt_phase s i = Ended \<Longrightarrow>
     control_step s (set_control (Joining (Suc i)) (set_phase i Joined s))"
| join_none: "rt_control s = Joining i \<Longrightarrow> i < rt_workers s \<Longrightarrow> \<not> is_joinable (rt_phase s i) \<Longrightarrow>
     control_step s (set_control (Joining (Suc i)) s)"
| join_done: "rt_control s = Joining (rt_workers s) \<Longrightarrow>
     control_step s
       (set_control (if rt_in_destructor s then Destroying 0 else Outside) (s\<lparr>rt_started := False\<rparr>))"
| destroy_call: "rt_control s = Outside \<Longrightarrow>
     control_step s
       (set_control (if rt_started s then Closing 0 else Destroying 0) (s\<lparr>rt_in_destructor := True\<rparr>))"
| destroy_worker: "rt_control s = Destroying i \<Longrightarrow> i < rt_workers s \<Longrightarrow> \<not> is_joinable (rt_phase s i) \<Longrightarrow>
     control_step s
       (set_control (Destroying (Suc i)) (give_up_share i (s\<lparr>rt_member := (rt_member s)(i := False)\<rparr>)))"
| destroy_done: "rt_control s = Destroying (rt_workers s) \<Longrightarrow> control_step s (set_control Destroyed s)"

text \<open>
  The function of worker \<open>i\<close>'s thread; its thread is number \<open>i\<close>. \<^verbatim>\<open>run\<close> returns when the context
  has been stopped, or has no work left.
\<close>

inductive thread_step :: "runtime \<Rightarrow> runtime \<Rightarrow> bool" where
  bind: "rt_phase s i = Created \<Longrightarrow>
     thread_step s (set_phase i Running
       (s\<lparr>rt_registry := bind_thread_local_shard i (rt_shards s ! i) (rt_registry s)\<rparr>))"
| unbind: "rt_phase s i = Running \<Longrightarrow> rt_io_stopped s i \<or> \<not> rt_busy s i \<Longrightarrow>
     thread_step s (set_phase i Unbound (s\<lparr>rt_registry := unbind_thread_local_shard i (rt_registry s)\<rparr>))"
| end_thread: "rt_phase s i = Unbound \<Longrightarrow> thread_step s (give_up_share i (set_phase i Ended s))"

text \<open>
  Inside \<^verbatim>\<open>io->run()\<close> a thread counts, one atomic addition at a time, and may run out of work:
  when that is, is up to the clients.
\<close>

inductive run_step :: "runtime \<Rightarrow> runtime \<Rightarrow> bool" where
  count: "rt_phase s i = Running \<Longrightarrow> thread_add i c n (rt_registry s) = Some r \<Longrightarrow>
     run_step s (s\<lparr>rt_registry := r\<rparr>)"
| out_of_work: "rt_phase s i = Running \<Longrightarrow> run_step s (s\<lparr>rt_busy := (rt_busy s)(i := False)\<rparr>)"

definition runtime_step :: "runtime \<Rightarrow> runtime \<Rightarrow> bool" where
  "runtime_step s s' \<longleftrightarrow> control_step s s' \<or> thread_step s s' \<or> run_step s s'"

section \<open>Invariant\<close>

text \<open>Threads are bound to their shard exactly while they run, and a shard lives while it has an owner.\<close>

definition shards_ok :: "runtime \<Rightarrow> bool" where
  "shards_ok s \<longleftrightarrow>
     registry_ok (rt_registry s) \<and> distinct (rt_shards s)
     \<and> (\<forall>i. tls_worker_shard (rt_registry s) i =
              (if rt_phase s i = Running then Some (rt_shards s ! i) else None))
     \<and> (\<forall>i<rt_workers s. live_shards (rt_registry s) (rt_shards s ! i) \<noteq> None \<longleftrightarrow>
              rt_member s i \<or> holds_share (rt_phase s i))
     \<and> (\<forall>i. rt_workers s \<le> i \<longrightarrow> rt_phase s i = NoThread \<and> \<not> rt_member s i)"

text \<open>How far the controlling thread is, and what it has therefore done.\<close>

definition control_ok :: "runtime \<Rightarrow> bool" where
  "control_ok s \<longleftrightarrow>
     (case rt_control s of
        Outside \<Rightarrow> (\<not> rt_started s \<longrightarrow> (\<forall>i. \<not> is_joinable (rt_phase s i))) \<and> \<not> rt_in_destructor s
      | Starting k \<Rightarrow> k \<le> rt_workers s \<and> \<not> rt_started s \<and> \<not> rt_in_destructor s
                     \<and> (\<forall>i\<ge>k. \<not> is_joinable (rt_phase s i))
      | Closing k \<Rightarrow> k \<le> rt_workers s \<and> (\<forall>i<k. rt_closed s i)
      | InClose k \<Rightarrow> k < rt_workers s \<and> (\<forall>i<k. rt_closed s i)
      | StoppingIo k \<Rightarrow> k \<le> rt_workers s \<and> (\<forall>i<k. rt_io_stopped s i)
      | Joining k \<Rightarrow> k \<le> rt_workers s \<and> (\<forall>i<rt_workers s. rt_io_stopped s i)
                    \<and> (\<forall>i<k. \<not> is_joinable (rt_phase s i))
      | Destroying k \<Rightarrow> k \<le> rt_workers s \<and> (\<forall>i. \<not> is_joinable (rt_phase s i))
                       \<and> (\<forall>i<rt_workers s. rt_member s i \<longleftrightarrow> k \<le> i)
      | Destroyed \<Rightarrow> (\<forall>i. \<not> is_joinable (rt_phase s i)) \<and> (\<forall>i. \<not> rt_member s i))
     \<and> ((\<forall>k. rt_control s \<noteq> Destroying k) \<and> rt_control s \<noteq> Destroyed \<longrightarrow>
          (\<forall>i<rt_workers s. rt_member s i))"

definition runtime_ok :: "runtime \<Rightarrow> bool" where
  [inv_defs]: "runtime_ok s \<longleftrightarrow> shards_ok s \<and> control_ok s"

lemma set_simps [simp]:
  "rt_registry (set_phase i p s) = rt_registry s" "rt_shards (set_phase i p s) = rt_shards s"
  "rt_phase (set_phase i p s) = (rt_phase s)(i := p)" "rt_member (set_phase i p s) = rt_member s"
  "rt_closed (set_phase i p s) = rt_closed s" "rt_io_stopped (set_phase i p s) = rt_io_stopped s"
  "rt_control (set_phase i p s) = rt_control s" "rt_started (set_phase i p s) = rt_started s"
  "rt_in_destructor (set_phase i p s) = rt_in_destructor s"
  "rt_registry (set_control c s) = rt_registry s" "rt_shards (set_control c s) = rt_shards s"
  "rt_phase (set_control c s) = rt_phase s" "rt_member (set_control c s) = rt_member s"
  "rt_closed (set_control c s) = rt_closed s" "rt_io_stopped (set_control c s) = rt_io_stopped s"
  "rt_control (set_control c s) = c" "rt_started (set_control c s) = rt_started s"
  "rt_in_destructor (set_control c s) = rt_in_destructor s"
  by (simp_all add: set_phase_def set_control_def)

lemma spawn_accept_simps [simp]:
  "rt_registry (spawn_accept i s) = rt_registry s" "rt_shards (spawn_accept i s) = rt_shards s"
  "rt_phase (spawn_accept i s) = rt_phase s" "rt_member (spawn_accept i s) = rt_member s"
  "rt_closed (spawn_accept i s) = rt_closed s" "rt_io_stopped (spawn_accept i s) = rt_io_stopped s"
  "rt_control (spawn_accept i s) = rt_control s" "rt_started (spawn_accept i s) = rt_started s"
  "rt_in_destructor (spawn_accept i s) = rt_in_destructor s"
  by (simp_all add: spawn_accept_def)

lemma give_up_share_simps [simp]:
  "rt_shards (give_up_share i s) = rt_shards s" "rt_phase (give_up_share i s) = rt_phase s"
  "rt_member (give_up_share i s) = rt_member s" "rt_closed (give_up_share i s) = rt_closed s"
  "rt_io_stopped (give_up_share i s) = rt_io_stopped s" "rt_control (give_up_share i s) = rt_control s"
  "rt_started (give_up_share i s) = rt_started s"
  "rt_in_destructor (give_up_share i s) = rt_in_destructor s"
  by (simp_all add: give_up_share_def)

text \<open>The parts of \<open>shards_ok\<close>, to use and to prove.\<close>

lemma shards_okD:
  assumes "shards_ok s"
  shows "registry_ok (rt_registry s)" "distinct (rt_shards s)"
    and "tls_worker_shard (rt_registry s) i = (if rt_phase s i = Running then Some (rt_shards s ! i) else None)"
    and "i < rt_workers s \<Longrightarrow> live_shards (rt_registry s) (rt_shards s ! i) \<noteq> None \<longleftrightarrow>
           rt_member s i \<or> holds_share (rt_phase s i)"
    and "rt_workers s \<le> i \<Longrightarrow> rt_phase s i = NoThread" "rt_workers s \<le> i \<Longrightarrow> \<not> rt_member s i"
  using assms unfolding shards_ok_def by blast+

lemma phase_worker: "shards_ok s \<Longrightarrow> rt_phase s i \<noteq> NoThread \<Longrightarrow> i < rt_workers s"
  using shards_okD(5) [of s i] by (meson not_le_imp_less)

text \<open>Only the registry, the phases and the members matter, so most steps keep it trivially.\<close>

lemma shards_ok_cong:
  "shards_ok s \<Longrightarrow> rt_registry s' = rt_registry s \<Longrightarrow> rt_shards s' = rt_shards s \<Longrightarrow>
   rt_phase s' = rt_phase s \<Longrightarrow> rt_member s' = rt_member s \<Longrightarrow> shards_ok s'"
  by (simp add: shards_ok_def)

lemma shards_ok_phase:
  assumes "shards_ok s" "rt_registry s' = rt_registry s" "rt_shards s' = rt_shards s"
    and "rt_phase s' = (rt_phase s)(i := p)" "rt_member s' = rt_member s" "i < rt_workers s"
    and "rt_phase s i \<noteq> Running" "p \<noteq> Running" "rt_member s i \<or> holds_share p = holds_share (rt_phase s i)"
  shows "shards_ok s'"
  using assms shards_okD(5) [OF assms(1)] unfolding shards_ok_def
  by (simp add: fun_upd_apply) (metis assms(6) not_le)

text \<open>Dropping the shard of a worker whose last owner is gone.\<close>

lemma shards_ok_give_up:
  assumes ok: "registry_ok (rt_registry s)" "distinct (rt_shards s)"
    and tls: "\<And>j. tls_worker_shard (rt_registry s) j = (if rt_phase s j = Running then Some (rt_shards s ! j) else None)"
    and live: "\<And>j. j < rt_workers s \<Longrightarrow> j \<noteq> i \<Longrightarrow>
      live_shards (rt_registry s) (rt_shards s ! j) \<noteq> None \<longleftrightarrow> rt_member s j \<or> holds_share (rt_phase s j)"
    and livei: "live_shards (rt_registry s) (rt_shards s ! i) \<noteq> None"
    and out: "\<And>j. rt_workers s \<le> j \<Longrightarrow> rt_phase s j = NoThread \<and> \<not> rt_member s j"
    and i: "i < rt_workers s" "rt_phase s i \<noteq> Running"
  shows "shards_ok (give_up_share i s)"
proof (cases "rt_member s i \<or> holds_share (rt_phase s i)")
  case True
  then have "give_up_share i s = s" by (simp add: give_up_share_def)
  moreover have "live_shards (rt_registry s) (rt_shards s ! j) \<noteq> None \<longleftrightarrow> rt_member s j \<or> holds_share (rt_phase s j)"
    if "j < rt_workers s" for j
    using that live livei True by (cases "j = i") auto
  ultimately show ?thesis using ok tls out by (auto simp: shards_ok_def)
next
  case False
  let ?r = "drop_shard (rt_shards s ! i) (rt_registry s)"
  have other: "rt_shards s ! j \<noteq> rt_shards s ! i" if "j < rt_workers s" "j \<noteq> i" for j
    using ok(2) that i(1) by (simp add: nth_eq_iff_index_eq)
  have "owned_use (rt_registry s) (DropShard (rt_shards s ! i))"
  proof (simp, rule allI)
    fix u show "tls_worker_shard (rt_registry s) u \<noteq> Some (rt_shards s ! i)"
    proof (cases "rt_phase s u = Running")
      case True
      then have "u < rt_workers s" using out [of u] by (metis linorder_not_less thread_phase.distinct(3))
      moreover have "u \<noteq> i" using True i(2) by auto
      ultimately show ?thesis using True tls [of u] other by simp
    qed (simp add: tls)
  qed
  from registry_ok_step [OF ok(1) this] have "registry_ok ?r" by simp
  moreover have "live_shards ?r (rt_shards s ! j) \<noteq> None \<longleftrightarrow> rt_member s j \<or> holds_share (rt_phase s j)"
    if "j < rt_workers s" for j
    using that live other [OF that] False by (cases "j = i") (auto simp: drop_shard_def)
  moreover have "tls_worker_shard ?r = tls_worker_shard (rt_registry s)" by (simp add: drop_shard_def)
  ultimately show ?thesis using False ok(2) tls out by (auto simp: shards_ok_def give_up_share_def)
qed

lemma shards_ok_control:
  assumes "control_step s s'" "shards_ok s" "control_ok s"
  shows "shards_ok s'"
  using assms(1)
proof (cases rule: control_step.cases)
  case (start_thread i)
  then have "rt_phase s i \<noteq> Running" "rt_member s i"
    using assms(3) by (auto simp: control_ok_def)
  with start_thread show ?thesis
    by (intro shards_ok_phase [OF assms(2), of s' i Created]) simp_all
next
  case (start_core_fails i)
  then have "rt_phase s i \<noteq> Running" "rt_member s i"
    using assms(3) by (auto simp: control_ok_def)
  with start_core_fails show ?thesis
    by (intro shards_ok_phase [OF assms(2), of s' i Created]) simp_all
next
  case (join_thread i)
  then show ?thesis by (intro shards_ok_phase [OF assms(2), of s' i Joined]) simp_all
next
  case (destroy_worker i)
  let ?s = "s\<lparr>rt_member := (rt_member s)(i := False)\<rparr>"
  have "rt_member s i" using destroy_worker assms(3) by (simp add: control_ok_def)
  then have "live_shards (rt_registry s) (rt_shards s ! i) \<noteq> None"
    using shards_okD(4) [OF assms(2), of i] destroy_worker by simp
  moreover have "rt_phase s i \<noteq> Running" using destroy_worker by auto
  ultimately have "shards_ok (give_up_share i ?s)"
    by (intro shards_ok_give_up) (use destroy_worker shards_okD [OF assms(2)] in auto)
  with destroy_worker show ?thesis by (auto intro: shards_ok_cong)
qed (auto intro!: shards_ok_cong [OF assms(2)])

lemma shards_ok_thread:
  assumes "thread_step s s'" "shards_ok s"
  shows "shards_ok s'"
  using assms(1)
proof (cases rule: thread_step.cases)
  case (bind i)
  let ?r = "bind_thread_local_shard i (rt_shards s ! i) (rt_registry s)"
  have i: "i < rt_workers s" using phase_worker [OF assms(2)] bind by simp
  then have "owned_use (rt_registry s) (Bind i (rt_shards s ! i))"
    using shards_okD(4) [OF assms(2)] bind by simp
  from registry_ok_step [OF shards_okD(1) [OF assms(2)] this] have "registry_ok ?r" by simp
  with bind i shards_okD [OF assms(2)] show ?thesis
    by (auto simp: shards_ok_def bind_thread_local_shard_def)
next
  case (unbind i)
  let ?r = "unbind_thread_local_shard i (rt_registry s)"
  have i: "i < rt_workers s" using phase_worker [OF assms(2)] unbind by simp
  from registry_ok_step [OF shards_okD(1) [OF assms(2)], of "Unbind i"] have "registry_ok ?r" by simp
  with unbind i shards_okD [OF assms(2)] show ?thesis
    by (auto simp: shards_ok_def unbind_thread_local_shard_def)
next
  case (end_thread i)
  have i: "i < rt_workers s" using phase_worker [OF assms(2)] end_thread by simp
  have "shards_ok (give_up_share i (set_phase i Ended s))"
    by (rule shards_ok_give_up) (use end_thread i shards_okD [OF assms(2)] in \<open>auto\<close>)
  with end_thread show ?thesis by simp
qed

lemma shards_ok_run:
  assumes "run_step s s'" "shards_ok s"
  shows "shards_ok s'"
  using assms(1)
proof (cases rule: run_step.cases)
  case (count i c n r)
  have "registry_ok r" using registry_ok_step [OF shards_okD(1) [OF assms(2)], of "Add i c n"] count by simp
  moreover have "tls_worker_shard r = tls_worker_shard (rt_registry s)"
    using count by (simp add: thread_add_tls)
  moreover have "live_shards r j = None \<longleftrightarrow> live_shards (rt_registry s) j = None" for j
    using count by (auto simp: thread_add_def split: option.splits if_splits)
  ultimately show ?thesis using assms(2) count by (simp add: shards_ok_def)
qed (auto intro: shards_ok_cong [OF assms(2)])

lemma control_ok_control:
  assumes "control_step s s'" "shards_ok s" "control_ok s"
  shows "control_ok s'"
  using assms(1)
proof (cases rule: control_step.cases)
  case (destroy_worker i)
  with assms(3) show ?thesis by (auto simp: control_ok_def less_Suc_eq)
next
  case destroy_done
  have "\<not> rt_member s i" for i
    using destroy_done assms(3) shards_okD(6) [OF assms(2), of i] by (cases "i < rt_workers s") (auto simp: control_ok_def)
  with destroy_done assms(3) show ?thesis by (auto simp: control_ok_def)
next
  case join_done
  have "\<not> is_joinable (rt_phase s i)" for i
    using join_done assms(3) shards_okD(5) [OF assms(2), of i] by (cases "i < rt_workers s") (auto simp: control_ok_def)
  with join_done assms(3) show ?thesis by (auto simp: control_ok_def)
qed (use assms(3) in \<open>auto simp: control_ok_def less_Suc_eq\<close>)

lemma thread_step_phase:
  assumes "thread_step s s'"
  shows "\<exists>i p. rt_phase s' = (rt_phase s)(i := p) \<and> is_joinable (rt_phase s i) \<and> is_joinable p
     \<and> rt_control s' = rt_control s \<and> rt_shards s' = rt_shards s \<and> rt_member s' = rt_member s
     \<and> rt_closed s' = rt_closed s \<and> rt_io_stopped s' = rt_io_stopped s \<and> rt_started s' = rt_started s
     \<and> rt_in_destructor s' = rt_in_destructor s"
  using assms by (cases rule: thread_step.cases) (auto intro!: exI)

lemma control_ok_cong:
  assumes "control_ok s" "\<And>i. is_joinable (rt_phase s' i) = is_joinable (rt_phase s i)"
    and "rt_control s' = rt_control s" "rt_shards s' = rt_shards s" "rt_member s' = rt_member s"
    and "rt_closed s' = rt_closed s" "rt_io_stopped s' = rt_io_stopped s" "rt_started s' = rt_started s"
    and "rt_in_destructor s' = rt_in_destructor s"
  shows "control_ok s'"
  using assms(1) by (cases "rt_control s") (simp_all add: control_ok_def assms(2-))

lemma control_ok_thread:
  assumes "thread_step s s'" "control_ok s"
  shows "control_ok s'"
proof -
  from thread_step_phase [OF assms(1)] obtain i p where
    "rt_phase s' = (rt_phase s)(i := p)" "is_joinable (rt_phase s i)" "is_joinable p"
    "rt_control s' = rt_control s" "rt_shards s' = rt_shards s" "rt_member s' = rt_member s"
    "rt_closed s' = rt_closed s" "rt_io_stopped s' = rt_io_stopped s" "rt_started s' = rt_started s"
    "rt_in_destructor s' = rt_in_destructor s" by blast
  then show ?thesis by (intro control_ok_cong [OF assms(2)]) auto
qed

lemma control_ok_run: "run_step s s' \<Longrightarrow> control_ok s \<Longrightarrow> control_ok s'"
  by (cases rule: run_step.cases) (auto intro: control_ok_cong)

lemma runtime_ok_step: "runtime_step s s' \<Longrightarrow> runtime_ok s \<Longrightarrow> runtime_ok s'"
  unfolding runtime_step_def runtime_ok_def
  using shards_ok_control shards_ok_thread shards_ok_run control_ok_control control_ok_thread
    control_ok_run by blast

interpretation runtime: step_preserved runtime_step runtime_ok
  by unfold_locales (rule runtime_ok_step)

section \<open>The runtime of a new gateway\<close>

lemma build_workers_shards:
  assumes "build_workers srt grow envs cfg ws r = (Inr ws', r')" "registry_ok r"
    and "distinct (map metrics_shard ws)" "\<forall>w\<in>set ws. live_shards r (metrics_shard w) \<noteq> None"
  shows "registry_ok r' \<and> tls_worker_shard r' = tls_worker_shard r \<and> distinct (map metrics_shard ws')
    \<and> (\<forall>w\<in>set ws'. live_shards r' (metrics_shard w) \<noteq> None)"
  using assms
proof (induction envs arbitrary: ws r)
  case (Cons env envs)
  obtain sp where sp: "new_spine srt grow env cfg = Inr sp"
    using Cons.prems(1) by (cases "new_spine srt grow env cfg") auto
  let ?w = "\<lparr>io_stopped = False, worker_spine = sp, metrics_shard = next_shard r, thread_joinable = False\<rparr>"
  let ?r = "snd (create_worker_shard r)"
  have fresh: "live_shards r (next_shard r) = None"
    using Cons.prems(2) by (auto simp: registry_ok_def)
  have "registry_ok ?r" using registry_ok_step [OF Cons.prems(2), of CreateShard] by simp
  moreover have "build_workers srt grow envs cfg (ws @ [?w]) ?r = (Inr ws', r')"
    using Cons.prems(1) sp by (simp add: create_worker_shard_def)
  moreover have "distinct (map metrics_shard (ws @ [?w]))" using Cons.prems(3,4) fresh by auto
  moreover have "\<forall>w\<in>set (ws @ [?w]). live_shards ?r (metrics_shard w) \<noteq> None"
    using Cons.prems(4) by (auto simp: create_worker_shard_def)
  ultimately show ?case using Cons.IH [of "ws @ [?w]" ?r] by (simp add: create_worker_shard_def)
qed simp

lemma new_runtime_ok:
  assumes "new_gateway srt grow envs cfg new_registry = (Inr g, r)"
  shows "runtime_ok (new_runtime g r)"
proof -
  from assms have "build_workers srt grow envs cfg [] new_registry = (Inr (workers g), r)"
    by (auto simp: new_gateway_def Let_def split: if_splits prod.splits sum.splits)
  from build_workers_shards [OF this new_registry_ok] show ?thesis
    by (auto simp: runtime_ok_def shards_ok_def control_ok_def new_runtime_def new_registry_def)
qed

lemma reachable_runtime_ok:
  "new_gateway srt grow envs cfg new_registry = (Inr g, r) \<Longrightarrow> runtime_step\<^sup>*\<^sup>* (new_runtime g r) s \<Longrightarrow> runtime_ok s"
  by (rule runtime.inv_steps [OF _ new_runtime_ok])

section \<open>Counting is safe\<close>

text \<open>
  C8 (safety): however starts, failed starts, stops, the destructor and all the worker
  threads interleave, a thread inside its \<^verbatim>\<open>io_context\<close> counts in a live shard, its own: the
  addition is defined, and it appears in the total.
\<close>

theorem worker_thread_counts:
  assumes "new_gateway srt grow envs cfg new_registry = (Inr g, r)"
    and "runtime_step\<^sup>*\<^sup>* (new_runtime g r) s" "rt_phase s i = Running"
  shows "tls_worker_shard (rt_registry s) i = Some (rt_shards s ! i)
    \<and> (\<exists>r'. thread_add i c n (rt_registry s) = Some r' \<and> total r' c = total (rt_registry s) c + n)"
proof -
  have ok: "shards_ok s" using reachable_runtime_ok [OF assms(1,2)] by (simp add: runtime_ok_def)
  have bound: "tls_worker_shard (rt_registry s) i = Some (rt_shards s ! i)"
    using shards_okD(3) [OF ok, of i] assms(3) by simp
  with thread_add_total [OF shards_okD(1) [OF ok], of i c n] show ?thesis by (auto simp: counted_def)
qed

lemma bind_owned:
  assumes "shards_ok s" "rt_phase s i = Created"
  shows "owned_use (rt_registry s) (Bind i (rt_shards s ! i))"
  using assms shards_okD(4) [OF assms(1) phase_worker [OF assms(1)], of i] by simp

lemma give_up_owned:
  assumes "shards_ok s" "shards_ok (give_up_share i s')" "rt_registry s' = rt_registry s"
    and "rt_shards s' = rt_shards s" "\<And>j. rt_phase s' j = Running \<longleftrightarrow> rt_phase s j = Running"
  shows "rt_registry (give_up_share i s') = rt_registry s
    \<or> owned_use (rt_registry s) (DropShard (rt_shards s ! i))
      \<and> rt_registry (give_up_share i s') = drop_shard (rt_shards s ! i) (rt_registry s)"
proof (cases "rt_member s' i \<or> holds_share (rt_phase s' i)")
  case False
  then have r: "rt_registry (give_up_share i s') = drop_shard (rt_shards s ! i) (rt_registry s)"
    using assms(3,4) by (simp add: give_up_share_def)
  have "registry_ok (drop_shard (rt_shards s ! i) (rt_registry s))"
    using shards_okD(1) [OF assms(2)] r by simp
  then have "tls_worker_shard (drop_shard j reg) u = Some j \<longrightarrow> live_shards (drop_shard j reg) j \<noteq> None"
    if "reg = rt_registry s" "j = rt_shards s ! i" for u j reg
    using that unfolding registry_ok_def by blast
  then have "tls_worker_shard (rt_registry s) u \<noteq> Some (rt_shards s ! i)" for u
    by (simp add: drop_shard_def)
  with r show ?thesis by simp
qed (use assms(3) in \<open>simp add: give_up_share_def\<close>)

text \<open>
  The operations of the registry the code makes, each by whom and when: a thread binds itself to
  its worker's shard on its way into \<^verbatim>\<open>run\<close>, counts inside, unbinds on its way out; a shard goes with
  its last owner.
\<close>

fun lawful_use :: "runtime \<Rightarrow> runtime \<Rightarrow> registry_event \<Rightarrow> bool" where
  "lawful_use s s' CreateShard \<longleftrightarrow> False"
| "lawful_use s s' (Bind u j) \<longleftrightarrow> rt_phase s u = Created \<and> rt_phase s' u = Running \<and> j = rt_shards s ! u"
| "lawful_use s s' (Unbind u) \<longleftrightarrow> rt_phase s u = Running \<and> rt_phase s' u = Unbound"
| "lawful_use s s' (DropShard j) \<longleftrightarrow>
     (\<exists>i<rt_workers s. j = rt_shards s ! i \<and> (rt_member s i \<or> holds_share (rt_phase s i))
        \<and> \<not> rt_member s' i \<and> \<not> holds_share (rt_phase s' i))"
| "lawful_use s s' (Add u c n) \<longleftrightarrow>
     rt_phase s u = Running \<and> rt_phase s' u = Running \<and> tls_worker_shard (rt_registry s) u = Some (rt_shards s ! u)"

definition uses_registry :: "runtime \<Rightarrow> runtime \<Rightarrow> bool" where
  "uses_registry s s' \<longleftrightarrow> rt_registry s' = rt_registry s
    \<or> (\<exists>e. lawful_use s s' e \<and> owned_use (rt_registry s) e \<and> registry_step (rt_registry s) e = Some (rt_registry s'))"

lemma uses_registryI:
  "lawful_use s s' e \<Longrightarrow> owned_use (rt_registry s) e \<Longrightarrow> registry_step (rt_registry s) e = Some (rt_registry s') \<Longrightarrow>
   uses_registry s s'"
  unfolding uses_registry_def by blast

lemma drop_uses_registry:
  assumes "shards_ok s" "shards_ok (give_up_share i s1)" "rt_registry s1 = rt_registry s"
    and "rt_shards s1 = rt_shards s" "\<And>j. rt_phase s1 j = Running \<longleftrightarrow> rt_phase s j = Running"
    and "i < rt_workers s" "rt_member s i \<or> holds_share (rt_phase s i)"
    and "rt_registry s' = rt_registry (give_up_share i s1)" "rt_member s' = rt_member s1" "rt_phase s' = rt_phase s1"
  shows "uses_registry s s'"
proof (cases "rt_member s1 i \<or> holds_share (rt_phase s1 i)")
  case True
  then show ?thesis using assms(3,8) by (simp add: uses_registry_def give_up_share_def)
next
  case False
  then have lawful: "lawful_use s s' (DropShard (rt_shards s ! i))" using assms(6,7,9,10) by auto
  from give_up_owned [OF assms(1-5)] show ?thesis
  proof
    assume "owned_use (rt_registry s) (DropShard (rt_shards s ! i))
      \<and> rt_registry (give_up_share i s1) = drop_shard (rt_shards s ! i) (rt_registry s)"
    with lawful assms(8) show ?thesis by (intro uses_registryI [OF lawful]) simp_all
  qed (use assms(8) in \<open>simp add: uses_registry_def\<close>)
qed

lemma control_step_uses:
  assumes "control_step s s'" "runtime_ok s" "shards_ok s'"
  shows "uses_registry s s'"
  using assms(1)
proof (cases rule: control_step.cases)
  case (destroy_worker i)
  let ?s = "s\<lparr>rt_member := (rt_member s)(i := False)\<rparr>"
  have ok: "shards_ok s" "rt_member s i"
    using assms(2) destroy_worker by (simp_all add: runtime_ok_def control_ok_def)
  have "shards_ok (give_up_share i ?s)" using assms(3) destroy_worker(1) by (auto intro: shards_ok_cong)
  with destroy_worker ok show ?thesis by (intro drop_uses_registry [OF ok(1), of i ?s]) simp_all
qed (simp_all add: uses_registry_def)

lemma thread_step_uses:
  assumes "thread_step s s'" "shards_ok s" "shards_ok s'"
  shows "uses_registry s s'"
  using assms(1)
proof (cases rule: thread_step.cases)
  case (bind i)
  with bind_owned [OF assms(2)] show ?thesis by (intro uses_registryI [of _ _ "Bind i (rt_shards s ! i)"]) simp_all
next
  case (unbind i)
  then show ?thesis by (intro uses_registryI [of _ _ "Unbind i"]) simp_all
next
  case (end_thread i)
  then have i: "i < rt_workers s" using phase_worker [OF assms(2), of i] by simp
  have "shards_ok (give_up_share i (set_phase i Ended s))" using assms(3) end_thread by simp
  with end_thread i show ?thesis by (intro drop_uses_registry [OF assms(2), of i "set_phase i Ended s"]) simp_all
qed

lemma run_step_uses:
  assumes "run_step s s'" "shards_ok s"
  shows "uses_registry s s'"
  using assms(1)
proof (cases rule: run_step.cases)
  case (count i c n r)
  with shards_okD(3) [OF assms(2), of i] show ?thesis
    by (intro uses_registryI [of _ _ "Add i c n"]) simp_all
qed (simp add: uses_registry_def)

lemma runtime_step_uses:
  assumes "runtime_step s s'" "runtime_ok s"
  shows "uses_registry s s'"
  using assms runtime_ok_step [OF assms] control_step_uses thread_step_uses run_step_uses
  unfolding runtime_step_def runtime_ok_def by blast

text \<open>
  C15 (refinement): every step of the controlling thread and of the worker threads leaves the
  registry alone or is exactly one operation on it, the one the code makes there: a thread is
  bound to its own worker's shard as it enters \<^verbatim>\<open>run\<close>, counts only while inside and in that
  shard, is unbound as it leaves; a shard is dropped only as its last owner goes. Each meets the
  ownership the registry relies on.
\<close>

theorem runtime_uses_registry:
  assumes "new_gateway srt grow envs cfg new_registry = (Inr g, r)"
    and "runtime_step\<^sup>*\<^sup>* (new_runtime g r) s" "runtime_step s s'"
  shows "rt_registry s' = rt_registry s
    \<or> (\<exists>e. lawful_use s s' e \<and> owned_use (rt_registry s) e \<and> registry_step (rt_registry s) e = Some (rt_registry s'))"
  using runtime_step_uses [OF assms(3) reachable_runtime_ok [OF assms(1,2)]] by (simp add: uses_registry_def)

section \<open>Shutting down\<close>

text \<open>
  C19 (safety): when the destructor has finished, no thread is left and none is bound, and
  every shard of the gateway has been destroyed; and a worker is only ever destroyed without a
  joinable thread, so \<^verbatim>\<open>std::terminate\<close> is never called.
\<close>

theorem destructor_leaves_nothing:
  assumes "new_gateway srt grow envs cfg new_registry = (Inr g, r)"
    and "runtime_step\<^sup>*\<^sup>* (new_runtime g r) s"
  shows "(\<forall>k. rt_control s = Destroying k \<longrightarrow> (\<forall>i. \<not> is_joinable (rt_phase s i)))
    \<and> (rt_control s = Destroyed \<longrightarrow>
         (\<forall>i. \<not> is_joinable (rt_phase s i) \<and> tls_worker_shard (rt_registry s) i = None)
         \<and> (\<forall>i<rt_workers s. live_shards (rt_registry s) (rt_shards s ! i) = None))"
proof -
  have ok: "shards_ok s" "control_ok s" using reachable_runtime_ok [OF assms] by (simp_all add: runtime_ok_def)
  have share: "\<not> is_joinable p \<Longrightarrow> \<not> holds_share p \<and> p \<noteq> Running" for p by (cases p) auto
  have "live_shards (rt_registry s) (rt_shards s ! i) = None \<and> tls_worker_shard (rt_registry s) i = None"
    if "i < rt_workers s" "\<not> is_joinable (rt_phase s i)" "\<not> rt_member s i" for i
    using shards_okD(3,4) [OF ok(1), of i] share [OF that(2)] that by auto
  moreover have "tls_worker_shard (rt_registry s) i = None" if "\<not> is_joinable (rt_phase s i)" for i
    using shards_okD(3) [OF ok(1), of i] share [OF that] by simp
  ultimately show ?thesis using ok(2) by (auto simp: control_ok_def)
qed

text \<open>How much is left to do until a stop or a destruction is over.\<close>

fun phase_rank :: "thread_phase \<Rightarrow> nat" where
  "phase_rank Created = 3" | "phase_rank Running = 2" | "phase_rank Unbound = 1" | "phase_rank _ = 0"

fun control_rank :: "nat \<Rightarrow> control \<Rightarrow> nat" where
  "control_rank n (Closing k) = 3 * n + 7 + 2 * (n - k)"
| "control_rank n (InClose k) = 3 * n + 6 + 2 * (n - k)"
| "control_rank n (StoppingIo k) = 2 * n + 5 + (n - k)"
| "control_rank n (Joining k) = n + 3 + (n - k)"
| "control_rank n (Destroying k) = 1 + (n - k)"
| "control_rank n _ = 0"

definition shutdown_rank :: "runtime \<Rightarrow> nat" where
  "shutdown_rank s =
     control_rank (rt_workers s) (rt_control s) + sum (\<lambda>i. phase_rank (rt_phase s i)) {..<rt_workers s}"

fun shutting_down :: "control \<Rightarrow> bool" where
  "shutting_down (Closing k) = True"
| "shutting_down (InClose k) = True"
| "shutting_down (StoppingIo k) = True"
| "shutting_down (Joining k) = True"
| "shutting_down (Destroying k) = True"
| "shutting_down _ = False"

lemma sum_phase_update:
  fixes f :: "nat \<Rightarrow> thread_phase"
  assumes "i < n" "phase_rank p < phase_rank (f i)"
  shows "sum (\<lambda>j. phase_rank ((f(i := p)) j)) {..<n} < sum (\<lambda>j. phase_rank (f j)) {..<n}"
  by (rule sum_strict_mono_ex1) (use assms in auto)

lemma thread_step_rank:
  assumes "thread_step s s'" "shards_ok s"
  shows "shutdown_rank s' < shutdown_rank s"
  using assms(1)
proof (cases rule: thread_step.cases)
  case (bind i)
  with sum_phase_update [of i "rt_workers s" Running "rt_phase s"] phase_worker [OF assms(2), of i]
  show ?thesis by (simp add: shutdown_rank_def)
next
  case (unbind i)
  with sum_phase_update [of i "rt_workers s" Unbound "rt_phase s"] phase_worker [OF assms(2), of i]
  show ?thesis by (simp add: shutdown_rank_def)
next
  case (end_thread i)
  with sum_phase_update [of i "rt_workers s" Ended "rt_phase s"] phase_worker [OF assms(2), of i]
  show ?thesis by (simp add: shutdown_rank_def)
qed

lemma control_step_rank:
  assumes "control_step s s'" "shutting_down (rt_control s)" "control_ok s"
  shows "shutdown_rank s' < shutdown_rank s"
  using assms(1)
proof (cases rule: control_step.cases)
  case (join_thread i)
  then have "phase_rank (((rt_phase s)(i := Joined)) j) = phase_rank (rt_phase s j)" for j by simp
  with join_thread show ?thesis by (simp add: shutdown_rank_def)
qed (use assms(2,3) in \<open>auto simp: shutdown_rank_def control_ok_def\<close>)

lemma run_step_rank: "run_step s s' \<Longrightarrow> shutdown_rank s' = shutdown_rank s \<and> rt_control s' = rt_control s"
  by (cases rule: run_step.cases) (auto simp: shutdown_rank_def)

text \<open>A shutdown ends outside or with the destructor, and never leaves a joinable thread.\<close>

lemma shutdown_exit:
  assumes "runtime_step s s'" "shutting_down (rt_control s)" "\<not> shutting_down (rt_control s')"
  shows "rt_control s' = Outside \<and> \<not> rt_started s' \<or> rt_control s' = Destroyed"
proof -
  from assms(1) consider "control_step s s'" | "thread_step s s'" | "run_step s s'"
    unfolding runtime_step_def by blast
  then show ?thesis
  proof cases
    case 1
    then show ?thesis by (cases rule: control_step.cases) (use assms(2,3) in auto)
  next
    case 2
    from thread_step_phase [OF this] assms(2,3) show ?thesis by auto
  next
    case 3
    from run_step_rank [OF this] assms(2,3) show ?thesis by simp
  qed
qed

lemma shutdown_enabled:
  assumes "runtime_ok s" "shutting_down (rt_control s)"
  shows "\<exists>s'. control_step s s' \<or> thread_step s s'"
proof -
  from assms(1) have ok: "control_ok s" by (simp add: runtime_ok_def)
  show ?thesis
  proof (cases "rt_control s")
    case (Closing k)
    with ok consider "k < rt_workers s" | "k = rt_workers s" by (force simp: control_ok_def)
    with Closing close_begin close_done show ?thesis by metis
  next
    case (InClose k)
    with close_end show ?thesis by metis
  next
    case (StoppingIo k)
    with ok consider "k < rt_workers s" | "k = rt_workers s" by (force simp: control_ok_def)
    with StoppingIo stop_io stop_io_done show ?thesis by metis
  next
    case (Joining k)
    with ok consider "k < rt_workers s" "rt_io_stopped s k" | "k = rt_workers s" by (force simp: control_ok_def)
    then show ?thesis
    proof cases
      case 1
      then show ?thesis
        using bind [of s k] unbind [of s k] end_thread [of s k] join_thread [of s k] join_none [of s k] Joining
        by (cases "rt_phase s k") auto
    next
      case 2
      with Joining join_done show ?thesis by metis
    qed
  next
    case (Destroying k)
    with ok consider "k < rt_workers s" "\<not> is_joinable (rt_phase s k)" | "k = rt_workers s"
      by (force simp: control_ok_def)
    with Destroying destroy_worker destroy_done show ?thesis by metis
  qed (use assms(2) in auto)
qed

text \<open>What has to go on for a shutdown to end: the controlling thread, and threads on their way out.\<close>

definition shutdown_progress :: "runtime \<Rightarrow> runtime \<Rightarrow> bool" where
  "shutdown_progress s s' \<longleftrightarrow> control_step s s' \<or> thread_step s s'"

interpretation shutdown: fair_progress runtime_step runtime_ok shutdown_progress
    "\<lambda>s. shutting_down (rt_control s)" shutdown_rank
proof unfold_locales
  fix s s'
  assume ok: "runtime_ok s" and pending: "shutting_down (rt_control s)"
  show "\<exists>s'. shutdown_progress s s'" using shutdown_enabled [OF ok pending] by (simp add: shutdown_progress_def)
  show less: "shutdown_rank s' < shutdown_rank s" if "shutdown_progress s s'"
    using that ok thread_step_rank control_step_rank [OF _ pending]
    unfolding shutdown_progress_def runtime_ok_def by blast
  show "shutdown_rank s' \<le> shutdown_rank s" if "runtime_step s s'"
    using that less run_step_rank [of s s'] unfolding runtime_step_def shutdown_progress_def by (auto simp: less_imp_le)
qed

text \<open>
  C16 (liveness): every \<^verbatim>\<open>stop\<close>, every rollback of a failed \<^verbatim>\<open>start\<close> and every destruction
  comes to an end, with no thread left to join, whether or not the workers still have
  connections: in every infinite run in which the controlling thread and the threads that can
  leave \<^verbatim>\<open>run\<close> are not passed over for ever (weak fairness), whatever else the threads do meanwhile.
\<close>

theorem shutdown_terminates:
  assumes "new_gateway srt grow envs cfg new_registry = (Inr g, r)"
    and "runtime_step\<^sup>*\<^sup>* (new_runtime g r) (run 0)" "shutting_down (rt_control (run 0))"
    and "fair_run runtime_step (\<lambda>s s'. control_step s s' \<or> thread_step s s') run"
  shows "\<exists>n. (rt_control (run n) = Outside \<and> \<not> rt_started (run n) \<or> rt_control (run n) = Destroyed)
    \<and> (\<forall>i. \<not> is_joinable (rt_phase (run n) i))"
proof -
  have ok: "runtime_ok (run 0)" by (rule reachable_runtime_ok [OF assms(1,2)])
  have fair: "fair_run runtime_step shutdown_progress run"
    using assms(4) by (simp add: shutdown_progress_def [abs_def])
  from shutdown.first_done [OF fair ok assms(3)] obtain n where
    n: "runtime_ok (run n)" "runtime_step (run n) (run (Suc n))" "shutting_down (rt_control (run n))"
      "\<not> shutting_down (rt_control (run (Suc n)))" by blast
  from shutdown_exit [OF n(2-4)] have exit: "rt_control (run (Suc n)) = Outside \<and> \<not> rt_started (run (Suc n))
      \<or> rt_control (run (Suc n)) = Destroyed" .
  have "control_ok (run (Suc n))" using runtime_ok_step [OF n(2,1)] by (simp add: runtime_ok_def)
  with exit have "\<forall>i. \<not> is_joinable (rt_phase (run (Suc n)) i)" by (auto simp: control_ok_def)
  with exit show ?thesis by blast
qed

section \<open>A run\<close>

text \<open>Two workers are constructed; the first thread is started and runs; the second cannot be created.\<close>

definition demo_shards :: metrics_registry where
  "demo_shards = snd (new_gateway sort_key (\<lambda>n. 2 * n + 1) [ok_env, ok_env] main_config new_registry)"

lemma demo_new: "new_gateway sort_key (\<lambda>n. 2 * n + 1) [ok_env, ok_env] main_config new_registry = (Inr demo_gateway, demo_shards)"
  unfolding demo_shards_def demo_gateway_new [symmetric] by simp

definition demo_rt0 :: runtime where
  "demo_rt0 = new_runtime demo_gateway demo_shards"

definition demo_rt1 :: runtime where
  "demo_rt1 = set_control (Starting 0) demo_rt0"

definition demo_rt2 :: runtime where
  "demo_rt2 = set_control (Starting 1) (set_phase 0 Created (spawn_accept 0 demo_rt1))"

definition demo_rt3 :: runtime where
  "demo_rt3 = set_phase 0 Running
     (demo_rt2\<lparr>rt_registry := bind_thread_local_shard 0 (rt_shards demo_rt2 ! 0) (rt_registry demo_rt2)\<rparr>)"

definition demo_rt4 :: runtime where
  "demo_rt4 = set_control (Closing 0) (spawn_accept 1 demo_rt3)"

lemmas demo_rt_defs = demo_rt1_def demo_rt2_def demo_rt3_def demo_rt4_def

lemma demo_rt0_simps [simp]:
  "rt_shards demo_rt0 = [0, 1]" "rt_phase demo_rt0 = (\<lambda>_. NoThread)"
  "rt_control demo_rt0 = Outside" "\<not> rt_started demo_rt0"
  by (simp_all add: demo_rt0_def new_runtime_def demo_gateway_def fresh_workers_def)

lemma demo_rt_steps:
  "runtime_step demo_rt0 demo_rt1" "runtime_step demo_rt1 demo_rt2"
  "runtime_step demo_rt2 demo_rt3" "runtime_step demo_rt3 demo_rt4"
proof -
  have "control_step demo_rt0 demo_rt1" unfolding demo_rt1_def by (rule start_call) simp_all
  then show "runtime_step demo_rt0 demo_rt1" by (simp add: runtime_step_def)
  have "control_step demo_rt1 demo_rt2" unfolding demo_rt2_def
    using start_thread [of demo_rt1 0] by (simp add: demo_rt1_def)
  then show "runtime_step demo_rt1 demo_rt2" by (simp add: runtime_step_def)
  have "thread_step demo_rt2 demo_rt3" unfolding demo_rt3_def
    by (rule bind) (simp add: demo_rt2_def)
  then show "runtime_step demo_rt2 demo_rt3" by (simp add: runtime_step_def)
  have "control_step demo_rt3 demo_rt4" unfolding demo_rt4_def
    by (rule start_thread_fails [of _ 1]) (simp_all add: demo_rt_defs)
  then show "runtime_step demo_rt3 demo_rt4" by (simp add: runtime_step_def)
qed

lemma demo_rt_reachable:
  "runtime_step\<^sup>*\<^sup>* (new_runtime demo_gateway demo_shards) demo_rt3"
  "runtime_step\<^sup>*\<^sup>* (new_runtime demo_gateway demo_shards) demo_rt4"
  "runtime_step\<^sup>*\<^sup>* (new_runtime demo_gateway demo_shards) demo_rt2"
proof -
  show "runtime_step\<^sup>*\<^sup>* (new_runtime demo_gateway demo_shards) demo_rt2"
    unfolding demo_rt0_def [symmetric] using demo_rt_steps(1,2)
    by (meson r_into_rtranclp rtranclp_trans)
  show *: "runtime_step\<^sup>*\<^sup>* (new_runtime demo_gateway demo_shards) demo_rt3"
    unfolding demo_rt0_def [symmetric] using demo_rt_steps(1-3)
    by (meson r_into_rtranclp rtranclp_trans)
  show "runtime_step\<^sup>*\<^sup>* (new_runtime demo_gateway demo_shards) demo_rt4"
    using * demo_rt_steps(4) by (rule rtranclp.rtrancl_into_rtrancl)
qed

theorem worker_thread_counts_witness: "tls_worker_shard (rt_registry demo_rt3) 0 = Some 0"
proof -
  have "rt_phase demo_rt3 0 = Running" "rt_shards demo_rt3 = [0, 1]" by (simp_all add: demo_rt_defs)
  with worker_thread_counts [OF demo_new demo_rt_reachable(1)] show ?thesis by simp
qed

theorem runtime_uses_registry_witness:
  "\<exists>e. lawful_use demo_rt2 demo_rt3 e \<and> registry_step (rt_registry demo_rt2) e = Some (rt_registry demo_rt3)"
proof -
  have "tls_worker_shard (rt_registry demo_rt3) 0 = Some 0" "tls_worker_shard (rt_registry demo_rt2) 0 = None"
    using shards_okD(3) [of demo_rt2 0] reachable_runtime_ok [OF demo_new demo_rt_reachable(3)]
    by (simp_all add: runtime_ok_def demo_rt_defs bind_thread_local_shard_def)
  then have "rt_registry demo_rt3 \<noteq> rt_registry demo_rt2" by force
  with runtime_uses_registry [OF demo_new demo_rt_reachable(3) demo_rt_steps(3)] show ?thesis by blast
qed

text \<open>The gateway is destroyed without having been started.\<close>

definition demo_end1 :: runtime where
  "demo_end1 = set_control (Destroying 0) (demo_rt0\<lparr>rt_in_destructor := True\<rparr>)"

definition demo_end2 :: runtime where
  "demo_end2 = set_control (Destroying 1)
     (give_up_share 0 (demo_end1\<lparr>rt_member := (rt_member demo_end1)(0 := False)\<rparr>))"

definition demo_end3 :: runtime where
  "demo_end3 = set_control (Destroying 2)
     (give_up_share 1 (demo_end2\<lparr>rt_member := (rt_member demo_end2)(1 := False)\<rparr>))"

definition demo_end4 :: runtime where
  "demo_end4 = set_control Destroyed demo_end3"

lemmas demo_end_defs = demo_end1_def demo_end2_def demo_end3_def demo_end4_def

lemma demo_end_steps:
  "control_step demo_rt0 demo_end1" "control_step demo_end1 demo_end2"
  "control_step demo_end2 demo_end3" "control_step demo_end3 demo_end4"
proof -
  show "control_step demo_rt0 demo_end1"
    using destroy_call [of demo_rt0] by (simp add: demo_end1_def)
  show "control_step demo_end1 demo_end2"
    unfolding demo_end2_def using destroy_worker [of demo_end1 0] by (simp add: demo_end1_def)
  show "control_step demo_end2 demo_end3"
    unfolding demo_end3_def using destroy_worker [of demo_end2 1] by (simp add: demo_end_defs numeral_2_eq_2)
  show "control_step demo_end3 demo_end4"
    unfolding demo_end4_def by (rule destroy_done) (simp add: demo_end_defs)
qed

lemma demo_end_reachable: "runtime_step\<^sup>*\<^sup>* (new_runtime demo_gateway demo_shards) demo_end4"
  unfolding demo_rt0_def [symmetric] using demo_end_steps
  by (meson runtime_step_def r_into_rtranclp rtranclp_trans)

theorem destructor_leaves_nothing_witness:
  "rt_control demo_end4 = Destroyed \<and> live_shards (rt_registry demo_end4) 0 = None
   \<and> live_shards (rt_registry demo_end4) 1 = None"
proof -
  have "rt_control demo_end4 = Destroyed" "rt_shards demo_end4 = [0, 1]" by (simp_all add: demo_end_defs)
  with destructor_leaves_nothing [OF demo_new demo_end_reachable] show ?thesis by (auto dest: spec [of _ 0] spec [of _ 1])
qed

text \<open>The rollback, while the first thread has an accept loop to run, in some fair run from it.\<close>

theorem shutdown_terminates_witness:
  "\<exists>run n. run 0 = demo_rt4 \<and> rt_busy (run 0) 0 \<and> rt_phase (run 0) 0 = Running
     \<and> fair_run runtime_step (\<lambda>s s'. control_step s s' \<or> thread_step s s') run
     \<and> (\<forall>i. \<not> is_joinable (rt_phase (run n) i))"
proof -
  obtain run where run: "run 0 = demo_rt4" "fair_run runtime_step (\<lambda>s s'. control_step s s' \<or> thread_step s s') run"
    using fair_run_exists [of "\<lambda>s s'. control_step s s' \<or> thread_step s s'" runtime_step demo_rt4]
    unfolding runtime_step_def by blast
  have "rt_busy demo_rt4 0" "rt_phase demo_rt4 0 = Running" "shutting_down (rt_control demo_rt4)"
    by (simp_all add: demo_rt_defs spawn_accept_def set_phase_def set_control_def)
  with shutdown_terminates [OF demo_new, of run] run demo_rt_reachable(2) show ?thesis by metis
qed

end
