(* ===== verification/Gateway_System.thy ===== *)
theory Gateway_System imports Worker Worker_Threads begin

text \<open>
  The whole gateway at work: the controlling thread and the worker threads of theory
  \<open>Worker_Threads\<close>, where each running worker thread takes turns of its spine's coroutines as in
  theory \<open>Worker\<close>, all workers over one metrics registry.
\<close>

section \<open>State and steps\<close>

text \<open>
  Per worker: its spine, whether its accept loop has not returned, its connections. The thread
  that runs \<^verbatim>\<open>accept_loop\<close> only exists once the spine has been started.
\<close>

record system =
  sys_rt :: runtime
  sys_spine :: "nat \<Rightarrow> spine"
  sys_accepting :: "nat \<Rightarrow> bool"
  sys_conns :: "nat \<Rightarrow> connection list"

definition new_system :: "gateway \<Rightarrow> metrics_registry \<Rightarrow> system" where
  "new_system g r = \<lparr>sys_rt = new_runtime g r, sys_spine = (\<lambda>i. worker_spine (workers g ! i)),
     sys_accepting = (\<lambda>_. True), sys_conns = (\<lambda>_. [])\<rparr>"

text \<open>The worker \<open>i\<close> as its own coroutines see it, and the system after one of their turns.\<close>

definition worker_at :: "nat \<Rightarrow> system \<Rightarrow> worker_state" where
  "worker_at i s = \<lparr>ws_spine = sys_spine s i, ws_accepting = sys_accepting s i,
     ws_conns = sys_conns s i, ws_metrics = rt_registry (sys_rt s)\<rparr>"

text \<open>What keeps \<^verbatim>\<open>io->run()\<close> from returning: the accept loop, or a connection that is not done.\<close>

definition has_work :: "worker_state \<Rightarrow> bool" where
  "has_work w \<longleftrightarrow> ws_accepting w \<or> list_ex (\<lambda>c. conn_pc c \<noteq> PcDone) (ws_conns w)"

definition put_worker :: "nat \<Rightarrow> worker_state \<Rightarrow> system \<Rightarrow> system" where
  "put_worker i w s =
     \<lparr>sys_rt = (sys_rt s)\<lparr>rt_registry := ws_metrics w,
        rt_busy := (rt_busy (sys_rt s))(i := rt_busy (sys_rt s) i \<and> has_work w)\<rparr>,
      sys_spine = (sys_spine s)(i := ws_spine w),
      sys_accepting = (sys_accepting s)(i := ws_accepting w),
      sys_conns = (sys_conns s)(i := ws_conns w)\<rparr>"

text \<open>The controlling thread closes acceptors; the rest of a spine is out of its reach.\<close>

definition controlled :: "runtime \<Rightarrow> system \<Rightarrow> system" where
  "controlled rt s = s\<lparr>sys_rt := rt,
     sys_spine := (\<lambda>i. if rt_closed rt i then stop_spine (sys_spine s i) else sys_spine s i)\<rparr>"

fun own_turn :: "worker_event \<Rightarrow> bool" where
  "own_turn (AcceptResult result) = True"
| "own_turn (Resume k result) = True"
| "own_turn _ = False"

text \<open>
  A turn of the accept loop uses the acceptor, which is not made for two threads: while the
  controlling thread is inside the call that closes it, the turn is a data race, undefined.
\<close>

definition races :: "system \<Rightarrow> nat \<Rightarrow> worker_event \<Rightarrow> bool" where
  "races s i e \<longleftrightarrow>
     (case e of AcceptResult result \<Rightarrow> sys_accepting s i \<and> rt_control (sys_rt s) = InClose i | _ \<Rightarrow> False)"

definition worker_turn :: "'p llhttp \<Rightarrow> nat \<Rightarrow> system \<Rightarrow> worker_event \<Rightarrow> worker_state option" where
  "worker_turn ll i s e = (if races s i e then None else worker_step ll i (worker_at i s) e)"

text \<open>
  A context that has been stopped starts no further turn. Whoever holds the gateway may
  reload the routes of a worker.
\<close>

inductive system_step :: "'p llhttp \<Rightarrow> system \<Rightarrow> system \<Rightarrow> bool" for ll where
  control: "control_step (sys_rt s) rt \<Longrightarrow> system_step ll s (controlled rt s)"
| thread: "thread_step (sys_rt s) rt \<Longrightarrow> system_step ll s (s\<lparr>sys_rt := rt\<rparr>)"
| turn: "rt_phase (sys_rt s) i = Running \<Longrightarrow> \<not> rt_io_stopped (sys_rt s) i \<Longrightarrow> own_turn e \<Longrightarrow>
     worker_turn ll i s e = Some w \<Longrightarrow> system_step ll s (put_worker i w s)"
| reload: "i < rt_workers (sys_rt s) \<Longrightarrow> rt_member (sys_rt s) i \<Longrightarrow> is_finalized snapshot \<Longrightarrow>
     system_step ll s (s\<lparr>sys_spine := (sys_spine s)(i := reload_route_config snapshot (sys_spine s i))\<rparr>)"

lemma system_simps [simp]:
  "ws_metrics (worker_at i s) = rt_registry (sys_rt s)" "ws_conns (worker_at i s) = sys_conns s i"
  "ws_spine (worker_at i s) = sys_spine s i"
  "sys_rt (put_worker i w s) = (sys_rt s)\<lparr>rt_registry := ws_metrics w,
     rt_busy := (rt_busy (sys_rt s))(i := rt_busy (sys_rt s) i \<and> has_work w)\<rparr>"
  "sys_spine (put_worker i w s) = (sys_spine s)(i := ws_spine w)"
  "sys_conns (put_worker i w s) = (sys_conns s)(i := ws_conns w)"
  "sys_rt (controlled rt s) = rt" "sys_conns (controlled rt s) = sys_conns s"
  "route_config (sys_spine (controlled rt s) i) = route_config (sys_spine s i)"
  "sys_rt (new_system g r) = new_runtime g r" "sys_conns (new_system g r) i = []"
  by (simp_all add: worker_at_def put_worker_def controlled_def stop_spine_def new_system_def)

lemma worker_turn_Some: "worker_turn ll i s e = Some w \<Longrightarrow> worker_step ll i (worker_at i s) e = Some w"
  by (simp add: worker_turn_def split: if_splits)

lemma worker_turn_Resume [simp]:
  "worker_turn ll i s (Resume k result) = worker_step ll i (worker_at i s) (Resume k result)"
  by (simp add: worker_turn_def races_def)

section \<open>A turn is a sequence of additions\<close>

definition adds_of :: "nat \<Rightarrow> metrics_registry \<Rightarrow> metrics_registry \<Rightarrow> bool" where
  "adds_of t = (\<lambda>r r'. \<exists>c n. thread_add t c n r = Some r')\<^sup>*\<^sup>*"

lemma adds_of_refl [simp]: "adds_of t r r"
  by (simp add: adds_of_def)

lemma adds_of_trans: "adds_of t r r1 \<Longrightarrow> adds_of t r1 r2 \<Longrightarrow> adds_of t r r2"
  unfolding adds_of_def by (rule rtranclp_trans)

lemma adds_adds_of: "adds (map (Pair t) xs) r = Some r' \<Longrightarrow> adds_of t r r'"
proof (induction xs arbitrary: r)
  case (Cons x xs)
  obtain c n where x: "x = (c, n)" by (cases x)
  with Cons.prems obtain r1 where r1: "thread_add t c n r = Some r1" "adds (map (Pair t) xs) r1 = Some r'"
    by (auto simp: bind_eq_Some_conv)
  from r1(1) have "adds_of t r r1" unfolding adds_of_def by blast
  with Cons.IH [OF r1(2)] show ?case by (blast intro: adds_of_trans)
qed simp

lemma record_call_adds_of: "record_call t call r = Some r' \<Longrightarrow> adds_of t r r'"
  by (metis record_call_adds adds_adds_of)

lemma do_effect_adds_of:
  "do_effect t s e = Some s' \<Longrightarrow> adds_of t (ws_metrics s) (ws_metrics s')"
  using record_call_adds_of [of t "Request _"] record_call_adds_of [of t "Response _ _"]
  by (cases e) (auto simp: with_metrics_Some)

lemma do_accept_effect_adds_of:
  "do_accept_effect t s e = Some s' \<Longrightarrow> adds_of t (ws_metrics s) (ws_metrics s')"
  using record_call_adds_of [of t Accept] by (cases e) (auto simp: with_metrics_Some)

lemma run_adds_of:
  assumes "\<And>s e s'. step s e = Some s' \<Longrightarrow> adds_of t (ws_metrics s) (ws_metrics s')"
  shows "run_option step s es = Some s' \<Longrightarrow> adds_of t (ws_metrics s) (ws_metrics s')"
proof (induction es arbitrary: s)
  case (Cons e es)
  then obtain s1 where "step s e = Some s1" "run_option step s1 es = Some s'"
    by (auto simp: bind_eq_Some_conv)
  with Cons.IH assms show ?case by (blast intro: adds_of_trans)
qed simp

lemma turn_adds_of:
  assumes "worker_step ll t s e = Some s'" "own_turn e"
  shows "adds_of t (ws_metrics s) (ws_metrics s')"
proof (cases e)
  case (AcceptResult result)
  with assms(1) run_adds_of [where t = t and s = s, OF do_accept_effect_adds_of] show ?thesis
    by (auto simp: resume_accept_def Let_def simp del: run_option.simps split: if_splits)
next
  case (Resume k result)
  let ?s = "s\<lparr>ws_conns := (ws_conns s)[k := conn_step ll (worker_checks s) (ws_conns s ! k) (delivered t s result)]\<rparr>"
  from Resume assms(1) run_adds_of [where t = t and s = ?s, OF do_effect_adds_of] show ?thesis
    by (auto simp: resume_connection_def Let_def split: if_splits)
qed (use assms(2) in auto)

text \<open>Additions of a bound thread change no other shard, no binding and no registration.\<close>

lemma adds_of_confined:
  assumes "adds_of t r r'" "tls_worker_shard r t = Some i"
  shows "tls_worker_shard r' = tls_worker_shard r \<and> weak_shards r' = weak_shards r
    \<and> (\<forall>j. j \<noteq> i \<longrightarrow> live_shards r' j = live_shards r j)"
  using assms(1) unfolding adds_of_def
proof (induction rule: rtranclp_induct)
  case (step y z)
  then show ?case using assms(2) by (auto simp: thread_add_def split: option.splits)
qed simp

section \<open>The threads of the system\<close>

lemma adds_of_runtime:
  assumes "adds_of i (rt_registry rt) r" "rt_phase rt i = Running"
  shows "runtime_step\<^sup>*\<^sup>* rt (rt\<lparr>rt_registry := r\<rparr>)"
  using assms(1) unfolding adds_of_def
proof (induction rule: rtranclp_induct)
  case (step y z)
  then obtain c n where "thread_add i c n y = Some z" by blast
  then have "run_step (rt\<lparr>rt_registry := y\<rparr>) (rt\<lparr>rt_registry := z\<rparr>)"
    using run_step.count [of "rt\<lparr>rt_registry := y\<rparr>" i c n z] assms(2) by simp
  with step.IH show ?case unfolding runtime_step_def by (blast intro: rtranclp.rtrancl_into_rtrancl)
qed simp

text \<open>A turn may be the last: the context has run out of work.\<close>

lemma turn_runtime:
  assumes "adds_of i (rt_registry rt) r" "rt_phase rt i = Running"
  shows "runtime_step\<^sup>*\<^sup>* rt (rt\<lparr>rt_registry := r, rt_busy := (rt_busy rt)(i := rt_busy rt i \<and> b)\<rparr>)"
proof (cases "rt_busy rt i \<and> \<not> b")
  case True
  then have "run_step (rt\<lparr>rt_registry := r\<rparr>) (rt\<lparr>rt_registry := r, rt_busy := (rt_busy rt)(i := rt_busy rt i \<and> b)\<rparr>)"
    using out_of_work [of "rt\<lparr>rt_registry := r\<rparr>" i] assms(2) by simp
  with adds_of_runtime [OF assms] show ?thesis
    unfolding runtime_step_def by (blast intro: rtranclp.rtrancl_into_rtrancl)
next
  case False
  then have "(rt_busy rt)(i := rt_busy rt i \<and> b) = rt_busy rt" by (intro ext) auto
  with adds_of_runtime [OF assms] show ?thesis by simp
qed

text \<open>Forgetting the spines, the system runs as the runtime does.\<close>

lemma system_step_runtime:
  assumes "system_step ll s s'"
  shows "runtime_step\<^sup>*\<^sup>* (sys_rt s) (sys_rt s')"
  using assms
proof (cases rule: system_step.cases)
  case (turn i e w)
  with turn_adds_of [OF worker_turn_Some [OF turn(5)] turn(4)] turn_runtime [of i "sys_rt s"] show ?thesis by simp
qed (auto simp: runtime_step_def)

text \<open>What the controlling thread and the worker threads' beginnings and ends do to the shards.\<close>

lemma give_up_share_shards:
  "weak_shards (rt_registry (give_up_share i s)) = weak_shards (rt_registry s)"
  "live_shards (rt_registry (give_up_share i s)) j \<in> {None, live_shards (rt_registry s) j}"
  by (simp_all add: give_up_share_def drop_shard_def)

definition shards_shrink :: "runtime \<Rightarrow> runtime \<Rightarrow> bool" where
  "shards_shrink s s' \<longleftrightarrow> rt_shards s' = rt_shards s
     \<and> weak_shards (rt_registry s') = weak_shards (rt_registry s)
     \<and> (\<forall>j. live_shards (rt_registry s') j \<in> {None, live_shards (rt_registry s) j})"

lemma shards_shrink_give_up:
  "rt_shards s' = rt_shards s \<Longrightarrow> rt_registry s' = rt_registry s \<Longrightarrow> shards_shrink s (give_up_share i s')"
  using give_up_share_shards [of i s'] by (simp add: shards_shrink_def)

lemma control_step_shards: "control_step s s' \<Longrightarrow> shards_shrink s s'"
proof (erule control_step.cases, goal_cases)
  case (17 u i)
  have "shards_shrink s (give_up_share i (s\<lparr>rt_member := (rt_member s)(i := False)\<rparr>))"
    by (rule shards_shrink_give_up) simp_all
  with 17 show ?case by (simp add: shards_shrink_def)
qed (simp_all add: shards_shrink_def)

lemma thread_step_shards: "thread_step s s' \<Longrightarrow> shards_shrink s s'"
proof (erule thread_step.cases, goal_cases)
  case (3 u i)
  then show ?case using shards_shrink_give_up [of "set_phase i Ended s" s i] by simp
qed (simp_all add: shards_shrink_def bind_thread_local_shard_def unbind_thread_local_shard_def)

section \<open>Invariant\<close>

lemma running_counts_in:
  assumes "shards_ok s" "rt_phase s i = Running"
  shows "counts_in i (rt_shards s ! i) (rt_registry s)"
proof -
  have "rt_shards s ! u \<noteq> rt_shards s ! i" if "rt_phase s u = Running" "u \<noteq> i" for u
    using shards_okD(2) [OF assms(1)] phase_worker [OF assms(1), of u] phase_worker [OF assms(1), of i] that assms(2)
    by (simp add: nth_eq_iff_index_eq)
  with assms shards_okD(1,3) [OF assms(1)] show ?thesis by (auto simp: counts_in_def)
qed

lemma other_shard:
  assumes "shards_ok s" "i < rt_workers s" "j < rt_workers s" "j \<noteq> i"
  shows "rt_shards s ! j \<noteq> rt_shards s ! i"
  using shards_okD(2) [OF assms(1)] assms(2-4) by (simp add: nth_eq_iff_index_eq)

text \<open>A worker's connections are sound, and its shard says what they have done as long as it lives.\<close>

definition served_ok :: "nat \<Rightarrow> system \<Rightarrow> bool" where
  "served_ok i s \<longleftrightarrow>
     (\<forall>c\<in>set (sys_conns s i). conn_inv c \<and> conn_pc c \<noteq> PcCrashed)
     \<and> is_finalized (route_config (sys_spine s i))
     \<and> (live_shards (rt_registry (sys_rt s)) (rt_shards (sys_rt s) ! i) \<noteq> None \<longrightarrow>
          (\<forall>d. shard_value (rt_registry (sys_rt s)) d (rt_shards (sys_rt s) ! i)
               = worker_total d (sys_conns s i)))"

definition system_ok :: "'p llhttp \<Rightarrow> system \<Rightarrow> bool" where
  [inv_defs]: "system_ok ll s \<longleftrightarrow>
     documented_llhttp ll \<and> runtime_ok (sys_rt s)
     \<and> weak_shards (rt_registry (sys_rt s)) = rt_shards (sys_rt s)
     \<and> (\<forall>i<rt_workers (sys_rt s). served_ok i s)"

lemma served_ok_keep:
  assumes "served_ok i s" "sys_conns s' i = sys_conns s i"
    and "route_config (sys_spine s' i) = route_config (sys_spine s i)"
    and "rt_shards (sys_rt s') = rt_shards (sys_rt s)"
    and "live_shards (rt_registry (sys_rt s')) (rt_shards (sys_rt s) ! i)
          \<in> {None, live_shards (rt_registry (sys_rt s)) (rt_shards (sys_rt s) ! i)}"
  shows "served_ok i s'"
  using assms by (auto simp: served_ok_def shard_value_def)

lemma system_ok_keep:
  assumes "system_ok ll s" "system_step ll s s'" "sys_conns s' = sys_conns s"
    and "\<And>i. route_config (sys_spine s' i) = route_config (sys_spine s i)"
    and "shards_shrink (sys_rt s) (sys_rt s')"
  shows "system_ok ll s'"
proof -
  have "runtime_ok (sys_rt s')"
    using runtime.inv_steps [OF system_step_runtime [OF assms(2)]] assms(1) by (simp add: system_ok_def)
  moreover have "served_ok i s'" if "i < rt_workers (sys_rt s')" for i
  proof (rule served_ok_keep [of i s])
    show "served_ok i s" using assms(1,5) that by (simp add: system_ok_def shards_shrink_def)
  qed (use assms(3-5) in \<open>simp_all add: shards_shrink_def\<close>)
  ultimately show ?thesis using assms(1,5) by (simp add: system_ok_def shards_shrink_def)
qed

text \<open>A running worker is in the state theory \<open>Worker\<close> describes.\<close>

lemma running_worker_ok:
  assumes "system_ok ll s" "rt_phase (sys_rt s) i = Running"
  shows "i < rt_workers (sys_rt s) \<and> worker_ok i (rt_shards (sys_rt s) ! i) (worker_at i s)"
proof -
  have ok: "shards_ok (sys_rt s)" using assms(1) by (simp add: system_ok_def runtime_ok_def)
  from phase_worker [OF ok, of i] assms(2) have i: "i < rt_workers (sys_rt s)" by simp
  with assms(1) have "served_ok i s" by (simp add: system_ok_def)
  moreover have "live_shards (rt_registry (sys_rt s)) (rt_shards (sys_rt s) ! i) \<noteq> None"
    using shards_okD(4) [OF ok i] assms(2) by simp
  ultimately show ?thesis
    using i running_counts_in [OF ok assms(2)] by (simp add: worker_ok_def served_ok_def)
qed

lemma turn_defined:
  assumes "system_ok ll s" "rt_phase (sys_rt s) i = Running" "own_turn e"
  shows "\<exists>w. worker_step ll i (worker_at i s) e = Some w \<and> worker_ok i (rt_shards (sys_rt s) ! i) w"
proof (rule worker_step_ok)
  show "documented_llhttp ll" using assms(1) by (simp add: system_ok_def)
  show "worker_ok i (rt_shards (sys_rt s) ! i) (worker_at i s)"
    using running_worker_ok [OF assms(1,2)] by simp
  show "worker_guard i (rt_shards (sys_rt s) ! i) (worker_at i s) e" using assms(3) by (cases e) simp_all
qed

lemma system_ok_turn:
  assumes ok: "system_ok ll s" and run: "rt_phase (sys_rt s) i = Running" "own_turn e"
    and turn: "worker_turn ll i s e = Some w" and step: "system_step ll s (put_worker i w s)"
  shows "system_ok ll (put_worker i w s)"
proof -
  let ?rt = "sys_rt s"
  have shards: "shards_ok ?rt" using ok by (simp add: system_ok_def runtime_ok_def)
  note w = worker_turn_Some [OF turn]
  have wok: "worker_ok i (rt_shards ?rt ! i) w" using turn_defined [OF ok run] w by simp
  have "tls_worker_shard (rt_registry ?rt) i = Some (rt_shards ?rt ! i)"
    using shards_okD(3) [OF shards, of i] run(1) by simp
  from adds_of_confined [OF turn_adds_of [OF w run(2)]] this
  have keep: "weak_shards (ws_metrics w) = weak_shards (rt_registry ?rt)"
    "\<And>j. j \<noteq> rt_shards ?rt ! i \<Longrightarrow> live_shards (ws_metrics w) j = live_shards (rt_registry ?rt) j" by auto
  have "served_ok j (put_worker i w s)" if j: "j < rt_workers ?rt" for j
  proof (cases "j = i")
    case True
    then show ?thesis using wok by (simp add: served_ok_def worker_ok_def)
  next
    case False
    have "rt_shards ?rt ! j \<noteq> rt_shards ?rt ! i"
      using other_shard [OF shards _ j False] running_worker_ok [OF ok run(1)] by simp
    with False keep(2) j ok show ?thesis
      by (intro served_ok_keep [of j s "put_worker i w s"]) (simp_all add: system_ok_def)
  qed
  moreover have "runtime_ok (sys_rt (put_worker i w s))"
    using runtime.inv_steps [OF system_step_runtime [OF step]] ok by (simp add: system_ok_def)
  ultimately show ?thesis using ok keep(1) by (simp add: system_ok_def)
qed

lemma system_ok_step:
  assumes "system_step ll s s'" "system_ok ll s"
  shows "system_ok ll s'"
  using assms(1)
proof (cases rule: system_step.cases)
  case (control rt)
  with assms control_step_shards [of "sys_rt s" rt] show ?thesis by (intro system_ok_keep [OF assms(2,1)]) simp_all
next
  case (thread rt)
  with assms thread_step_shards [of "sys_rt s" rt] show ?thesis by (intro system_ok_keep [OF assms(2,1)]) simp_all
next
  case (turn i e w)
  with assms system_ok_turn [of ll s i e w] show ?thesis by simp
next
  case (reload i snapshot)
  with assms(2) show ?thesis by (simp add: system_ok_def served_ok_def reload_route_config_def)
qed

interpretation gateway_system: step_refinement "system_step ll" "system_ok ll" sys_rt runtime_step
  for ll
  by unfold_locales (rule system_ok_step, assumption+, rule system_step_runtime)

section \<open>The system of a new gateway\<close>

lemma new_spine_routes: "new_spine srt grow env cfg = Inr sp \<Longrightarrow> route_config sp = Some (default_snapshot srt grow)"
  using new_spine_cases [of cfg env srt grow] by (auto simp: fresh_spine_def split: if_splits)

definition fresh_worker :: "metrics_registry \<Rightarrow> worker \<Rightarrow> bool" where
  "fresh_worker r w \<longleftrightarrow>
     live_shards r (metrics_shard w) = Some new_shard \<and> is_finalized (route_config (worker_spine w))"

lemma build_workers_fresh:
  assumes "std_sort srt" "build_workers srt grow envs cfg ws r = (Inr ws', r')"
    and "registry_ok r" "weak_shards r = map metrics_shard ws" "\<forall>w\<in>set ws. fresh_worker r w"
  shows "weak_shards r' = map metrics_shard ws' \<and> (\<forall>w\<in>set ws'. fresh_worker r' w)"
  using assms(2-)
proof (induction envs arbitrary: ws r)
  case (Cons env envs)
  obtain sp where sp: "new_spine srt grow env cfg = Inr sp"
    using Cons.prems(1) by (cases "new_spine srt grow env cfg") auto
  let ?w = "\<lparr>io_stopped = False, worker_spine = sp, metrics_shard = next_shard r, thread_joinable = False\<rparr>"
  let ?r = "snd (create_worker_shard r)"
  have "is_finalized (route_config sp)"
    using new_spine_routes [OF sp] assms(1) by (auto simp: is_finalized_def default_snapshot_def)
  moreover have "live_shards r (next_shard r) = None"
    using Cons.prems(2) by (auto simp: registry_ok_def)
  ultimately have "\<forall>w\<in>set (ws @ [?w]). fresh_worker ?r w"
    using Cons.prems(4) by (auto simp: fresh_worker_def create_worker_shard_def)
  moreover have "weak_shards ?r = map metrics_shard (ws @ [?w])"
    using Cons.prems(3) by (simp add: create_worker_shard_def)
  moreover have "registry_ok ?r" using registry_ok_step [OF Cons.prems(2), of CreateShard] by simp
  moreover have "build_workers srt grow envs cfg (ws @ [?w]) ?r = (Inr ws', r')"
    using Cons.prems(1) sp by (simp add: create_worker_shard_def)
  ultimately show ?case using Cons.IH [of "ws @ [?w]" ?r] by blast
qed simp

lemma new_system_ok:
  assumes "std_sort srt" "documented_llhttp ll" "new_gateway srt grow envs cfg new_registry = (Inr g, r)"
  shows "system_ok ll (new_system g r)"
proof -
  from assms(3) have "build_workers srt grow envs cfg [] new_registry = (Inr (workers g), r)"
    by (auto simp: new_gateway_def Let_def split: if_splits prod.splits sum.splits)
  from build_workers_fresh [OF assms(1) this new_registry_ok]
  have fresh: "weak_shards r = map metrics_shard (workers g)" "\<And>w. w \<in> set (workers g) \<Longrightarrow> fresh_worker r w"
    by (simp_all add: new_registry_def)
  have "served_ok i (new_system g r)" if "i < length (workers g)" for i
    using fresh(2) [OF nth_mem [OF that]] that
    by (simp add: served_ok_def fresh_worker_def new_runtime_def new_system_def shard_value_def worker_total_def)
  with fresh(1) assms(2) new_runtime_ok [OF assms(3)] show ?thesis
    by (simp add: system_ok_def new_runtime_def)
qed

lemma reachable_system_ok:
  assumes "std_sort srt" "documented_llhttp ll" "new_gateway srt grow envs cfg new_registry = (Inr g, r)"
    and "(system_step ll)\<^sup>*\<^sup>* (new_system g r) s"
  shows "system_ok ll s"
  by (rule gateway_system.inv_steps [OF assms(4) new_system_ok [OF assms(1-3)]])

section \<open>The gateway is safe\<close>

text \<open>
  C4 (safety): the gateway as a whole: from the construction on, in every interleaving of starts,
  stops, the destructor, all worker threads, the turns of all their coroutines and reloads of
  finalized routes, no connection reaches undefined behaviour, the threads use the registry as in
  theory \<open>Worker_Threads\<close>, and the one turn a running worker can take that is undefined is one of
  its accept loop while the controlling thread is inside the call that closes its acceptor. (That
  data race is in the program; a run ends where it happens.)
\<close>

theorem gateway_safe:
  assumes "std_sort srt" "documented_llhttp ll" "new_gateway srt grow envs cfg new_registry = (Inr g, r)"
    and "(system_step ll)\<^sup>*\<^sup>* (new_system g r) s"
  shows "(\<forall>i<rt_workers (sys_rt s). \<forall>c\<in>set (sys_conns s i). conn_pc c \<noteq> PcCrashed)
    \<and> (\<forall>i e. rt_phase (sys_rt s) i = Running \<and> own_turn e \<longrightarrow>
         (worker_turn ll i s e = None \<longleftrightarrow>
            (\<exists>result. e = AcceptResult result) \<and> sys_accepting s i \<and> rt_control (sys_rt s) = InClose i))
    \<and> runtime_step\<^sup>*\<^sup>* (new_runtime g r) (sys_rt s)"
proof -
  have ok: "system_ok ll s" by (rule reachable_system_ok [OF assms])
  then have "\<forall>i<rt_workers (sys_rt s). \<forall>c\<in>set (sys_conns s i). conn_pc c \<noteq> PcCrashed"
    by (auto simp: system_ok_def served_ok_def)
  moreover have "worker_turn ll i s e = None \<longleftrightarrow>
      (\<exists>result. e = AcceptResult result) \<and> sys_accepting s i \<and> rt_control (sys_rt s) = InClose i"
    if "rt_phase (sys_rt s) i = Running" "own_turn e" for i e
    using turn_defined [OF ok that] by (auto simp: worker_turn_def races_def split: worker_event.splits)
  moreover have "runtime_step\<^sup>*\<^sup>* (new_runtime g r) (sys_rt s)"
    using gateway_system.abs_steps [OF assms(4) new_system_ok [OF assms(1-3)]] by simp
  ultimately show ?thesis by (intro conjI allI impI) simp_all
qed

section \<open>The gateway's counters\<close>

lemma system_total:
  assumes "system_ok ll s" "\<forall>i<rt_workers (sys_rt s). rt_member (sys_rt s) i"
  shows "total (rt_registry (sys_rt s)) d = (\<Sum>i<rt_workers (sys_rt s). worker_total d (sys_conns s i))"
proof -
  let ?rt = "sys_rt s"
  have shards: "shards_ok ?rt" using assms(1) by (simp add: system_ok_def runtime_ok_def)
  have counted: "shard_value (rt_registry ?rt) d (rt_shards ?rt ! i) = worker_total d (sys_conns s i)"
    if i: "i < rt_workers ?rt" for i
  proof -
    have "served_ok i s" using assms(1) i by (simp add: system_ok_def)
    moreover have "live_shards (rt_registry ?rt) (rt_shards ?rt ! i) \<noteq> None"
      using shards_okD(4) [OF shards i] assms(2) i by simp
    ultimately show ?thesis by (simp add: served_ok_def)
  qed
  have "total (rt_registry ?rt) d = sum_list (map (shard_value (rt_registry ?rt) d) (rt_shards ?rt))"
    using assms(1) by (simp add: total_sum_list system_ok_def)
  also have "\<dots> = (\<Sum>i<rt_workers ?rt. shard_value (rt_registry ?rt) d (rt_shards ?rt ! i))"
    by (simp add: sum_list_sum_nth lessThan_atLeast0)
  also have "\<dots> = (\<Sum>i<rt_workers ?rt. worker_total d (sys_conns s i))"
    by (rule sum.cong) (simp_all add: counted)
  finally show ?thesis .
qed

text \<open>How many connections of all workers together a counter has counted.\<close>

definition all_counted :: "counter \<Rightarrow> system \<Rightarrow> nat" where
  "all_counted d s = (\<Sum>i<rt_workers (sys_rt s). length (filter (counted_by d) (sys_conns s i)))"

lemma system_counted:
  assumes "system_ok ll s" "\<forall>i<rt_workers (sys_rt s). rt_member (sys_rt s) i" "d \<notin> {BytesIn, BytesOut}"
  shows "total (rt_registry (sys_rt s)) d = of_nat (all_counted d s)"
proof -
  have "worker_total d (sys_conns s i) = of_nat (length (filter (counted_by d) (sys_conns s i)))"
    if "i < rt_workers (sys_rt s)" for i
    using assms(1,3) that by (intro worker_total_counted) (simp_all add: system_ok_def served_ok_def)
  then show ?thesis
    unfolding system_total [OF assms(1,2)] all_counted_def of_nat_sum by (intro sum.cong) simp_all
qed

lemma system_bytes:
  assumes "system_ok ll s" "\<forall>i<rt_workers (sys_rt s). rt_member (sys_rt s) i" "d \<in> {BytesIn, BytesOut}"
  shows "total (rt_registry (sys_rt s)) d =
    of_nat (\<Sum>i<rt_workers (sys_rt s). sum_list (map (conn_bytes d) (sys_conns s i)))"
proof -
  have "worker_total d (sys_conns s i) = of_nat (sum_list (map (conn_bytes d) (sys_conns s i)))"
    if "i < rt_workers (sys_rt s)" for i
    using assms(1,3) that by (intro worker_total_bytes) (simp_all add: system_ok_def served_ok_def)
  then show ?thesis
    unfolding system_total [OF assms(1,2)] of_nat_sum by (intro sum.cong) simp_all
qed

text \<open>
  The connections whose response was written: each is counted in one class, and its request was
  read.
\<close>

definition response_written :: "connection \<Rightarrow> bool" where
  "response_written c \<longleftrightarrow>
     list_ex (\<lambda>e. case e of SendResponse payload write_ec \<Rightarrow> write_ec = None | _ \<Rightarrow> False) (conn_log c)"

definition all_written :: "system \<Rightarrow> nat" where
  "all_written s = (\<Sum>i<rt_workers (sys_rt s). length (filter response_written (sys_conns s i)))"

lemma counted_once:
  assumes "conn_inv c"
  shows "of_bool (counted_by Responses2xx c) + of_bool (counted_by Responses4xx c)
      + of_bool (counted_by Responses5xx c) = (of_bool (response_written c) :: nat)"
    and "response_written c \<Longrightarrow> counted_by Requests c"
proof -
  show "of_bool (counted_by Responses2xx c) + of_bool (counted_by Responses4xx c)
      + of_bool (counted_by Responses5xx c) = (of_bool (response_written c) :: nat)"
    using assms
  proof (cases rule: conn_log_cases)
    case (written n read_ec status payload)
    then have "status \<in> {200, 400, 404, 405, 500}" by (simp add: good_response_def)
    then consider "status_counter status = Some Responses2xx" | "status_counter status = Some Responses4xx"
      | "status_counter status = Some Responses5xx"
      by (auto simp: status_counter_def)
    then show ?thesis
      by cases (simp_all add: written(3) counted_by_def response_written_def sent_status_response [OF written(2)])
  qed (use not_read_ok in \<open>auto simp: counted_by_def response_written_def\<close>)
  show "counted_by Requests c" if "response_written c"
    using assms
    by (cases rule: conn_log_cases) (use that in \<open>auto simp: counted_by_def response_written_def\<close>)
qed

lemma length_filter_of_bool: "length (filter P xs) = sum_list (map (\<lambda>x. of_bool (P x)) xs)"
  by (induction xs) simp_all

lemma filter_counted_once:
  assumes "\<forall>c\<in>set cs. conn_inv c"
  shows "length (filter (counted_by Responses2xx) cs) + length (filter (counted_by Responses4xx) cs)
    + length (filter (counted_by Responses5xx) cs) = length (filter response_written cs)"
  unfolding length_filter_of_bool sum_list_addf [symmetric]
  using assms counted_once(1) by (intro arg_cong [of _ _ sum_list] map_cong) auto

lemma system_answered:
  assumes "system_ok ll s"
  shows "all_counted Responses2xx s + all_counted Responses4xx s + all_counted Responses5xx s = all_written s"
    and "all_written s \<le> all_counted Requests s"
proof -
  have inv: "\<forall>c\<in>set (sys_conns s i). conn_inv c" if "i < rt_workers (sys_rt s)" for i
    using assms that by (simp add: system_ok_def served_ok_def)
  show "all_counted Responses2xx s + all_counted Responses4xx s + all_counted Responses5xx s = all_written s"
    unfolding all_counted_def all_written_def sum.distrib [symmetric]
    using filter_counted_once [OF inv] by (intro sum.cong) simp_all
  show "all_written s \<le> all_counted Requests s"
    unfolding all_counted_def all_written_def
    using counted_once(2) inv by (intro sum_mono filter_length_mono) auto
qed

text \<open>
  C3 (invariant): as long as the gateway is not being destroyed, the totals the metrics export are
  exactly what the connections of all its workers have done on their sockets: those accepted,
  those whose request was read, those on which a response with a status of each class was written
  without an error, and the bytes of those reads and of those responses. The three classes
  together are all the connections whose response was written, of which there are never more than
  requests, nor requests than accepts. (Totals are modulo \<open>2 ^ 64\<close>.)
\<close>

theorem gateway_totals:
  assumes "std_sort srt" "documented_llhttp ll" "new_gateway srt grow envs cfg new_registry = (Inr g, r)"
    and "(system_step ll)\<^sup>*\<^sup>* (new_system g r) s" "\<forall>i<rt_workers (sys_rt s). rt_member (sys_rt s) i"
  shows "(\<forall>d. total (rt_registry (sys_rt s)) d =
        of_nat (if d \<in> {BytesIn, BytesOut}
                then \<Sum>i<rt_workers (sys_rt s). sum_list (map (conn_bytes d) (sys_conns s i))
                else all_counted d s))
    \<and> all_counted Responses2xx s + all_counted Responses4xx s + all_counted Responses5xx s = all_written s
    \<and> all_written s \<le> all_counted Requests s
    \<and> all_counted Requests s \<le> (\<Sum>i<rt_workers (sys_rt s). length (sys_conns s i))
    \<and> all_counted Accepts s = (\<Sum>i<rt_workers (sys_rt s). length (sys_conns s i))"
proof -
  have ok: "system_ok ll s" by (rule reachable_system_ok [OF assms(1-4)])
  have "total (rt_registry (sys_rt s)) d =
        of_nat (if d \<in> {BytesIn, BytesOut}
                then \<Sum>i<rt_workers (sys_rt s). sum_list (map (conn_bytes d) (sys_conns s i))
                else all_counted d s)" for d
    using system_bytes [OF ok assms(5), of d] system_counted [OF ok assms(5), of d] by presburger
  moreover have "all_counted Requests s \<le> (\<Sum>i<rt_workers (sys_rt s). length (sys_conns s i))"
    unfolding all_counted_def by (intro sum_mono) simp
  moreover have "filter (counted_by Accepts) cs = cs" for cs by (simp add: counted_by_def)
  then have "all_counted Accepts s = (\<Sum>i<rt_workers (sys_rt s). length (sys_conns s i))"
    unfolding all_counted_def by presburger
  ultimately show ?thesis using system_answered [OF ok] by blast
qed

section \<open>The metrics page\<close>

lemma metrics_turn:
  assumes "counts_in t i (ws_metrics s)" "k < length (ws_conns s)" "conn_pc (ws_conns s ! k) = PcRead"
    and "parse ll request_view empty_context (new_codec ll default_codec_config) = (kSuccess, ctx, c)"
    and "req_method ctx = ''GET''" "req_target ctx = kMetricsPath"
  shows "\<exists>w. worker_step ll t s (Resume k (ReadResult request_view None)) = Some w
    \<and> conn_pc (ws_conns w ! k) = PcPost
    \<and> response_payload (ws_conns w ! k) =
        build_http_response 200 ''OK'' (render_prometheus (ws_metrics w)) ''text/plain; version=0.0.4; charset=utf-8''"
proof -
  from record_call_grown [OF assms(1), of "Request (of_nat (length request_view))"] obtain r where
    r: "record_request t (of_nat (length request_view)) (ws_metrics s) = Some r" by auto
  let ?payload = "build_http_response 200 ''OK'' (render_prometheus r) ''text/plain; version=0.0.4; charset=utf-8''"
  have "dispatch ll snapshot (metrics_text t request_view s) request_view = Some (Reply 200 ?payload)" for snapshot
    using r assms(4-6) by (simp add: dispatch_def metrics_text_def)
  then have step: "conn_step ll (worker_checks s) (ws_conns s ! k) (delivered t s (ReadResult request_view None))
      = goto PcPost (respond 200 ?payload (emit [ReadSocket (length request_view) None, RecordRequest (length request_view)] (ws_conns s ! k)))"
    using assms(3) by (simp add: conn_step_def after_read_def Let_def)
  show ?thesis
    using assms(2) r by (simp add: resume_connection_def Let_def step [unfolded delivered.simps] with_metrics_def goto_def respond_def emit_def)
qed


section \<open>A run\<close>

text \<open>Two workers; the first thread runs, accepts a connection and is about to read from it.\<close>

definition demo_system :: system where
  "demo_system = (new_system demo_gateway demo_shards)\<lparr>sys_rt := demo_rt3\<rparr>"

lemma controlled_open: "(\<And>i. \<not> rt_closed rt i) \<Longrightarrow> controlled rt s = s\<lparr>sys_rt := rt\<rparr>"
  by (simp add: controlled_def)

lemma demo_rt_control: "control_step demo_rt0 demo_rt1" "control_step demo_rt1 demo_rt2" "thread_step demo_rt2 demo_rt3"
proof -
  show "control_step demo_rt0 demo_rt1" unfolding demo_rt1_def by (rule start_call) simp_all
  show "control_step demo_rt1 demo_rt2" unfolding demo_rt2_def
    using start_thread [of demo_rt1 0] by (simp add: demo_rt1_def)
  show "thread_step demo_rt2 demo_rt3" unfolding demo_rt3_def by (rule bind) (simp add: demo_rt2_def)
qed

lemma demo_system_reachable: "(system_step ll)\<^sup>*\<^sup>* (new_system demo_gateway demo_shards) demo_system"
proof -
  let ?s = "\<lambda>rt. (new_system demo_gateway demo_shards)\<lparr>sys_rt := rt\<rparr>"
  have opened: "\<not> rt_closed demo_rt1 i" "\<not> rt_closed demo_rt2 i" for i
    by (simp_all add: demo_rt_defs demo_rt0_def new_runtime_def set_control_def set_phase_def)
  have "?s demo_rt0 = new_system demo_gateway demo_shards" by (simp add: new_system_def demo_rt0_def)
  moreover have "system_step ll (?s demo_rt0) (?s demo_rt1)"
    using system_step.control [of "?s demo_rt0" demo_rt1] demo_rt_control(1) opened by (simp add: controlled_open)
  moreover have "system_step ll (?s demo_rt1) (?s demo_rt2)"
    using system_step.control [of "?s demo_rt1" demo_rt2] demo_rt_control(2) opened by (simp add: controlled_open)
  moreover have "system_step ll (?s demo_rt2) (?s demo_rt3)"
    using system_step.thread [of "?s demo_rt2" demo_rt3] demo_rt_control(3) by simp
  ultimately show ?thesis unfolding demo_system_def
    by (metis (no_types, lifting) r_into_rtranclp rtranclp.rtrancl_into_rtrancl)
qed

lemma demo_system_simps [simp]:
  "rt_phase (sys_rt demo_system) 0 = Running" "\<not> rt_io_stopped (sys_rt demo_system) i"
  "rt_shards (sys_rt demo_system) = [0, 1]" "rt_member (sys_rt demo_system) i \<longleftrightarrow> i < 2"
  "sys_conns demo_system i = []" "sys_accepting demo_system i" "rt_control (sys_rt demo_system) = Starting 1"
  "spine_cfg (sys_spine demo_system 0) = main_config"
  by (simp_all add: demo_system_def demo_rt_defs demo_rt0_def new_runtime_def set_control_def set_phase_def
      new_system_def demo_gateway_def fresh_workers_def fresh_spine_def numeral_2_eq_2)

text \<open>A turn of the first worker, which runs in \<open>s\<close>.\<close>

lemma demo_turn:
  assumes "system_ok ll s" "rt_phase (sys_rt s) 0 = Running" "\<not> rt_io_stopped (sys_rt s) 0" "own_turn e"
    and "\<not> races s 0 e"
  shows "\<exists>w. worker_step ll 0 (worker_at 0 s) e = Some w \<and> system_step ll s (put_worker 0 w s)
     \<and> system_ok ll (put_worker 0 w s)"
proof -
  from turn_defined [OF assms(1,2,4)] obtain w where w: "worker_step ll 0 (worker_at 0 s) e = Some w" by blast
  then have "worker_turn ll 0 s e = Some w" using assms(5) by (simp add: worker_turn_def)
  from turn [OF assms(2-4) this] w assms(1) system_ok_step show ?thesis by blast
qed

lemma demo_reading:
  assumes "documented_llhttp ll"
  obtains s where "(system_step ll)\<^sup>*\<^sup>* (new_system demo_gateway demo_shards) s"
    "rt_phase (sys_rt s) 0 = Running" "\<not> rt_io_stopped (sys_rt s) 0" "rt_workers (sys_rt s) = 2"
    "\<forall>i<2. rt_member (sys_rt s) i" "sys_conns s 0 = [new_conn\<lparr>conn_pc := PcRead\<rparr>]" "sys_conns s 1 = []"
proof -
  have ok: "system_ok ll demo_system"
    by (rule reachable_system_ok [OF stable_sort.std_sort_axioms assms demo_new demo_system_reachable])
  have "own_turn (AcceptResult (AcceptSocket True))" "\<not> races demo_system 0 (AcceptResult (AcceptSocket True))"
    by (simp_all add: races_def)
  from demo_turn [OF ok demo_system_simps(1,2) this] obtain w1 where
    w1: "worker_step ll 0 (worker_at 0 demo_system) (AcceptResult (AcceptSocket True)) = Some w1"
      "system_step ll demo_system (put_worker 0 w1 demo_system)" "system_ok ll (put_worker 0 w1 demo_system)" by blast
  have c1: "ws_conns w1 = [new_conn]" "spine_cfg (ws_spine w1) = main_config"
  proof -
    have accepting: "ws_accepting (worker_at 0 demo_system)" by (simp add: worker_at_def)
    obtain reg where "record_accept 0 (ws_metrics (worker_at 0 demo_system)) = Some reg"
      "w1 = (worker_at 0 demo_system)\<lparr>ws_metrics := reg, ws_conns := [new_conn]\<rparr>"
      using w1(1) accepting by (cases "record_accept 0 (rt_registry (sys_rt demo_system))")
        (simp_all add: resume_accept_def Let_def with_metrics_def)
    then show "ws_conns w1 = [new_conn]" "spine_cfg (ws_spine w1) = main_config" by simp_all
  qed
  let ?s1 = "put_worker 0 w1 demo_system"
  have r1: "rt_phase (sys_rt ?s1) 0 = Running" "\<not> rt_io_stopped (sys_rt ?s1) 0"
    "own_turn (Resume 0 (SocketChecked True))" "\<not> races ?s1 0 (Resume 0 (SocketChecked True))"
    by (simp_all add: races_def)
  from demo_turn [OF w1(3) r1] obtain w2 where
    w2: "worker_step ll 0 (worker_at 0 ?s1) (Resume 0 (SocketChecked True)) = Some w2"
      "system_step ll ?s1 (put_worker 0 w2 ?s1)" "system_ok ll (put_worker 0 w2 ?s1)" by blast
  have checks: "enable_executor_affinity_checks main_config"
    by (simp add: main_config_def default_spine_config_def)
  have c2: "ws_conns w2 = [new_conn\<lparr>conn_pc := PcCoroutine\<rparr>]" "spine_cfg (ws_spine w2) = main_config"
    using w2(1) resume_connection_frame [of ll 0 0 "SocketChecked True" "worker_at 0 ?s1" w2] c1 checks
    by (simp_all add: conn_step_def new_conn_def goto_def)
  let ?s2 = "put_worker 0 w2 ?s1"
  have r2: "rt_phase (sys_rt ?s2) 0 = Running" "\<not> rt_io_stopped (sys_rt ?s2) 0"
    "own_turn (Resume 0 (CoroutineChecked True))" "\<not> races ?s2 0 (Resume 0 (CoroutineChecked True))"
    by (simp_all add: races_def)
  from demo_turn [OF w2(3) r2] obtain w3 where
    w3: "worker_step ll 0 (worker_at 0 ?s2) (Resume 0 (CoroutineChecked True)) = Some w3"
      "system_step ll ?s2 (put_worker 0 w3 ?s2)" by blast
  have c3: "ws_conns w3 = [new_conn\<lparr>conn_pc := PcRead\<rparr>]"
    using w3(1) resume_connection_frame [of ll 0 0 "CoroutineChecked True" "worker_at 0 ?s2" w3] c2
    by (simp add: conn_step_def new_conn_def goto_def)
  have "(system_step ll)\<^sup>*\<^sup>* (new_system demo_gateway demo_shards) (put_worker 0 w3 ?s2)"
    using demo_system_reachable w1(2) w2(2) w3(2) by (meson rtranclp.rtrancl_into_rtrancl)
  then show thesis by (rule that) (simp_all add: c3)
qed

text \<open>The rollback of a start that has failed begins to close the acceptor of the first worker.\<close>

lemma demo_closing:
  obtains s where "(system_step ll)\<^sup>*\<^sup>* (new_system demo_gateway demo_shards) s"
    "rt_phase (sys_rt s) 0 = Running" "sys_accepting s 0" "rt_control (sys_rt s) = InClose 0"
proof -
  let ?s = "\<lambda>rt. (new_system demo_gateway demo_shards)\<lparr>sys_rt := rt\<rparr>"
  let ?rt5 = "set_control (InClose 0) demo_rt4"
  have opened: "\<not> rt_closed demo_rt4 i" "\<not> rt_closed ?rt5 i" for i
    by (simp_all add: demo_rt_defs demo_rt0_def new_runtime_def set_control_def set_phase_def)
  have "control_step demo_rt3 demo_rt4" unfolding demo_rt4_def
    by (rule start_thread_fails [of _ 1]) (simp_all add: demo_rt_defs)
  then have "system_step ll demo_system (?s demo_rt4)"
    using system_step.control [of "?s demo_rt3" demo_rt4] opened by (simp add: controlled_open demo_system_def)
  moreover have "control_step demo_rt4 ?rt5" by (rule close_begin) (simp_all add: demo_rt_defs)
  then have "system_step ll (?s demo_rt4) (?s ?rt5)"
    using system_step.control [of "?s demo_rt4" ?rt5] opened by (simp add: controlled_open)
  ultimately have "(system_step ll)\<^sup>*\<^sup>* (new_system demo_gateway demo_shards) (?s ?rt5)"
    using demo_system_reachable by (meson rtranclp.rtrancl_into_rtrancl)
  then show thesis
    by (rule that) (simp_all add: demo_rt_defs new_system_def)
qed

theorem gateway_safe_witness:
  "\<exists>s s'. (system_step (demo_ll ''GET'' 8))\<^sup>*\<^sup>* (new_system demo_gateway demo_shards) s \<and> sys_conns s 0 \<noteq> []
     \<and> worker_turn (demo_ll ''GET'' 8) 0 s (Resume 0 (ReadResult ''/metrics'' None)) \<noteq> None
     \<and> (system_step (demo_ll ''GET'' 8))\<^sup>*\<^sup>* (new_system demo_gateway demo_shards) s'
     \<and> worker_turn (demo_ll ''GET'' 8) 0 s' (AcceptResult (AcceptSocket True)) = None"
proof -
  note safe = gateway_safe [OF stable_sort.std_sort_axioms demo_documented demo_new]
  obtain s where s: "(system_step (demo_ll ''GET'' 8))\<^sup>*\<^sup>* (new_system demo_gateway demo_shards) s"
    "rt_phase (sys_rt s) 0 = Running" "sys_conns s 0 = [new_conn\<lparr>conn_pc := PcRead\<rparr>]"
    using demo_reading [OF demo_documented] by metis
  have "own_turn (Resume 0 (ReadResult ''/metrics'' None))" by simp
  with safe [OF s(1)] s(2)
  have turn: "worker_turn (demo_ll ''GET'' 8) 0 s (Resume 0 (ReadResult ''/metrics'' None)) \<noteq> None" by blast
  obtain s' where s': "(system_step (demo_ll ''GET'' 8))\<^sup>*\<^sup>* (new_system demo_gateway demo_shards) s'"
    "rt_phase (sys_rt s') 0 = Running" "sys_accepting s' 0" "rt_control (sys_rt s') = InClose 0"
    using demo_closing by metis
  have "own_turn (AcceptResult (AcceptSocket True))" by simp
  with safe [OF s'(1)] s'(2-4)
  have "worker_turn (demo_ll ''GET'' 8) 0 s' (AcceptResult (AcceptSocket True)) = None" by blast
  with s turn s'(1) show ?thesis by fastforce
qed

theorem gateway_totals_witness:
  "\<exists>s. (system_step (demo_ll ''GET'' 8))\<^sup>*\<^sup>* (new_system demo_gateway demo_shards) s
     \<and> total (rt_registry (sys_rt s)) Accepts = 1 \<and> total (rt_registry (sys_rt s)) Requests = 0"
proof -
  obtain s where s: "(system_step (demo_ll ''GET'' 8))\<^sup>*\<^sup>* (new_system demo_gateway demo_shards) s"
    "rt_workers (sys_rt s) = 2" "\<forall>i<2. rt_member (sys_rt s) i"
    "sys_conns s 0 = [new_conn\<lparr>conn_pc := PcRead\<rparr>]" "sys_conns s 1 = []"
    using demo_reading [OF demo_documented] by metis
  have "all_counted Accepts s = 1" "all_counted Requests s = 0"
    using s(2,4,5) by (simp_all add: all_counted_def numeral_2_eq_2 new_conn_def counted_by_def)
  moreover have "\<forall>i<rt_workers (sys_rt s). rt_member (sys_rt s) i" using s(2,3) by simp
  note gateway_totals [OF stable_sort.std_sort_axioms demo_documented demo_new s(1) this, THEN conjunct1]
  ultimately have "total (rt_registry (sys_rt s)) Accepts = 1" "total (rt_registry (sys_rt s)) Requests = 0" by simp_all
  with s(1) show ?thesis by blast
qed

lemma read_logged: "counted_by Requests (after_read ll request_view None snapshot page c)"
  by (auto simp: counted_by_def after_read_def read_ok_def Let_def split: option.split reply.split)


end
