(* ===== verification/Spec2Isabelle.thy ===== *)
theory Spec2Isabelle imports Circuit_Breaker Rate_Limiter Connection_Pool Snapshot_Register Object_Handles Gateway_System begin

text \<open>
  A verification library for netp2, an HTTP gateway in C++20. Paths are relative to the
  repository's root.

  \<^bold>\<open>The program.\<close> \<^verbatim>\<open>src/app/main.cpp\<close> builds a \<^verbatim>\<open>GatewayRuntime\<close>
  (\<^verbatim>\<open>src/runtime/gateway_runtime.cpp\<close>) with one worker per core. A worker owns an
  \<^verbatim>\<open>io_context\<close>, a \<^verbatim>\<open>RuntimeSpine\<close> (\<^verbatim>\<open>src/runtime/spine.cpp\<close>), a metrics shard and a
  thread. The spine accepts connections and handles each in a coroutine: it reads once,
  parses with \<^verbatim>\<open>Http1Codec\<close> (\<^verbatim>\<open>src/protocol/http1_codec.cpp\<close>), loads the current
  \<^verbatim>\<open>RouteSnapshot\<close> (\<^verbatim>\<open>src/routing/route_snapshot.cpp\<close>) from the snapshot manager
  (\<^verbatim>\<open>include/netp2/config/config_snapshot.h\<close>), matches, answers, and counts in the metrics
  registry (\<^verbatim>\<open>src/observability/metrics.cpp\<close>). The connection pool
  (\<^verbatim>\<open>src/upstream/connection_pool.cpp\<close>), the circuit breaker and the rate limiter
  (\<^verbatim>\<open>src/resilience/\<close>) are components of a worker that the spine does not call yet: its
  upstream is a mock.

  \<^bold>\<open>The theories.\<close>
  \<^item> \<open>Prelude\<close>: strings, decimal numbers, durations, and the locales that are the contracts of
    components: \<open>machine\<close> and \<open>guarded_machine\<close> keep an invariant (the latter in runs within a
    guard, which are then defined), \<open>simulation\<close> refines an abstract machine;
    \<open>step_preserved\<close>, \<open>step_invariant\<close> and \<open>step_refinement\<close> are their counterparts for
    interleaved steps; \<open>fair_progress\<close> is that of liveness, in runs where a step that stays
    possible is taken at last.
  \<^item> \<open>Route_Patterns\<close>: \<^verbatim>\<open>split_path\<close>, \<^verbatim>\<open>host_matches\<close>, \<^verbatim>\<open>ip_in_cidr\<close>, with their index loops.
  \<^item> \<open>Route_Trie\<close>: the rule vector with its reallocations, the trie of pointers into it,
    building, sorting and searching it. \<^verbatim>\<open>std::sort\<close> is any routine of the locale
    \<open>std_sort\<close>.
  \<^item> \<open>Route_Snapshot\<close>: \<^verbatim>\<open>add_rule\<close>, \<^verbatim>\<open>finalize\<close>, \<^verbatim>\<open>match\<close>; what the code computes over the plain
    rule list (\<open>route_spec\<close>), the routing the documents ask for, Host, then Path, then Client IP
    (\<open>documented_route\<close>), and on which inputs the two agree.
  \<^item> \<open>Request_Context\<close>, \<open>Http1_Codec\<close>: the context, the callbacks, \<^verbatim>\<open>parse\<close>, \<^verbatim>\<open>reset\<close>. llhttp is
    the parameter \<open>'p llhttp\<close>; \<open>llhttp_script\<close> states what its documentation promises of
    callbacks, and \<open>scripted\<close> is an instance.
  \<^item> \<open>Circuit_Breaker\<close>: the three states with 32-bit counters and the automaton they refine.
  \<^item> \<open>Float64\<close>, \<open>Rate_Limiter\<close>: double arithmetic as correctly rounded real arithmetic
    (locale \<open>rounding\<close>), and the token bucket over it.
  \<^item> \<open>Connection_Pool\<close>: the pool, and the system of a pool and its clients.
  \<^item> \<open>Config_Snapshot\<close>: \<^verbatim>\<open>publish\<close> and \<^verbatim>\<open>load\<close> as interleaved steps on the two words of a
    \<^verbatim>\<open>shared_ptr\<close>, its reference counts and the shared mutex.
  \<^item> \<open>Snapshot_Register\<close>: the atomic register of values these steps refine, one by one.
  \<^item> \<open>Object_Handles\<close>: the public classes of the codec and of the route snapshot, which own their
    implementation through a \<^verbatim>\<open>unique_ptr\<close>: construction, moves, destruction and calls.
  \<^item> \<open>Metrics\<close>: shards, weak pointers, thread-local bindings, the recording calls as single
    atomic additions, and the Prometheus text.
  \<^item> \<open>Spine\<close>: responses, the default routes, the request dispatch, the connection coroutine
    cut at its suspension points, the accept loop; the locale \<open>routing_table\<close> is what the
    coroutine needs of a snapshot. A connection's log holds what it did on its socket, with the
    error codes it got, and what it counted; the theorems on counting compare the two.
  \<^item> \<open>Worker\<close>: one spine with all its connections: the turns of its coroutines interleaved with
    accepts, reloads of the routes, a stop, and the counting of other threads.
  \<^item> \<open>Gateway\<close>: construction, start with rollback, stop, destruction, and \<^verbatim>\<open>main\<close> with what it
    prints.
  \<^item> \<open>Worker_Threads\<close>: the same start, stop and destructor as steps of the controlling thread,
    interleaved with the worker threads that bind, count in and release their shards. A thread
    leaves \<^verbatim>\<open>io->run()\<close> when its context is stopped or out of work. Closing an acceptor takes time:
    \<open>InClose i\<close> lies between its beginning and its end.
  \<^item> \<open>Gateway_System\<close>: the two together, every worker's coroutines taking turns in its running
    thread, over one registry. A turn of an accept loop while the controlling thread is inside the
    call that closes its acceptor is a data race, and undefined here as it is in C++; the
    theorems about reachable systems speak of the runs up to such a turn.
  \<^item> this theory: the runtime's threads keep to what \<open>Worker\<close> assumes of them.

  \<^bold>\<open>State and operations.\<close> Classes are records, operations take and return them. Readings of
  the steady clock, answers of the operating system and of Boost.Asio are arguments, so the
  theorems hold for all of them. Counters that are words in the program are words here;
  sizes are natural numbers where nothing can wrap. Exceptions are values of an error
  type. Undefined behaviour (a dangling or null pointer, a call of \<^verbatim>\<open>std::terminate\<close>) and
  a join that never returns are the value \<open>None\<close>, and theorems state that it is not
  reached.

  \<^bold>\<open>What the lemmas show.\<close> Routing is the documented one, whatever the sorting routine, for
  canonical paths and rules that do not hide each other; a
  parse of a complete message is described completely, and each outcome keeps the context
  well formed; the breaker refines its automaton; the limiter's admissions are bounded
  with an explicit rounding error; the pool never shares or exceeds, and does not misdirect
  clients that return connections under their own host and port; loaded snapshots
  are alive and whole in every interleaving; counters add up in every interleaving; every
  connection finishes within eight resumptions, is answered at most once and well formed,
  and does not crash on finalized snapshots; the connections of a worker do not interfere, each
  is answered by one version of the routes, and the worker's shard says exactly what they did on
  their sockets; a thread only counts in a live shard of its own, the gateway's threads are always
  joined, its shutdown ends in every fair run, even with idle connections left, and its destructor
  leaves no thread and no shard; the metrics page is true of
  all the connections of the whole gateway; objects can be moved freely.
  Theorems also pin down where the code departs from its comments and documents; they are
  listed with the findings of the manifest.

  \<^bold>\<open>Bounds and fuel.\<close> No definition takes fuel: every loop has a termination proof. Doubles have
  an unbounded exponent, which the values of the limiter never need. A steady clock reading is
  an unbounded integer.

  \<^bold>\<open>Not modelled.\<close> Socket input and output beyond their results, the scheduling inside
  Boost.Asio (any order of resumptions is allowed), the wait of \<^verbatim>\<open>main\<close> for a signal, llhttp's
  grammar, weak memory: steps of threads are taken one after another, and a coroutine's turn from one
  suspension point to the next is one step (theory \<open>Metrics\<close> has its additions one by one). Tests, build files and
  documents are not part of the program.

  \<^bold>\<open>Open.\<close> The answers of a connection per llhttp error; pool, limiter and breaker with the
  durations of the steady clock in one run, for the day the spine calls them.
\<close>

section \<open>Workers under the runtime\<close>

text \<open>
  Theory \<open>Worker\<close> assumes that a worker's thread counts in a shard of its own and that the
  other threads use the registry as \<open>foreign\<close> and \<open>owned_use\<close> say. The runtime's steps see to it.
\<close>

lemma foreign_control:
  assumes "control_step s s'" "runtime_ok s" "shards_ok s'" "rt_phase s i = Running"
  shows "rt_registry s' = rt_registry s
    \<or> (\<exists>e. foreign i (rt_shards s ! i) e \<and> owned_use (rt_registry s) e
          \<and> registry_step (rt_registry s) e = Some (rt_registry s'))"
  using assms(1)
proof (cases rule: control_step.cases)
  case (destroy_worker j)
  let ?s = "s\<lparr>rt_member := (rt_member s)(j := False)\<rparr>"
  have ok: "shards_ok s" using assms(2) by (simp add: runtime_ok_def)
  have "shards_ok (give_up_share j ?s)" using assms(3) destroy_worker(1) by (auto intro: shards_ok_cong)
  note up = give_up_owned [OF ok this]
  have "j \<noteq> i" using destroy_worker assms(4) by auto
  with other_shard [OF ok phase_worker [OF ok] destroy_worker(3)] assms(4)
  have "foreign i (rt_shards s ! i) (DropShard (rt_shards s ! j))" by simp
  with up destroy_worker show ?thesis by (auto intro: exI [of _ "DropShard (rt_shards s ! j)"])
qed simp_all

lemma foreign_thread:
  assumes "thread_step s s'" "runtime_ok s" "shards_ok s'" "rt_phase s i = Running" "rt_phase s' i = Running"
  shows "rt_registry s' = rt_registry s
    \<or> (\<exists>e. foreign i (rt_shards s ! i) e \<and> owned_use (rt_registry s) e
          \<and> registry_step (rt_registry s) e = Some (rt_registry s'))"
proof -
  have ok: "shards_ok s" using assms(2) by (simp add: runtime_ok_def)
  note i = phase_worker [OF ok, of i]
  from assms(1) show ?thesis
  proof (cases rule: thread_step.cases)
    case (bind j)
    then have "j \<noteq> i" "j < rt_workers s" using assms(4) phase_worker [OF ok, of j] by auto
    with other_shard [OF ok i this(2,1)] assms(4)
    have "foreign i (rt_shards s ! i) (Bind j (rt_shards s ! j))" by simp
    with bind bind_owned [OF ok, of j] show ?thesis by (auto intro!: exI [of _ "Bind j (rt_shards s ! j)"])
  next
    case (unbind j)
    then have "j \<noteq> i" using assms(5) by auto
    with unbind show ?thesis by (auto intro!: exI [of _ "Unbind j"])
  next
    case (end_thread j)
    then have "j \<noteq> i" "j < rt_workers s" using assms(4) phase_worker [OF ok, of j] by auto
    with other_shard [OF ok i this(2,1)] assms(4)
    have "foreign i (rt_shards s ! i) (DropShard (rt_shards s ! j))" by simp
    moreover have "shards_ok (give_up_share j (set_phase j Ended s))" using assms(3) end_thread by simp
    from give_up_owned [OF ok this] end_thread
    have "rt_registry s' = rt_registry s \<or> owned_use (rt_registry s) (DropShard (rt_shards s ! j))
        \<and> rt_registry s' = drop_shard (rt_shards s ! j) (rt_registry s)" by simp
    ultimately show ?thesis by (auto intro: exI [of _ "DropShard (rt_shards s ! j)"])
  qed
qed

text \<open>
  C20 (refinement): the runtime provides what the model of a worker relies on. While the
  thread of a worker runs, it is bound to a live shard no other thread counts in; and every step
  of any thread changes the registry only as the worker's guard permits other threads
  to, or is an addition of this worker's own.
\<close>

theorem runtime_meets_worker_guard:
  assumes "new_gateway srt grow envs cfg new_registry = (Inr g, r)"
    and "runtime_step\<^sup>*\<^sup>* (new_runtime g r) s" "runtime_step s s'"
    and "rt_phase s i = Running" "rt_phase s' i = Running" "ws_metrics w = rt_registry s"
  shows "counts_in i (rt_shards s ! i) (rt_registry s)
    \<and> (rt_registry s' = rt_registry s
       \<or> (\<exists>e. registry_step (rt_registry s) e = Some (rt_registry s')
             \<and> (worker_guard i (rt_shards s ! i) w (Elsewhere e) \<or> (\<exists>c n. e = Add i c n))))"
proof -
  have ok: "runtime_ok s" "runtime_ok s'"
    using reachable_runtime_ok [OF assms(1,2)] runtime_ok_step [OF assms(3)] by blast+
  then have shards: "shards_ok s" "shards_ok s'" by (simp_all add: runtime_ok_def)
  from assms(3) consider "control_step s s'" | "thread_step s s'" | "run_step s s'"
    unfolding runtime_step_def by blast
  then have "rt_registry s' = rt_registry s
    \<or> (\<exists>e. registry_step (rt_registry s) e = Some (rt_registry s')
          \<and> (foreign i (rt_shards s ! i) e \<and> owned_use (rt_registry s) e \<or> (\<exists>c n. e = Add i c n)))"
  proof cases
    case 1
    from foreign_control [OF this ok(1) shards(2) assms(4)] show ?thesis by blast
  next
    case 2
    from foreign_thread [OF this ok(1) shards(2) assms(4,5)] show ?thesis by blast
  next
    case 3
    then show ?thesis
    proof (cases rule: run_step.cases)
      case (count j c n reg)
      then have "registry_step (rt_registry s) (Add j c n) = Some (rt_registry s')" by simp
      moreover have "foreign i (rt_shards s ! i) (Add j c n) \<or> j = i" by auto
      ultimately show ?thesis by fastforce
    qed simp
  qed
  with running_counts_in [OF shards(1) assms(4)] assms(6) show ?thesis by simp
qed

theorem runtime_meets_worker_guard_witness:
  "counts_in 0 0 (rt_registry demo_rt3)"
proof -
  have "rt_phase demo_rt3 0 = Running" "rt_phase demo_rt4 0 = Running" "rt_shards demo_rt3 = [0, 1]"
    by (simp_all add: demo_rt_defs)
  with runtime_meets_worker_guard [OF demo_new demo_rt_reachable(1) demo_rt_steps(4),
      where i = 0 and w = "new_worker demo_spine (rt_registry demo_rt3)"]
  show ?thesis by (simp add: new_worker_def)
qed

end
